(* ===== verification/Prelude.thy ===== *)
theory Prelude
  imports "HOL-Library.Word" "HOL-Library.Monad_Syntax" "HOL-Library.Multiset"
begin

text \<open>
  Shared vocabulary of the development.

  \<^item> Machine integers are words of the source's width; the arithmetic methods of Rust's
    integers that the code calls (\<open>checked_add\<close>, \<open>checked_sub\<close>, \<open>saturating_add\<close>,
    \<open>saturating_sub\<close>) are defined here once.
  \<^item> A panic (failed \<open>assert!\<close>, \<open>unwrap()\<close> of the wrong variant, \<open>unreachable!()\<close>,
    arithmetic overflow under \<open>unwrap\<close>) is the value \<^const>\<open>None\<close> of an option, so that the
    \<open>do\<close> notation of \<open>HOL-Library.Monad_Syntax\<close> threads it. An error that the
    source returns in a \<open>Result\<close> is a value of a sum type or of a datatype.
  \<^item> \<open>BTreeMap\<close> is an association list kept in strictly ascending key order,
    \<open>BTreeSet\<close> the list of its keys; every operation the code uses is given with the laws
    that the components rely on.
\<close>

section \<open>Machine integers\<close>

type_synonym u8 = "8 word"
type_synonym u16 = "16 word"
type_synonym u32 = "32 word"
type_synonym u64 = "64 word"
type_synonym u128 = "128 word"
type_synonym usize = "64 word"

named_theorems arith_defs
named_theorems panic_simps

definition checked_add :: "'a::len word \<Rightarrow> 'a word \<Rightarrow> 'a word option" where
  "checked_add a b = (if unat a + unat b < 2 ^ LENGTH('a) then Some (a + b) else None)"

definition checked_sub :: "'a::len word \<Rightarrow> 'a word \<Rightarrow> 'a word option" where
  "checked_sub a b = (if b \<le> a then Some (a - b) else None)"

definition checked_mul :: "'a::len word \<Rightarrow> 'a word \<Rightarrow> 'a word option" where
  "checked_mul a b = (if unat a * unat b < 2 ^ LENGTH('a) then Some (a * b) else None)"

definition saturating_add :: "'a::len word \<Rightarrow> 'a word \<Rightarrow> 'a word" where
  "saturating_add a b = (if unat a + unat b < 2 ^ LENGTH('a) then a + b else - 1)"

definition saturating_sub :: "'a::len word \<Rightarrow> 'a word \<Rightarrow> 'a word" where
  "saturating_sub a b = (if b \<le> a then a - b else 0)"

definition saturating_mul :: "'a::len word \<Rightarrow> 'a word \<Rightarrow> 'a word" where
  "saturating_mul a b = (if unat a * unat b < 2 ^ LENGTH('a) then a * b else - 1)"

lemmas checked_defs = checked_add_def checked_sub_def checked_mul_def
lemmas saturating_defs = saturating_add_def saturating_sub_def saturating_mul_def

lemma unat_add_bounded:
  fixes a b :: "'a::len word"
  shows "unat a + unat b < 2 ^ LENGTH('a) \<Longrightarrow> unat (a + b) = unat a + unat b"
  by (simp add: unat_word_ariths)

lemma unat_mult_bounded:
  fixes a b :: "'a::len word"
  shows "unat a * unat b < 2 ^ LENGTH('a) \<Longrightarrow> unat (a * b) = unat a * unat b"
  by (simp add: unat_word_ariths)

lemma unat_max_word: "unat (- 1 :: 'a::len word) = 2 ^ LENGTH('a) - 1"
  by (simp add: unsigned_minus_1_eq_mask mask_eq_exp_minus_1)

lemma unat_sub_bounded:
  fixes a b :: "'a::len word"
  shows "b \<le> a \<Longrightarrow> unat (a - b) = unat a - unat b"
  by (simp add: unat_sub)

lemma unat_bound: "unat (w :: 'a::len word) < 2 ^ LENGTH('a)"
  by (rule unsigned_less)

lemma unat_ucast_up:
  "LENGTH('a) \<le> LENGTH('b) \<Longrightarrow> unat (ucast (w :: 'a::len word) :: 'b::len word) = unat w"
  by transfer (simp add: take_bit_take_bit min_def)

lemma checked_add_Some_iff:
  "checked_add a b = Some c \<longleftrightarrow>
     unat a + unat b < 2 ^ LENGTH('a) \<and> (c :: 'a::len word) = a + b"
  by (auto simp: checked_add_def)

lemma checked_sub_Some_iff:
  "checked_sub a b = Some c \<longleftrightarrow> b \<le> a \<and> (c :: 'a::len word) = a - b"
  by (auto simp: checked_sub_def)

lemma unat_saturating_add:
  "unat (saturating_add a b) = min (2 ^ LENGTH('a) - 1) (unat a + unat (b :: 'a::len word))"
proof (cases "unat a + unat b < 2 ^ LENGTH('a)")
  case True
  then show ?thesis
    by (simp add: saturating_add_def unat_add_bounded)
next
  case False
  then have "2 ^ LENGTH('a) - 1 \<le> unat a + unat b" by linarith
  with False show ?thesis
    by (simp only: saturating_add_def unat_max_word min.absorb1 if_False)
qed

lemma unat_saturating_sub:
  "unat (saturating_sub a b) = unat a - unat (b :: 'a::len word)"
  by (auto simp: saturating_sub_def unat_sub word_le_nat_alt)

lemma unat_saturating_mul:
  "unat (saturating_mul a b) = min (2 ^ LENGTH('a) - 1) (unat a * unat (b :: 'a::len word))"
proof (cases "unat a * unat b < 2 ^ LENGTH('a)")
  case True
  then show ?thesis
    by (simp add: saturating_mul_def unat_mult_bounded)
next
  case False
  then have "2 ^ LENGTH('a) - 1 \<le> unat a * unat b" by linarith
  with False show ?thesis
    by (simp only: saturating_mul_def unat_max_word min.absorb1 if_False)
qed

text \<open>Code equations that stay within the words and the integers.\<close>

lemma saturating_add_code [code]: "saturating_add a b = (let s = a + b in if s < a then - 1 else s)"
  for a :: "'a::len word"
proof (cases "unat a + unat b < 2 ^ LENGTH('a)")
  case True
  then show ?thesis by (simp add: saturating_add_def word_less_nat_alt unat_add_bounded)
next
  case False
  have "unat (a + b) = (unat a + unat b) mod 2 ^ LENGTH('a)" by (rule unat_word_ariths(1))
  also have "\<dots> = (unat a + unat b - 2 ^ LENGTH('a)) mod 2 ^ LENGTH('a)" using False by (simp only: le_mod_geq not_less)
  also have "\<dots> = unat a + unat b - 2 ^ LENGTH('a)"
    by (rule mod_less) (use unat_bound [of a] unat_bound [of b] in linarith)
  finally have "unat (a + b) < unat a" using False unat_bound [of b] by linarith
  with False show ?thesis by (simp only: saturating_add_def word_less_nat_alt Let_def if_True if_False)
qed

lemma saturating_mul_code [code]:
  "saturating_mul a b = (if uint a * uint b < 2 ^ LENGTH('a) then a * b else - 1)" for a :: "'a::len word"
proof -
  have "unat a * unat b < 2 ^ LENGTH('a) \<longleftrightarrow> int (unat a * unat b) < int (2 ^ LENGTH('a))" by linarith
  then show ?thesis by (simp add: saturating_mul_def)
qed

lemma saturating_add_ge: "a \<le> saturating_add a (b :: 'a::len word)"
proof -
  have "unat a < 2 ^ LENGTH('a)" by (rule unsigned_less)
  then have "unat a \<le> unat (saturating_add a b)"
    unfolding unat_saturating_add by linarith
  then show ?thesis by (simp add: word_le_nat_alt)
qed

section \<open>Panics\<close>

definition assert_that :: "bool \<Rightarrow> unit option" where
  "assert_that b = (if b then Some () else None)"

definition unwrap_none :: "'a option \<Rightarrow> unit option" where
  "unwrap_none x = (case x of None \<Rightarrow> Some () | Some _ \<Rightarrow> None)"

lemma assert_that_simps [simp, panic_simps]:
  "assert_that True = Some ()"
  "assert_that False = None"
  by (simp_all add: assert_that_def)

lemma assert_that_Some_iff [simp]: "assert_that b = Some u \<longleftrightarrow> b"
  by (simp add: assert_that_def)

lemma assert_that_bind [panic_simps]:
  "(assert_that b \<bind> f) = (if b then f () else None)"
  by (simp add: assert_that_def)

lemma unwrap_none_simps [simp, panic_simps]:
  "unwrap_none None = Some ()"
  "unwrap_none (Some x) = None"
  by (simp_all add: unwrap_none_def)

text \<open>Checked sums and differences of \<open>u64\<close> values that are kept as natural numbers.\<close>

definition add64 :: "nat \<Rightarrow> nat \<Rightarrow> nat option" where
  "add64 a b = (if a + b < 2 ^ 64 then Some (a + b) else None)"

text \<open>Small sums are recognised without computing the bound.\<close>

lemma add64_small [code]: "add64 a b = (if a + b < 64 \<or> a + b < 2 ^ 64 then Some (a + b) else None)"
  by (auto simp: add64_def)

definition sub64 :: "nat \<Rightarrow> nat \<Rightarrow> nat option" where
  "sub64 a b = (if b \<le> a then Some (a - b) else None)"

text \<open>A loop over a list whose body may panic.\<close>

fun run_list :: "('l \<Rightarrow> 's \<Rightarrow> 's option) \<Rightarrow> 'l list \<Rightarrow> 's \<Rightarrow> 's option" where
  "run_list f [] s = Some s"
| "run_list f (l # ls) s = (case f l s of None \<Rightarrow> None | Some s' \<Rightarrow> run_list f ls s')"

lemma run_list_append: "run_list f (ls @ ms) s = run_list f ls s \<bind> run_list f ms"
  by (induction ls arbitrary: s) (simp_all split: option.split)

section \<open>Lists\<close>

lemma length_filter_not:
  "length (filter P xs) + length (filter (\<lambda>x. \<not> P x) xs) = length xs"
  by (rule sum_length_filter_compl)

lemma distinct_map_fst_unique:
  "distinct (map fst xs) \<Longrightarrow> (k, v) \<in> set xs \<Longrightarrow> (k, w) \<in> set xs \<Longrightarrow> v = w"
  by (metis map_of_is_SomeI option.inject)

lemma distinct_map_fst_inj: "distinct (map fst xs) \<Longrightarrow> inj_on fst (set xs)"
  by (simp add: distinct_map)

section \<open>Ordered maps\<close>

type_synonym ('k, 'v) btree_map = "('k \<times> 'v) list"

definition btm_ok :: "('k::linorder, 'v) btree_map \<Rightarrow> bool" where
  "btm_ok m \<longleftrightarrow> sorted_wrt (<) (map fst m)"

definition btm_get :: "'k \<Rightarrow> ('k, 'v) btree_map \<Rightarrow> 'v option" where
  "btm_get k m = map_of m k"

fun btm_put :: "'k::linorder \<Rightarrow> 'v \<Rightarrow> ('k, 'v) btree_map \<Rightarrow> ('k, 'v) btree_map" where
  "btm_put k v [] = [(k, v)]"
| "btm_put k v (p # m) =
     (if k < fst p then (k, v) # p # m
      else if k = fst p then (k, v) # m
      else p # btm_put k v m)"

definition btm_del :: "'k \<Rightarrow> ('k, 'v) btree_map \<Rightarrow> ('k, 'v) btree_map" where
  "btm_del k m = filter (\<lambda>p. fst p \<noteq> k) m"

definition btm_pop_first :: "('k, 'v) btree_map \<Rightarrow> (('k \<times> 'v) \<times> ('k, 'v) btree_map) option" where
  "btm_pop_first m = (case m of [] \<Rightarrow> None | p # m' \<Rightarrow> Some (p, m'))"

definition btm_first :: "('k, 'v) btree_map \<Rightarrow> ('k \<times> 'v) option" where
  "btm_first m = (case m of [] \<Rightarrow> None | p # _ \<Rightarrow> Some p)"

definition btm_range_from :: "'k::linorder \<Rightarrow> ('k, 'v) btree_map \<Rightarrow> ('k, 'v) btree_map" where
  "btm_range_from k m = filter (\<lambda>p. k \<le> fst p) m"

text \<open>\<open>insert(k, v).unwrap_none()\<close>: the key must be new.\<close>

definition btm_insert_new ::
  "'k::linorder \<Rightarrow> 'v \<Rightarrow> ('k, 'v) btree_map \<Rightarrow> ('k, 'v) btree_map option" where
  "btm_insert_new k v m = do { unwrap_none (btm_get k m); Some (btm_put k v m) }"

lemma btm_ok_Nil [simp]: "btm_ok []"
  by (simp add: btm_ok_def)

lemma btm_ok_single [simp]: "btm_ok [p]"
  by (simp add: btm_ok_def)

lemma btm_ok_Cons: "btm_ok (p # m) \<longleftrightarrow> (\<forall>q \<in> set m. fst p < fst q) \<and> btm_ok m"
  by (auto simp: btm_ok_def)

lemma btm_ok_distinct: "btm_ok m \<Longrightarrow> distinct (map fst m)"
  by (induction m) (auto simp: btm_ok_Cons)

lemma btm_ok_inj: "btm_ok m \<Longrightarrow> (k, v) \<in> set m \<Longrightarrow> (k, w) \<in> set m \<Longrightarrow> v = w"
  by (blast dest: btm_ok_distinct distinct_map_fst_unique)

lemma btm_get_None_iff: "btm_get k m = None \<longleftrightarrow> k \<notin> fst ` set m"
  by (simp add: btm_get_def map_of_eq_None_iff)

lemma btm_get_Some_iff: "btm_ok m \<Longrightarrow> btm_get k m = Some v \<longleftrightarrow> (k, v) \<in> set m"
  by (auto simp: btm_get_def btm_ok_distinct dest: map_of_SomeD)

lemma set_btm_put: "k \<notin> fst ` set m \<Longrightarrow> set (btm_put k v m) = insert (k, v) (set m)"
  by (induction m) auto

lemma mset_btm_put: "k \<notin> fst ` set m \<Longrightarrow> mset (btm_put k v m) = add_mset (k, v) (mset m)"
  by (induction m) auto

lemma fst_set_btm_put [simp]: "fst ` set (btm_put k v m) = insert k (fst ` set m)"
  by (induction m) auto

lemma btm_get_put: "btm_get j (btm_put k v m) = (if j = k then Some v else btm_get j m)"
  by (induction m) (auto simp: btm_get_def)

lemma btm_ok_put [intro]: "btm_ok m \<Longrightarrow> btm_ok (btm_put k v m)"
proof (induction m)
  case Nil
  then show ?case by simp
next
  case (Cons p m)
  have "\<forall>q \<in> set (btm_put k v m). fst q = k \<or> fst q \<in> fst ` set m"
    using fst_set_btm_put [of k v m] by blast
  with Cons show ?case by (fastforce simp: btm_ok_Cons)
qed

lemma btm_ok_filter [intro]: "btm_ok m \<Longrightarrow> btm_ok (filter P m)"
  by (induction m) (auto simp: btm_ok_Cons)

lemma btm_ok_del [intro]: "btm_ok m \<Longrightarrow> btm_ok (btm_del k m)"
  by (simp add: btm_del_def btm_ok_filter)

lemma set_btm_del: "set (btm_del k m) = {p \<in> set m. fst p \<noteq> k}"
  by (simp add: btm_del_def)

lemma btm_get_del: "btm_get j (btm_del k m) = (if j = k then None else btm_get j m)"
  by (induction m) (auto simp: btm_get_def btm_del_def)

lemma btm_insert_new_Some_iff:
  "btm_insert_new k v m = Some m' \<longleftrightarrow> k \<notin> fst ` set m \<and> m' = btm_put k v m"
  by (cases "btm_get k m") (auto simp: btm_insert_new_def btm_get_None_iff [symmetric])

lemma btm_insert_new_fresh:
  "k \<notin> fst ` set m \<Longrightarrow> btm_insert_new k v m = Some (btm_put k v m)"
  by (simp add: btm_insert_new_Some_iff)

end
