(* ===== verification/Unified_Scheduler.thy ===== *)
theory Unified_Scheduler
  imports Prelude
begin

text \<open>
  The scheduling state machine of \<open>unified-scheduler-logic/src/lib.rs\<close>.

  \<^item> A \<open>Task\<close> is an \<open>Arc<TaskInner>\<close> and a \<open>UsageQueue\<close> an \<open>Arc<TokenCell<UsageQueueInner>>\<close>:
    both are shared and mutated through aliases, so they are addresses
    (\<open>task_ref\<close>, \<open>queue_ref\<close>) into an explicit store. The tokens that give access to the
    cells are zero-sized and carry no data; passing the store stands for them.
  \<^item> \<open>ShortCounter\<close> is a 32-bit word whose increment and decrement panic on overflow.
  \<^item> A panic is \<^const>\<open>None\<close>.
  \<^item> The transaction type is external: it is a type variable, and the two things that
    \<open>do_create_task\<close> reads from it are parameters of that definition.
\<close>

section \<open>Counters\<close>

type_synonym counter_inner = u32
type_synonym ordered_task_id = u128
type_synonym short_counter = counter_inner

definition sc_zero :: short_counter where
  "sc_zero = 0"

definition sc_one :: short_counter where
  "sc_one = 1"

definition sc_is_one :: "short_counter \<Rightarrow> bool" where
  "sc_is_one c \<longleftrightarrow> c = 1"

definition sc_is_zero :: "short_counter \<Rightarrow> bool" where
  "sc_is_zero c \<longleftrightarrow> c = 0"

definition sc_increment :: "short_counter \<Rightarrow> short_counter option" where
  "sc_increment c = checked_add c 1"

definition sc_decrement :: "short_counter \<Rightarrow> short_counter option" where
  "sc_decrement c = checked_sub c 1"

section \<open>Tasks and usage queues\<close>

type_synonym task_ref = nat
type_synonym queue_ref = nat

datatype capability = FifoQueueing | PriorityQueueing

datatype requested_usage = Req_Readonly | Req_Writable

datatype lock_result = LockOk | LockErr

record lock_context =
  lc_usage_queue :: queue_ref
  lc_requested_usage :: requested_usage

record 'tx task_inner =
  transaction :: 'tx
  task_id :: ordered_task_id
  lock_contexts :: "lock_context list"
  blocked_usage_count :: short_counter
  consumed_block_size :: usize
  sanitized_epoch :: u64
  alt_invalidation_slot :: u64

type_synonym 'tx task_heap = "task_ref \<Rightarrow> 'tx task_inner"

definition is_higher_priority :: "'tx task_inner \<Rightarrow> 'tx task_inner \<Rightarrow> bool option" where
  "is_higher_priority a b =
     (if task_id a < task_id b then Some True
      else if task_id b < task_id a then Some False
      else None)"

definition set_blocked_usage_count :: "task_ref \<Rightarrow> short_counter \<Rightarrow> 'tx task_heap \<Rightarrow> 'tx task_heap" where
  "set_blocked_usage_count t c h = h(t := (h t)\<lparr>blocked_usage_count := c\<rparr>)"

definition try_unblock :: "task_ref \<Rightarrow> 'tx task_heap \<Rightarrow> (task_ref option \<times> 'tx task_heap) option" where
  "try_unblock t h = do {
     c \<leftarrow> sc_decrement (blocked_usage_count (h t));
     Some (if sc_is_zero c then Some t else None, set_blocked_usage_count t c h)
   }"

definition try_reblock :: "task_ref \<Rightarrow> 'tx task_heap \<Rightarrow> (bool \<times> 'tx task_heap) option" where
  "try_reblock t h =
     (if sc_is_zero (blocked_usage_count (h t)) then Some (False, h)
      else do {
        c \<leftarrow> sc_increment (blocked_usage_count (h t));
        Some (True, set_blocked_usage_count t c h)
      })"

datatype ('r, 'w) usage = Readonly 'r | Writable 'w

fun usage_requested_usage :: "('r, 'w) usage \<Rightarrow> requested_usage" where
  "usage_requested_usage (Readonly _) = Req_Readonly"
| "usage_requested_usage (Writable _) = Req_Writable"

type_synonym fifo_usage = "(short_counter, unit) usage"
type_synonym priority_usage = "((ordered_task_id, task_ref) btree_map, task_ref) usage"
type_synonym usage_from_task = "requested_usage \<times> task_ref"
type_synonym priority_usage_queue = "(ordered_task_id, usage_from_task) btree_map"

fun fifo_usage_from :: "requested_usage \<Rightarrow> fifo_usage" where
  "fifo_usage_from Req_Readonly = Readonly sc_one"
| "fifo_usage_from Req_Writable = Writable ()"

fun priority_usage_from :: "'tx task_heap \<Rightarrow> task_ref \<Rightarrow> requested_usage \<Rightarrow> priority_usage" where
  "priority_usage_from h t Req_Readonly = Readonly [(task_id (h t), t)]"
| "priority_usage_from h t Req_Writable = Writable t"

text \<open>\<open>take_readable\<close> and \<open>take_writable\<close> leave \<^const>\<open>None\<close> in the option they are given,
  so they return only what they take out of it.\<close>

fun take_readable :: "priority_usage option \<Rightarrow> unit option" where
  "take_readable (Some (Readonly tasks)) = assert_that (tasks = [])"
| "take_readable _ = None"

fun take_writable :: "priority_usage option \<Rightarrow> task_ref option" where
  "take_writable (Some (Writable task)) = Some task"
| "take_writable _ = None"

definition insert_usage_from_task ::
  "'tx task_heap \<Rightarrow> usage_from_task \<Rightarrow> priority_usage_queue \<Rightarrow> priority_usage_queue option" where
  "insert_usage_from_task h u q = btm_insert_new (task_id (h (snd u))) u q"

definition pop_first_usage_from_task ::
  "priority_usage_queue \<Rightarrow> usage_from_task option \<times> priority_usage_queue" where
  "pop_first_usage_from_task q =
     (case btm_pop_first q of None \<Rightarrow> (None, q) | Some ((_, u), q') \<Rightarrow> (Some u, q'))"

definition first_usage_from_task :: "priority_usage_queue \<Rightarrow> usage_from_task option" where
  "first_usage_from_task q = map_option snd (btm_first q)"

datatype usage_queue_inner =
  Fifo "fifo_usage option" "usage_from_task list"
| Priority "priority_usage option" priority_usage_queue

definition with_fifo :: usage_queue_inner where
  "with_fifo = Fifo None []"

definition with_priority :: usage_queue_inner where
  "with_priority = Priority None []"

fun usage_queue_new :: "capability \<Rightarrow> usage_queue_inner" where
  "usage_queue_new FifoQueueing = with_fifo"
| "usage_queue_new PriorityQueueing = with_priority"

fun try_lock ::
  "'tx task_heap \<Rightarrow> task_ref \<Rightarrow> requested_usage \<Rightarrow> usage_queue_inner
     \<Rightarrow> (lock_result \<times> usage_queue_inner) option" where
  "try_lock h new_task r (Fifo cur blocked) =
     (case cur of
        None \<Rightarrow> Some (LockOk, Fifo (Some (fifo_usage_from r)) blocked)
      | Some (Readonly cnt) \<Rightarrow>
          (case r of
             Req_Readonly \<Rightarrow> do {
               c \<leftarrow> sc_increment cnt;
               Some (LockOk, Fifo (Some (Readonly c)) blocked)
             }
           | Req_Writable \<Rightarrow> Some (LockErr, Fifo cur blocked))
      | Some (Writable _) \<Rightarrow> Some (LockErr, Fifo cur blocked))"
| "try_lock h new_task r (Priority cur blocked) =
     (case cur of
        Some (Readonly tasks) \<Rightarrow>
          (case r of
             Req_Readonly \<Rightarrow> do {
               tasks' \<leftarrow> btm_insert_new (task_id (h new_task)) new_task tasks;
               Some (LockOk, Priority (Some (Readonly tasks')) blocked)
             }
           | Req_Writable \<Rightarrow> Some (LockErr, Priority cur blocked))
      | Some (Writable _) \<Rightarrow> Some (LockErr, Priority cur blocked)
      | None \<Rightarrow> Some (LockOk, Priority (Some (priority_usage_from h new_task r)) blocked))"

fun uq_pop :: "usage_queue_inner \<Rightarrow> usage_from_task option \<times> usage_queue_inner" where
  "uq_pop (Fifo cur []) = (None, Fifo cur [])"
| "uq_pop (Fifo cur (u # blocked)) = (Some u, Fifo cur blocked)"
| "uq_pop (Priority cur blocked) =
     (case pop_first_usage_from_task blocked of (u, blocked') \<Rightarrow> (u, Priority cur blocked'))"

fun uq_push ::
  "'tx task_heap \<Rightarrow> usage_from_task \<Rightarrow> usage_queue_inner \<Rightarrow> usage_queue_inner option" where
  "uq_push h u (Fifo cur blocked) = Some (Fifo cur (blocked @ [u]))"
| "uq_push h u (Priority cur blocked) = do {
     blocked' \<leftarrow> insert_usage_from_task h u blocked;
     Some (Priority cur blocked')
   }"

fun peek_blocked :: "usage_queue_inner \<Rightarrow> usage_from_task option" where
  "peek_blocked (Fifo cur []) = None"
| "peek_blocked (Fifo cur (u # blocked)) = Some u"
| "peek_blocked (Priority cur blocked) = first_usage_from_task blocked"

fun uq_current_usage :: "usage_queue_inner \<Rightarrow> requested_usage option" where
  "uq_current_usage (Fifo cur _) = map_option usage_requested_usage cur"
| "uq_current_usage (Priority cur _) = map_option usage_requested_usage cur"

fun unlock ::
  "'tx task_heap \<Rightarrow> task_ref \<Rightarrow> requested_usage \<Rightarrow> usage_queue_inner
     \<Rightarrow> (usage_from_task option \<times> usage_queue_inner) option" where
  "unlock h task r (Fifo cur blocked) = do {
     (is_newly_lockable, cur') \<leftarrow>
       (case cur of
          Some (Readonly cnt) \<Rightarrow>
            (case r of
               Req_Readonly \<Rightarrow>
                 (if sc_is_one cnt then Some (True, cur)
                  else do { c \<leftarrow> sc_decrement cnt; Some (False, Some (Readonly c)) })
             | Req_Writable \<Rightarrow> None)
        | Some (Writable u) \<Rightarrow> do { assert_that (r = Req_Writable); Some (True, cur) }
        | None \<Rightarrow> None);
     Some (if is_newly_lockable then uq_pop (Fifo None blocked) else (None, Fifo cur' blocked))
   }"
| "unlock h task r (Priority cur blocked) = do {
     (is_newly_lockable, cur') \<leftarrow>
       (case cur of
          Some (Readonly tasks) \<Rightarrow>
            (case r of
               Req_Readonly \<Rightarrow> do {
                 _ \<leftarrow> btm_get (task_id (h task)) tasks;
                 let tasks' = btm_del (task_id (h task)) tasks;
                 Some (tasks' = [], Some (Readonly tasks'))
               }
             | Req_Writable \<Rightarrow> None)
        | Some (Writable _) \<Rightarrow> do { assert_that (r = Req_Writable); Some (True, cur) }
        | None \<Rightarrow> None);
     Some (if is_newly_lockable then uq_pop (Priority None blocked)
           else (None, Priority cur' blocked))
   }"

definition push_blocked ::
  "'tx task_heap \<Rightarrow> usage_from_task \<Rightarrow> usage_queue_inner \<Rightarrow> usage_queue_inner option" where
  "push_blocked h u q = do { assert_that (uq_current_usage q \<noteq> None); uq_push h u q }"

definition pop_lockable_readonly ::
  "usage_queue_inner \<Rightarrow> (usage_from_task option \<times> usage_queue_inner) option" where
  "pop_lockable_readonly q =
     (case peek_blocked q of
        Some (Req_Readonly, _) \<Rightarrow> do {
          assert_that (uq_current_usage q = Some Req_Readonly);
          Some (uq_pop q)
        }
      | _ \<Rightarrow> Some (None, q))"

text \<open>The two passes of the readonly reblocking: \<open>filter_map\<close> over the range collects the
  ids whose task could be reblocked, then each of them moves to the blocked queue.\<close>

fun collect_reblocked ::
  "(ordered_task_id \<times> task_ref) list \<Rightarrow> 'tx task_heap \<Rightarrow> (ordered_task_id list \<times> 'tx task_heap) option" where
  "collect_reblocked [] h = Some ([], h)"
| "collect_reblocked ((i, t) # ts) h = do {
     (reblocked, h') \<leftarrow> try_reblock t h;
     (is, h'') \<leftarrow> collect_reblocked ts h';
     Some (if reblocked then i # is else is, h'')
   }"

fun move_reblocked ::
  "'tx task_heap \<Rightarrow> ordered_task_id list \<Rightarrow> (ordered_task_id, task_ref) btree_map \<Rightarrow> priority_usage_queue
     \<Rightarrow> ((ordered_task_id, task_ref) btree_map \<times> priority_usage_queue) option" where
  "move_reblocked h [] current blocked = Some (current, blocked)"
| "move_reblocked h (i # is) current blocked = do {
     t \<leftarrow> btm_get i current;
     blocked' \<leftarrow> insert_usage_from_task h (Req_Readonly, t) blocked;
     move_reblocked h is (btm_del i current) blocked'
   }"

fun prepare_lock ::
  "task_ref \<Rightarrow> requested_usage \<Rightarrow> usage_queue_inner \<Rightarrow> 'tx task_heap
     \<Rightarrow> (lock_result \<times> usage_queue_inner \<times> 'tx task_heap) option" where
  "prepare_lock new_task r (Fifo cur blocked) h =
     Some (if blocked = [] then LockOk else LockErr, Fifo cur blocked, h)"
| "prepare_lock new_task r (Priority cur blocked) h =
     (case (cur, r) of
        (None, _) \<Rightarrow> do {
          assert_that (blocked = []);
          Some (LockOk, Priority cur blocked, h)
        }
      | (Some (Writable current_task), _) \<Rightarrow> do {
          higher \<leftarrow> is_higher_priority (h new_task) (h current_task);
          if \<not> higher then Some (LockErr, Priority cur blocked, h)
          else do {
            (reblocked, h') \<leftarrow> try_reblock current_task h;
            if \<not> reblocked then Some (LockErr, Priority cur blocked, h')
            else do {
              reblocked_task \<leftarrow> take_writable cur;
              blocked' \<leftarrow> insert_usage_from_task h' (Req_Writable, reblocked_task) blocked;
              Some (LockOk, Priority None blocked', h')
            }
          }
        }
      | (Some (Readonly _), Req_Readonly) \<Rightarrow>
          (case peek_blocked (Priority cur blocked) of
             None \<Rightarrow> Some (LockOk, Priority cur blocked, h)
           | Some (peeked_usage, peeked_task) \<Rightarrow> do {
               assert_that (peeked_usage = Req_Writable);
               higher \<leftarrow> is_higher_priority (h new_task) (h peeked_task);
               Some (if higher then LockOk else LockErr, Priority cur blocked, h)
             })
      | (Some (Readonly current_tasks), Req_Writable) \<Rightarrow> do {
          (task_indexes, h') \<leftarrow>
            collect_reblocked (btm_range_from (task_id (h new_task)) current_tasks) h;
          (current_tasks', blocked') \<leftarrow> move_reblocked h' task_indexes current_tasks blocked;
          if current_tasks' = [] then do {
            take_readable (Some (Readonly current_tasks'));
            Some (LockOk, Priority None blocked', h')
          } else Some (LockErr, Priority (Some (Readonly current_tasks')) blocked', h')
        })"

section \<open>The state machine\<close>

record 'tx store =
  queues :: "queue_ref \<Rightarrow> usage_queue_inner"
  tasks :: "'tx task_heap"

record state_machine =
  unblocked_task_queue :: "task_ref list"
  active_task_count :: short_counter
  running_task_count :: short_counter
  max_running_task_count :: counter_inner
  handled_task_count :: short_counter
  unblocked_task_count :: short_counter
  total_task_count :: short_counter

definition has_no_running_task :: "state_machine \<Rightarrow> bool" where
  "has_no_running_task sm \<longleftrightarrow> sc_is_zero (running_task_count sm)"

definition has_no_active_task :: "state_machine \<Rightarrow> bool" where
  "has_no_active_task sm \<longleftrightarrow> sc_is_zero (active_task_count sm)"

definition has_unblocked_task :: "state_machine \<Rightarrow> bool" where
  "has_unblocked_task sm \<longleftrightarrow> unblocked_task_queue sm \<noteq> []"

definition is_task_runnable :: "state_machine \<Rightarrow> bool" where
  "is_task_runnable sm \<longleftrightarrow> running_task_count sm < max_running_task_count sm"

definition has_runnable_task :: "state_machine \<Rightarrow> bool" where
  "has_runnable_task sm \<longleftrightarrow> has_unblocked_task sm \<and> is_task_runnable sm"

text \<open>The closure that \<open>try_lock_usage_queues\<close> runs on the usage queue of one lock context,
  its application to the queue's cell, and the loop over the contexts.\<close>

definition lock_usage_queue ::
  "task_ref \<Rightarrow> requested_usage \<Rightarrow> short_counter \<Rightarrow> usage_queue_inner \<Rightarrow> 'tx task_heap
     \<Rightarrow> (short_counter \<times> usage_queue_inner \<times> 'tx task_heap) option" where
  "lock_usage_queue t r cnt uq h = do {
     (prep, uq1, h1) \<leftarrow> prepare_lock t r uq h;
     (res, uq2) \<leftarrow> (case prep of LockOk \<Rightarrow> try_lock h1 t r uq1 | LockErr \<Rightarrow> Some (LockErr, uq1));
     (case res of
        LockOk \<Rightarrow> Some (cnt, uq2, h1)
      | LockErr \<Rightarrow> do {
          cnt' \<leftarrow> sc_increment cnt;
          uq3 \<leftarrow> push_blocked h1 (r, t) uq2;
          Some (cnt', uq3, h1)
        })
   }"

definition lock_one_context ::
  "task_ref \<Rightarrow> lock_context \<Rightarrow> short_counter \<Rightarrow> 'tx store \<Rightarrow> (short_counter \<times> 'tx store) option" where
  "lock_one_context t cx cnt st = do {
     let q = lc_usage_queue cx;
     (cnt', uq, h) \<leftarrow> lock_usage_queue t (lc_requested_usage cx) cnt (queues st q) (tasks st);
     Some (cnt', st\<lparr>queues := (queues st)(q := uq), tasks := h\<rparr>)
   }"

fun lock_all_contexts ::
  "task_ref \<Rightarrow> lock_context list \<Rightarrow> short_counter \<Rightarrow> 'tx store \<Rightarrow> (short_counter \<times> 'tx store) option" where
  "lock_all_contexts t [] cnt st = Some (cnt, st)"
| "lock_all_contexts t (cx # cxs) cnt st = do {
     (cnt', st') \<leftarrow> lock_one_context t cx cnt st;
     lock_all_contexts t cxs cnt' st'
   }"

definition try_lock_usage_queues :: "task_ref \<Rightarrow> 'tx store \<Rightarrow> (task_ref option \<times> 'tx store) option" where
  "try_lock_usage_queues t st = do {
     (cnt, st') \<leftarrow> lock_all_contexts t (lock_contexts (tasks st t)) sc_zero st;
     Some (if sc_is_zero cnt then (Some t, st')
           else (None, st'\<lparr>tasks := set_blocked_usage_count t cnt (tasks st')\<rparr>))
   }"

definition schedule_or_buffer_task ::
  "task_ref \<Rightarrow> bool \<Rightarrow> state_machine \<times> 'tx store \<Rightarrow> (task_ref option \<times> state_machine \<times> 'tx store) option" where
  "schedule_or_buffer_task t force_buffering = (\<lambda>(sm, st). do {
     total \<leftarrow> sc_increment (total_task_count sm);
     active \<leftarrow> sc_increment (active_task_count sm);
     let sm1 = sm\<lparr>total_task_count := total, active_task_count := active\<rparr>;
     (locked, st') \<leftarrow> try_lock_usage_queues t st;
     (case locked of
        None \<Rightarrow> Some (None, sm1, st')
      | Some task \<Rightarrow>
          if \<not> is_task_runnable sm1 \<or> force_buffering then do {
            unblocked \<leftarrow> sc_increment (unblocked_task_count sm1);
            Some (None,
              sm1\<lparr>unblocked_task_count := unblocked,
                  unblocked_task_queue := unblocked_task_queue sm1 @ [task]\<rparr>, st')
          } else do {
            running \<leftarrow> sc_increment (running_task_count sm1);
            Some (Some task, sm1\<lparr>running_task_count := running\<rparr>, st')
          })
   })"

definition schedule_task ::
  "task_ref \<Rightarrow> state_machine \<times> 'tx store \<Rightarrow> (task_ref option \<times> state_machine \<times> 'tx store) option" where
  "schedule_task t s = schedule_or_buffer_task t False s"

definition buffer_task ::
  "task_ref \<Rightarrow> state_machine \<times> 'tx store \<Rightarrow> (state_machine \<times> 'tx store) option" where
  "buffer_task t s = do {
     (res, s') \<leftarrow> schedule_or_buffer_task t True s;
     unwrap_none res;
     Some s'
   }"

definition schedule_next_unblocked_task :: "state_machine \<Rightarrow> (task_ref option \<times> state_machine) option" where
  "schedule_next_unblocked_task sm =
     (if \<not> is_task_runnable sm then Some (None, sm)
      else (case unblocked_task_queue sm of
              [] \<Rightarrow> Some (None, sm)
            | t # ts \<Rightarrow> do {
                running \<leftarrow> sc_increment (running_task_count sm);
                unblocked \<leftarrow> sc_increment (unblocked_task_count sm);
                Some (Some t, sm\<lparr>unblocked_task_queue := ts, running_task_count := running,
                                 unblocked_task_count := unblocked\<rparr>)
              }))"

text \<open>The body of the \<open>while\<close> loop of \<open>unlock_usage_queues\<close>, then the loop. Its state is the
  queue being unlocked, the task store, the state machine's queue of unblocked tasks and the
  popped usage \<open>newly_lockable\<close>.\<close>

definition relock_step ::
  "usage_from_task \<Rightarrow> usage_queue_inner \<Rightarrow> 'tx task_heap \<Rightarrow> task_ref list
     \<Rightarrow> (usage_from_task option \<times> usage_queue_inner \<times> 'tx task_heap \<times> task_ref list) option" where
  "relock_step u uq h ub = do {
     let (lockable_usage, lockable_task) = u;
     (res, uq1) \<leftarrow> try_lock h lockable_task lockable_usage uq;
     assert_that (res = LockOk);
     (unblocked, h') \<leftarrow> try_unblock lockable_task h;
     let ub' = (case unblocked of None \<Rightarrow> ub | Some t \<Rightarrow> ub @ [t]);
     (newly_lockable, uq2) \<leftarrow>
       (if lockable_usage = Req_Readonly then pop_lockable_readonly uq1 else Some (None, uq1));
     Some (newly_lockable, uq2, h', ub')
   }"

fun blocked_usages :: "usage_queue_inner \<Rightarrow> usage_from_task list" where
  "blocked_usages (Fifo _ blocked) = blocked"
| "blocked_usages (Priority _ blocked) = map snd blocked"

lemma blocked_usages_try_lock:
  "try_lock h t r uq = Some (res, uq') \<Longrightarrow> blocked_usages uq' = blocked_usages uq"
  by (cases uq)
    (auto split: option.splits usage.splits requested_usage.splits simp: bind_eq_Some_conv)

lemma uq_pop_cases:
  "uq_pop uq = (n, uq') \<Longrightarrow>
     (case n of None \<Rightarrow> uq' = uq \<and> blocked_usages uq = []
              | Some u \<Rightarrow> blocked_usages uq = u # blocked_usages uq')"
  by (cases uq rule: uq_pop.cases)
    (auto simp: pop_first_usage_from_task_def btm_pop_first_def split: list.splits)

lemma pop_lockable_readonly_shrinks:
  "pop_lockable_readonly uq = Some (n, uq') \<Longrightarrow>
     (case n of None \<Rightarrow> uq' = uq | Some u \<Rightarrow> blocked_usages uq = u # blocked_usages uq')"
  using uq_pop_cases [of uq n uq']
  by (auto simp: pop_lockable_readonly_def assert_that_bind
      split: option.splits requested_usage.splits if_splits)

definition relock_measure :: "usage_from_task option \<Rightarrow> usage_queue_inner \<Rightarrow> nat" where
  "relock_measure n uq = (case n of None \<Rightarrow> 0 | Some _ \<Rightarrow> Suc (length (blocked_usages uq)))"

lemma relock_step_decreases:
  assumes "relock_step u uq h ub = Some (n', uq', h', ub')"
  shows "relock_measure n' uq' < relock_measure (Some u) uq"
proof -
  obtain r t where u: "u = (r, t)" by (cases u)
  from assms u obtain res uq1 where tl: "try_lock h t r uq = Some (res, uq1)"
    and nx: "(if r = Req_Readonly then pop_lockable_readonly uq1 else Some (None, uq1)) = Some (n', uq')"
    by (auto simp: relock_step_def bind_eq_Some_conv Let_def split: prod.splits)
  from tl have "blocked_usages uq1 = blocked_usages uq"
    by (rule blocked_usages_try_lock)
  with nx pop_lockable_readonly_shrinks [of uq1 n' uq'] show ?thesis
    by (auto simp: relock_measure_def split: if_splits option.splits dest!: arg_cong [where f = length])
qed

function relock_loop ::
  "usage_from_task option \<Rightarrow> usage_queue_inner \<Rightarrow> 'tx task_heap \<Rightarrow> task_ref list
     \<Rightarrow> (usage_queue_inner \<times> 'tx task_heap \<times> task_ref list) option" where
  "relock_loop None uq h ub = Some (uq, h, ub)"
| "relock_loop (Some u) uq h ub =
     (case relock_step u uq h ub of
        None \<Rightarrow> None
      | Some (n', uq', h', ub') \<Rightarrow> relock_loop n' uq' h' ub')"
  by pat_completeness auto
termination
  by (relation "measure (\<lambda>(n, uq, h, ub). relock_measure n uq)")
    (auto dest: relock_step_decreases)

definition unlock_usage_queue ::
  "task_ref \<Rightarrow> requested_usage \<Rightarrow> usage_queue_inner \<Rightarrow> 'tx task_heap \<Rightarrow> task_ref list
     \<Rightarrow> (usage_queue_inner \<times> 'tx task_heap \<times> task_ref list) option" where
  "unlock_usage_queue t r uq h ub = do {
     (newly_lockable, uq') \<leftarrow> unlock h t r uq;
     relock_loop newly_lockable uq' h ub
   }"

definition unlock_one_context ::
  "task_ref \<Rightarrow> lock_context \<Rightarrow> task_ref list \<times> 'tx store \<Rightarrow> (task_ref list \<times> 'tx store) option" where
  "unlock_one_context t cx = (\<lambda>(ub, st). do {
     let q = lc_usage_queue cx;
     (uq, h, ub') \<leftarrow> unlock_usage_queue t (lc_requested_usage cx) (queues st q) (tasks st) ub;
     Some (ub', st\<lparr>queues := (queues st)(q := uq), tasks := h\<rparr>)
   })"

fun unlock_all_contexts ::
  "task_ref \<Rightarrow> lock_context list \<Rightarrow> task_ref list \<times> 'tx store \<Rightarrow> (task_ref list \<times> 'tx store) option" where
  "unlock_all_contexts t [] s = Some s"
| "unlock_all_contexts t (cx # cxs) s = do {
     s' \<leftarrow> unlock_one_context t cx s;
     unlock_all_contexts t cxs s'
   }"

definition unlock_usage_queues ::
  "task_ref \<Rightarrow> state_machine \<times> 'tx store \<Rightarrow> (state_machine \<times> 'tx store) option" where
  "unlock_usage_queues t = (\<lambda>(sm, st). do {
     (ub, st') \<leftarrow>
       unlock_all_contexts t (lock_contexts (tasks st t)) (unblocked_task_queue sm, st);
     Some (sm\<lparr>unblocked_task_queue := ub\<rparr>, st')
   })"

definition deschedule_task ::
  "task_ref \<Rightarrow> state_machine \<times> 'tx store \<Rightarrow> (state_machine \<times> 'tx store) option" where
  "deschedule_task t = (\<lambda>(sm, st). do {
     running \<leftarrow> sc_decrement (running_task_count sm);
     active \<leftarrow> sc_decrement (active_task_count sm);
     handled \<leftarrow> sc_increment (handled_task_count sm);
     unlock_usage_queues t
       (sm\<lparr>running_task_count := running, active_task_count := active,
           handled_task_count := handled\<rparr>, st)
   })"

text \<open>\<open>do_create_task\<close>: \<open>account_keys\<close> and \<open>is_writable\<close> are what the external transaction
  type answers, \<open>load\<close> is the caller's \<open>usage_queue_loader\<close>, a closure with state \<open>'l\<close>.\<close>

fun load_lock_contexts ::
  "(nat \<Rightarrow> bool) \<Rightarrow> ('l \<Rightarrow> 'pubkey \<Rightarrow> queue_ref \<times> 'l) \<Rightarrow> nat \<Rightarrow> 'pubkey list \<Rightarrow> 'l
     \<Rightarrow> lock_context list \<times> 'l" where
  "load_lock_contexts writable load i [] l = ([], l)"
| "load_lock_contexts writable load i (address # as) l =
     (let (q, l') = load l address;
          cx = \<lparr>lc_usage_queue = q,
                lc_requested_usage = (if writable i then Req_Writable else Req_Readonly)\<rparr>;
          (cxs, l'') = load_lock_contexts writable load (Suc i) as l'
      in (cx # cxs, l''))"

definition do_create_task ::
  "('tx \<Rightarrow> 'pubkey list) \<Rightarrow> ('tx \<Rightarrow> nat \<Rightarrow> bool) \<Rightarrow> ('l \<Rightarrow> 'pubkey \<Rightarrow> queue_ref \<times> 'l)
     \<Rightarrow> 'tx \<Rightarrow> ordered_task_id \<Rightarrow> usize \<Rightarrow> u64 \<Rightarrow> u64 \<Rightarrow> 'l \<Rightarrow> 'tx task_inner \<times> 'l" where
  "do_create_task account_keys is_writable load tx i block_size epoch alt_slot l =
     (let (cxs, l') = load_lock_contexts (is_writable tx) load 0 (account_keys tx) l
      in (\<lparr>transaction = tx, task_id = i, lock_contexts = cxs, blocked_usage_count = sc_zero,
           consumed_block_size = block_size, sanitized_epoch = epoch,
           alt_invalidation_slot = alt_slot\<rparr>, l'))"

definition NO_CONSUMED_BLOCK_SIZE :: usize where
  "NO_CONSUMED_BLOCK_SIZE = 0"

definition MAX_SANITIZED_EPOCH :: u64 where
  "MAX_SANITIZED_EPOCH = - 1"

definition MAX_ALT_INVALIDATION_SLOT :: u64 where
  "MAX_ALT_INVALIDATION_SLOT = - 1"

definition create_task ::
  "('tx \<Rightarrow> 'pubkey list) \<Rightarrow> ('tx \<Rightarrow> nat \<Rightarrow> bool) \<Rightarrow> ('l \<Rightarrow> 'pubkey \<Rightarrow> queue_ref \<times> 'l)
     \<Rightarrow> 'tx \<Rightarrow> ordered_task_id \<Rightarrow> 'l \<Rightarrow> 'tx task_inner \<times> 'l" where
  "create_task account_keys is_writable load tx i l =
     do_create_task account_keys is_writable load tx i
       NO_CONSUMED_BLOCK_SIZE MAX_SANITIZED_EPOCH MAX_ALT_INVALIDATION_SLOT l"

definition create_block_production_task ::
  "('tx \<Rightarrow> 'pubkey list) \<Rightarrow> ('tx \<Rightarrow> nat \<Rightarrow> bool) \<Rightarrow> ('l \<Rightarrow> 'pubkey \<Rightarrow> queue_ref \<times> 'l)
     \<Rightarrow> 'tx \<Rightarrow> ordered_task_id \<Rightarrow> usize \<Rightarrow> u64 \<Rightarrow> u64 \<Rightarrow> 'l \<Rightarrow> 'tx task_inner \<times> 'l" where
  "create_block_production_task account_keys is_writable load tx i block_size epoch alt_slot l =
     do_create_task account_keys is_writable load tx i block_size epoch alt_slot l"

definition reinitialize :: "state_machine \<Rightarrow> state_machine option" where
  "reinitialize sm = do {
     assert_that (has_no_active_task sm);
     assert_that (running_task_count sm = 0);
     assert_that (length (unblocked_task_queue sm) = 0);
     Some (sm\<lparr>active_task_count := 0, handled_task_count := 0, unblocked_task_count := 0,
              total_task_count := 0\<rparr>)
   }"

text \<open>The loop of \<open>clear_and_reinitialize\<close>; \<^const>\<open>None\<close> is a panic or a loop that never ends
  (the properties show that neither happens).\<close>

partial_function (option) clear_loop ::
  "short_counter \<Rightarrow> state_machine \<times> 'tx store \<Rightarrow> (short_counter \<times> state_machine \<times> 'tx store) option" where
  "clear_loop cnt s =
     (case schedule_next_unblocked_task (fst s) of
        None \<Rightarrow> None
      | Some (None, sm') \<Rightarrow> Some (cnt, sm', snd s)
      | Some (Some t, sm') \<Rightarrow>
          (case deschedule_task t (sm', snd s) of
             None \<Rightarrow> None
           | Some s' \<Rightarrow>
               (case sc_increment cnt of
                  None \<Rightarrow> None
                | Some cnt' \<Rightarrow> clear_loop cnt' s')))"

definition clear_and_reinitialize ::
  "state_machine \<times> 'tx store \<Rightarrow> (usize \<times> state_machine \<times> 'tx store) option" where
  "clear_and_reinitialize s = do {
     (cnt, sm, st) \<leftarrow> clear_loop sc_zero s;
     sm' \<leftarrow> reinitialize sm;
     Some (ucast cnt, sm', st)
   }"

definition exclusively_initialize_current_thread_for_scheduling ::
  "usize option \<Rightarrow> state_machine option" where
  "exclusively_initialize_current_thread_for_scheduling max_running = do {
     let m = (case max_running of None \<Rightarrow> 2 ^ 32 - 1 | Some n \<Rightarrow> n);
     assert_that (unat m < 2 ^ 32);
     Some \<lparr>unblocked_task_queue = [], active_task_count = sc_zero, running_task_count = sc_zero,
           max_running_task_count = ucast m, handled_task_count = sc_zero,
           unblocked_task_count = sc_zero, total_task_count = sc_zero\<rparr>
   }"

end
