(* ===== verification/Usage_Queue_Inv.thy ===== *)
theory Usage_Queue_Inv
  imports Unified_Scheduler
begin

text \<open>
  The invariant of one usage queue and its preservation by the two closures that the state
  machine runs on it: \<^const>\<open>lock_usage_queue\<close> (scheduling) and \<^const>\<open>unlock_usage_queue\<close>
  (descheduling).

  \<open>U\<close> is the set of usages registered at the queue: one for each active task whose lock
  contexts name it. Those that are not in the blocked queue are its holders; the invariant says
  that \<open>current_usage\<close> describes exactly the holders, and in which order the waiting usages
  stand. \<open>stamp\<close> is the arrival order of the tasks, \<open>ids\<close> their task ids and \<open>blk\<close> the
  tasks that still wait somewhere.
\<close>

section \<open>The invariant\<close>

named_theorems counter_simps

lemmas counter_defs =
  sc_zero_def sc_one_def sc_is_one_def sc_is_zero_def sc_increment_def sc_decrement_def

lemma sc_increment_Some:
  "unat c + 1 < 2 ^ 32 \<Longrightarrow> sc_increment c = Some (c + 1)"
  by (simp add: sc_increment_def checked_add_def)

lemma sc_decrement_Some: "c \<noteq> 0 \<Longrightarrow> sc_decrement c = Some (c - 1)"
  by (simp add: sc_decrement_def checked_sub_def word_le_nat_alt unat_eq_0 Suc_le_eq)

lemma unat_inc32: "unat (c :: u32) + 1 < 2 ^ 32 \<Longrightarrow> unat (c + 1) = unat c + 1"
  by (subst unat_add_bounded) simp_all

lemma unat_dec32: "(c :: u32) \<noteq> 0 \<Longrightarrow> unat (c - 1) = unat c - 1"
  using unat_sub_bounded [of 1 c] by (simp add: word_le_nat_alt unat_gt_0 Suc_le_eq)

fun is_fifo :: "usage_queue_inner \<Rightarrow> bool" where
  "is_fifo (Fifo _ _) = True"
| "is_fifo (Priority _ _) = False"

definition holders :: "usage_from_task set \<Rightarrow> usage_queue_inner \<Rightarrow> usage_from_task set" where
  "holders U uq = U - set (blocked_usages uq)"

definition waiters :: "usage_queue_inner \<Rightarrow> task_ref set" where
  "waiters uq = snd ` set (blocked_usages uq)"

fun cur_ok :: "(task_ref \<Rightarrow> ordered_task_id) \<Rightarrow> usage_from_task set \<Rightarrow> usage_queue_inner \<Rightarrow> bool" where
  "cur_ok ids H (Fifo None _) \<longleftrightarrow> H = {}"
| "cur_ok ids H (Fifo (Some (Readonly n)) _) \<longleftrightarrow>
     H \<noteq> {} \<and> fst ` H \<subseteq> {Req_Readonly} \<and> card H = unat n"
| "cur_ok ids H (Fifo (Some (Writable _)) _) \<longleftrightarrow> (\<exists>t. H = {(Req_Writable, t)})"
| "cur_ok ids H (Priority None _) \<longleftrightarrow> H = {}"
| "cur_ok ids H (Priority (Some (Readonly m)) _) \<longleftrightarrow>
     m \<noteq> [] \<and> btm_ok m \<and> (\<forall>p \<in> set m. fst p = ids (snd p)) \<and>
     H = (\<lambda>p. (Req_Readonly, snd p)) ` set m"
| "cur_ok ids H (Priority (Some (Writable t)) _) \<longleftrightarrow> H = {(Req_Writable, t)}"

fun keyed :: "(task_ref \<Rightarrow> ordered_task_id) \<Rightarrow> usage_queue_inner \<Rightarrow> bool" where
  "keyed ids (Fifo _ _) \<longleftrightarrow> True"
| "keyed ids (Priority _ b) \<longleftrightarrow> (\<forall>p \<in> set b. fst p = ids (snd (snd p)))"

fun uq_key :: "(task_ref \<Rightarrow> ordered_task_id) \<Rightarrow> (task_ref \<Rightarrow> nat) \<Rightarrow> usage_queue_inner \<Rightarrow> task_ref \<Rightarrow> nat" where
  "uq_key ids stamp (Fifo _ _) t = stamp t"
| "uq_key ids stamp (Priority _ _) t = unat (ids t)"

fun order_ok ::
  "(task_ref \<Rightarrow> ordered_task_id) \<Rightarrow> (task_ref \<Rightarrow> nat) \<Rightarrow> (task_ref \<Rightarrow> bool) \<Rightarrow> usage_from_task set
     \<Rightarrow> usage_queue_inner \<Rightarrow> bool" where
  "order_ok ids stamp blk H (Fifo _ b) \<longleftrightarrow>
     (\<forall>x \<in> H. \<forall>w \<in> set b. stamp (snd x) < stamp (snd w))"
| "order_ok ids stamp blk H (Priority None b) \<longleftrightarrow> True"
| "order_ok ids stamp blk H (Priority (Some (Writable t)) b) \<longleftrightarrow>
     (blk t \<longrightarrow> (\<forall>w \<in> set b. ids t < fst w))"
| "order_ok ids stamp blk H (Priority (Some (Readonly _)) b) \<longleftrightarrow>
     (b \<noteq> [] \<longrightarrow> fst (snd (hd b)) = Req_Writable) \<and>
     (\<forall>x \<in> H. blk (snd x) \<longrightarrow>
        (\<forall>w \<in> set b. fst (snd w) = Req_Writable \<longrightarrow> ids (snd x) < fst w))"

definition queue_ok ::
  "(task_ref \<Rightarrow> ordered_task_id) \<Rightarrow> (task_ref \<Rightarrow> nat) \<Rightarrow> (task_ref \<Rightarrow> bool) \<Rightarrow> usage_from_task set
     \<Rightarrow> usage_queue_inner \<Rightarrow> bool" where
  "queue_ok ids stamp blk U uq \<longleftrightarrow>
     finite U \<and> inj_on snd U \<and> set (blocked_usages uq) \<subseteq> U \<and> keyed ids uq \<and>
     sorted_wrt (\<lambda>a b. uq_key ids stamp uq (snd a) < uq_key ids stamp uq (snd b)) (blocked_usages uq) \<and>
     cur_ok ids (holders U uq) uq \<and> order_ok ids stamp blk (holders U uq) uq \<and>
     (holders U uq = {} \<longrightarrow> blocked_usages uq = [])"

lemma order_ok_antimono:
  assumes "order_ok ids stamp blk H uq" and "cur_ok ids H uq" and "\<And>x. x \<in> snd ` H \<Longrightarrow> blk' x \<Longrightarrow> blk x"
  shows "order_ok ids stamp blk' H uq"
proof (cases "(ids, stamp, blk, H, uq)" rule: order_ok.cases)
  case (3 ids' stamp' blk'' H' t b)
  then have "t \<in> snd ` H" using assms(2) by simp
  with 3 assms(1,3) show ?thesis by auto
next
  case (4 ids' stamp' blk'' H' m b)
  then have "order_ok ids stamp blk H (Priority (Some (Readonly m)) b)" using assms(1) by simp
  then have "order_ok ids stamp blk' H (Priority (Some (Readonly m)) b)"
    unfolding order_ok.simps using assms(3) by blast
  with 4 show ?thesis by simp
qed (use assms(1) in auto)

lemma queue_ok_antimono:
  assumes "queue_ok ids stamp blk U uq" and "\<And>x. x \<in> snd ` U \<Longrightarrow> blk' x \<Longrightarrow> blk x"
  shows "queue_ok ids stamp blk' U uq"
proof -
  have "order_ok ids stamp blk' (holders U uq) uq"
  proof (rule order_ok_antimono)
    show "order_ok ids stamp blk (holders U uq) uq" "cur_ok ids (holders U uq) uq"
      using assms(1) by (simp_all add: queue_ok_def)
  qed (use assms(2) in \<open>auto simp: holders_def\<close>)
  with assms(1) show ?thesis by (simp add: queue_ok_def)
qed

lemma queue_ok_new: "queue_ok ids stamp blk {} (usage_queue_new cap)"
  by (cases cap) (simp_all add: queue_ok_def holders_def with_fifo_def with_priority_def)

lemma queue_ok_empty_iff: "queue_ok ids stamp blk {} uq \<longleftrightarrow> uq = with_fifo \<or> uq = with_priority"
proof
  assume ok: "queue_ok ids stamp blk {} uq"
  then have "blocked_usages uq = []" and "cur_ok ids {} uq"
    by (auto simp: queue_ok_def holders_def)
  then show "uq = with_fifo \<or> uq = with_priority"
    by (cases "(ids, {} :: usage_from_task set, uq)" rule: cur_ok.cases)
      (auto simp: with_fifo_def with_priority_def)
qed (use queue_ok_new [of ids stamp blk FifoQueueing] queue_ok_new [of ids stamp blk PriorityQueueing]
     in auto)

lemma cur_ok_cong:
  assumes "cur_ok ids H uq" and eq: "\<And>x. x \<in> snd ` H \<Longrightarrow> ids x = ids' x"
  shows "cur_ok ids' H uq"
proof (cases "(ids, H, uq)" rule: cur_ok.cases)
  case (5 ids'' H' m b)
  with assms(1) have m: "m \<noteq> []" "btm_ok m" "\<forall>p \<in> set m. fst p = ids (snd p)"
    "H = (\<lambda>p. (Req_Readonly, snd p)) ` set m" by auto
  then have "\<forall>p \<in> set m. ids (snd p) = ids' (snd p)" using eq by force
  with m 5 show ?thesis by simp
qed (use assms(1) in auto)

lemma order_ok_cong:
  assumes "order_ok ids stamp blk H uq" and "cur_ok ids H uq"
    and eq: "\<And>x. x \<in> snd ` H \<union> waiters uq \<Longrightarrow> ids x = ids' x \<and> stamp x = stamp' x"
  shows "order_ok ids' stamp' blk H uq"
proof (cases "(ids, stamp, blk, H, uq)" rule: order_ok.cases)
  case (1 ids'' stamp'' blk'' H' c b)
  have "stamp (snd x) = stamp' (snd x)" if "x \<in> H \<union> set b" for x
    using that eq [of "snd x"] 1 by (auto simp: waiters_def)
  with 1 assms(1) show ?thesis by simp
next
  case (3 ids'' stamp'' blk'' H' t b)
  then have "t \<in> snd ` H" using assms(2) by simp
  with 3 assms(1) eq show ?thesis by auto
next
  case (4 ids'' stamp'' blk'' H' m b)
  have "ids (snd x) = ids' (snd x)" if "x \<in> H" for x using that eq [of "snd x"] by simp
  with 4 assms(1) show ?thesis by simp
qed simp

lemma queue_ok_cong:
  assumes ok: "queue_ok ids stamp blk U uq"
    and eq: "\<And>x. x \<in> snd ` U \<Longrightarrow> ids x = ids' x \<and> stamp x = stamp' x"
  shows "queue_ok ids' stamp' blk U uq"
proof -
  let ?H = "holders U uq"
  from ok have sub: "set (blocked_usages uq) \<subseteq> U" by (simp add: queue_ok_def)
  have H: "snd ` ?H \<union> waiters uq \<subseteq> snd ` U" using sub by (auto simp: holders_def waiters_def)
  have eqH: "ids x = ids' x \<and> stamp x = stamp' x" if "x \<in> snd ` ?H \<union> waiters uq" for x
    using that H eq by blast
  have key: "uq_key ids stamp uq x = uq_key ids' stamp' uq x" if "x \<in> waiters uq" for x
    using eqH [of x] that by (cases uq) simp_all
  have ck: "cur_ok ids ?H uq" "order_ok ids stamp blk ?H uq" using ok by (simp_all add: queue_ok_def)
  have "cur_ok ids' ?H uq"
    by (rule cur_ok_cong [OF ck(1)]) (use eqH in blast)
  moreover have "order_ok ids' stamp' blk ?H uq"
    by (rule order_ok_cong [OF ck(2,1)]) (use eqH in blast)
  moreover have "keyed ids' uq"
  proof (cases uq)
    case (Priority c b)
    have "ids (snd (snd p)) = ids' (snd (snd p))" if "p \<in> set b" for p
      using that eq [of "snd (snd p)"] sub Priority by auto
    with ok Priority show ?thesis by (simp add: queue_ok_def)
  qed simp
  moreover have "sorted_wrt (\<lambda>a b. uq_key ids' stamp' uq (snd a) < uq_key ids' stamp' uq (snd b))
      (blocked_usages uq)"
    using ok unfolding queue_ok_def
    by (elim conjE sorted_wrt_mono_rel [rotated]) (auto simp: key waiters_def)
  ultimately show ?thesis using ok by (simp add: queue_ok_def)
qed

section \<open>Changes of the blocked usage counts\<close>

definition bump_counts :: "task_ref set \<Rightarrow> 'tx task_heap \<Rightarrow> 'tx task_heap" where
  "bump_counts R h = (\<lambda>x. if x \<in> R
     then (h x)\<lparr>blocked_usage_count := blocked_usage_count (h x) + 1\<rparr> else h x)"

definition drop_counts :: "task_ref set \<Rightarrow> 'tx task_heap \<Rightarrow> 'tx task_heap" where
  "drop_counts R h = (\<lambda>x. if x \<in> R
     then (h x)\<lparr>blocked_usage_count := blocked_usage_count (h x) - 1\<rparr> else h x)"

lemma bump_counts_empty [simp]: "bump_counts {} h = h"
  by (simp add: bump_counts_def)

lemma drop_counts_empty [simp]: "drop_counts {} h = h"
  by (simp add: drop_counts_def)

lemma heap_ids [simp]:
  "task_id (bump_counts R h x) = task_id (h x)"
  "task_id (drop_counts R h x) = task_id (h x)"
  "task_id (set_blocked_usage_count t c h x) = task_id (h x)"
  "lock_contexts (bump_counts R h x) = lock_contexts (h x)"
  "lock_contexts (drop_counts R h x) = lock_contexts (h x)"
  "lock_contexts (set_blocked_usage_count t c h x) = lock_contexts (h x)"
  by (simp_all add: bump_counts_def drop_counts_def set_blocked_usage_count_def)

lemma heap_counts:
  "blocked_usage_count (bump_counts R h x) =
     (if x \<in> R then blocked_usage_count (h x) + 1 else blocked_usage_count (h x))"
  "blocked_usage_count (drop_counts R h x) =
     (if x \<in> R then blocked_usage_count (h x) - 1 else blocked_usage_count (h x))"
  "blocked_usage_count (set_blocked_usage_count t c h x) =
     (if x = t then c else blocked_usage_count (h x))"
  by (simp_all add: bump_counts_def drop_counts_def set_blocked_usage_count_def)

lemma bump_counts_insert:
  "t \<notin> R \<Longrightarrow> bump_counts (insert t R) h =
     bump_counts R (set_blocked_usage_count t (blocked_usage_count (h t) + 1) h)"
  by (auto simp: bump_counts_def set_blocked_usage_count_def fun_eq_iff)

lemma drop_counts_insert:
  "t \<notin> R \<Longrightarrow> drop_counts (insert t R) h =
     drop_counts R (set_blocked_usage_count t (blocked_usage_count (h t) - 1) h)"
  by (auto simp: drop_counts_def set_blocked_usage_count_def fun_eq_iff)

lemma try_reblock_cases:
  assumes "unat (blocked_usage_count (h t)) + 1 < 2 ^ 32"
  shows "try_reblock t h =
    Some (if blocked_usage_count (h t) = 0 then (False, h) else (True, bump_counts {t} h))"
  using assms
  by (simp add: try_reblock_def sc_is_zero_def sc_increment_Some bump_counts_insert)

lemma try_unblock_pos:
  "blocked_usage_count (h t) \<noteq> 0 \<Longrightarrow>
     try_unblock t h = Some (if blocked_usage_count (h t) = 1 then Some t else None, drop_counts {t} h)"
  by (simp add: try_unblock_def sc_decrement_Some sc_is_zero_def drop_counts_insert)

section \<open>Locking a usage in a queue\<close>

fun same_blocked :: "usage_queue_inner \<Rightarrow> usage_queue_inner \<Rightarrow> bool" where
  "same_blocked (Fifo _ b) (Fifo _ b') \<longleftrightarrow> b = b'"
| "same_blocked (Priority _ b) (Priority _ b') \<longleftrightarrow> b = b'"
| "same_blocked _ _ \<longleftrightarrow> False"

lemma same_blockedD:
  assumes "same_blocked uq uq'"
  shows "blocked_usages uq' = blocked_usages uq" and "is_fifo uq' = is_fifo uq"
    and "keyed ids uq' = keyed ids uq" and "uq_key ids stamp uq' = uq_key ids stamp uq"
  using assms by (induction uq uq' rule: same_blocked.induct) auto

abbreviation heap_id :: "'tx task_heap \<Rightarrow> task_ref \<Rightarrow> ordered_task_id" where
  "heap_id h \<equiv> \<lambda>x. task_id (h x)"

text \<open>A usage is granted exactly when it is compatible with the current holders.\<close>

definition compatible :: "requested_usage \<Rightarrow> usage_from_task set \<Rightarrow> bool" where
  "compatible r H \<longleftrightarrow> H = {} \<or> (r = Req_Readonly \<and> fst ` H \<subseteq> {Req_Readonly})"

lemma try_lock_grants:
  assumes cur: "cur_ok (heap_id h) H uq" and fin: "finite H" and comp: "compatible r H"
    and new: "t \<notin> snd ` H" and small: "card H + 1 < 2 ^ 32"
    and fresh: "is_fifo uq \<or> task_id (h t) \<notin> heap_id h ` snd ` H"
  shows "\<exists>uq'. try_lock h t r uq = Some (LockOk, uq') \<and>
    cur_ok (heap_id h) (insert (r, t) H) uq' \<and> same_blocked uq uq'"
proof (cases "(heap_id h, H, uq)" rule: cur_ok.cases)
  case (1 ids H' b)
  with cur show ?thesis by (cases r) (auto simp: sc_one_def)
next
  case (2 ids H' n b)
  have r: "r = Req_Readonly" using comp cur 2 by (auto simp: compatible_def)
  have "(r, t) \<notin> H" using new by force
  moreover have n: "unat n + 1 < 2 ^ 32" using cur 2 small by simp
  ultimately show ?thesis
    using 2 cur fin r by (simp add: sc_increment_Some unat_inc32 [OF n, simplified])
next
  case (3 ids H' u b)
  with cur comp show ?thesis by (auto simp: compatible_def)
next
  case (4 ids H' b)
  with cur show ?thesis by (cases r) auto
next
  case (5 ids H' m b)
  have r: "r = Req_Readonly" using comp cur 5 by (auto simp: compatible_def)
  from 5 cur have m: "m \<noteq> []" "btm_ok m" "\<forall>p \<in> set m. fst p = heap_id h (snd p)"
    "H = (\<lambda>p. (Req_Readonly, snd p)) ` set m" by auto
  have "snd ` H = snd ` set m" using m(4) by (force simp: image_image)
  with fresh 5 m(3) have k: "task_id (h t) \<notin> fst ` set m" by (auto simp: image_iff)
  have "btm_put (task_id (h t)) t m \<noteq> []" by (cases m) auto
  with 5 r m k show ?thesis
    by (auto simp: btm_insert_new_fresh set_btm_put btm_ok_put)
next
  case (6 ids H' u b)
  with cur comp show ?thesis by (auto simp: compatible_def)
qed

lemma try_lock_refuses:
  assumes cur: "cur_ok (heap_id h) H uq" and comp: "\<not> compatible r H"
  shows "try_lock h t r uq = Some (LockErr, uq)"
proof (cases "(heap_id h, H, uq)" rule: cur_ok.cases)
  case (1 ids H' b)
  with assms show ?thesis by (auto simp: compatible_def)
next
  case (2 ids H' n b)
  with assms show ?thesis by (cases r) (auto simp: compatible_def)
next
  case (3 ids H' u b)
  with assms show ?thesis by auto
next
  case (4 ids H' b)
  with assms show ?thesis by (auto simp: compatible_def)
next
  case (5 ids H' m b)
  with assms show ?thesis by (cases r) (auto simp: compatible_def)
next
  case (6 ids H' u b)
  with assms show ?thesis by auto
qed

lemma cur_ok_current:
  "cur_ok ids H uq \<Longrightarrow>
     uq_current_usage uq = None \<longleftrightarrow> H = {}"
  by (cases "(ids, H, uq)" rule: cur_ok.cases) auto

lemma keyed_sorted_iff:
  "\<forall>p \<in> set b. fst p = ids (snd (snd p)) \<Longrightarrow>
     sorted_wrt (\<lambda>x y. unat (ids (snd x)) < unat (ids (snd y))) (map snd b) \<longleftrightarrow> btm_ok b"
  by (induction b) (auto simp: btm_ok_Cons word_less_nat_alt)

lemma queue_ok_Priority:
  "queue_ok ids stamp blk U (Priority cur b) \<longleftrightarrow>
     finite U \<and> inj_on snd U \<and> snd ` set b \<subseteq> U \<and> (\<forall>p \<in> set b. fst p = ids (snd (snd p))) \<and>
     btm_ok b \<and> cur_ok ids (U - snd ` set b) (Priority cur b) \<and>
     order_ok ids stamp blk (U - snd ` set b) (Priority cur b) \<and> (U - snd ` set b = {} \<longrightarrow> b = [])"
  using keyed_sorted_iff [of b ids] by (auto simp: queue_ok_def holders_def)

lemma cur_ok_Priority_blocked:
  "cur_ok ids H (Priority cur b) = cur_ok ids H (Priority cur b')"
  by (cases "(ids, H, Priority cur b)" rule: cur_ok.cases) auto

lemma sorted_wrt_distinct_snd:
  "sorted_wrt (\<lambda>a b. (f (snd a) :: nat) < f (snd b)) xs \<Longrightarrow> distinct (map snd xs)"
  by (induction xs) auto

end
