(* ===== verification/Usage_Queue_Lock.thy ===== *)
theory Usage_Queue_Lock
  imports Usage_Queue_Inv
begin

text \<open>
  Scheduling one lock context: the closure \<^const>\<open>lock_usage_queue\<close> (\<open>prepare_lock\<close>, then
  \<open>try_lock\<close>, then \<open>push_blocked\<close> on failure) never panics on a queue that satisfies the
  invariant, and re-establishes it with the new usage registered. The priority queue is treated
  by the four cases of \<open>prepare_lock\<close>.
\<close>

section \<open>FIFO queues\<close>

lemma inj_on_snd_insert: "inj_on snd U \<Longrightarrow> t \<notin> snd ` U \<Longrightarrow> inj_on snd (insert (r, t) U)"
  by (auto simp: inj_on_insert)

lemma queue_ok_Fifo:
  "queue_ok ids stamp blk U (Fifo cur b) \<longleftrightarrow>
     finite U \<and> inj_on snd U \<and> set b \<subseteq> U \<and> sorted_wrt (\<lambda>x y. stamp (snd x) < stamp (snd y)) b \<and>
     cur_ok ids (U - set b) (Fifo cur b) \<and> (\<forall>x \<in> U - set b. \<forall>w \<in> set b. stamp (snd x) < stamp (snd w)) \<and>
     (U - set b = {} \<longrightarrow> b = [])"
  by (simp add: queue_ok_def holders_def)

lemma lock_usage_queue_fifo:
  assumes ok: "queue_ok (heap_id h) stamp blk U (Fifo cur b)" and new: "t \<notin> snd ` U"
    and late: "\<forall>u \<in> U. stamp (snd u) < stamp t"
    and small: "card U + 1 < 2 ^ 32" "unat cnt + 1 < 2 ^ 32"
  shows "\<exists>uq cnt'. lock_usage_queue t r cnt (Fifo cur b) h = Some (cnt', uq, h) \<and> is_fifo uq \<and>
    queue_ok (heap_id h) stamp blk (insert (r, t) U) uq \<and>
    (cnt' = cnt \<and> waiters uq = waiters (Fifo cur b) \<or>
     cnt' = cnt + 1 \<and> waiters uq = insert t (waiters (Fifo cur b)))"
proof -
  let ?H = "U - set b"
  from ok have fin: "finite U" and inj: "inj_on snd U" and sub: "set b \<subseteq> U"
    and srt: "sorted_wrt (\<lambda>x y. stamp (snd x) < stamp (snd y)) b"
    and cur: "cur_ok (heap_id h) ?H (Fifo cur b)"
    and ord: "\<forall>x \<in> ?H. \<forall>w \<in> set b. stamp (snd x) < stamp (snd w)"
    and emp: "?H = {} \<longrightarrow> b = []"
    by (auto simp: queue_ok_Fifo)
  have nin: "(r, t) \<notin> U" using new by force
  have inj': "inj_on snd (insert (r, t) U)" using inj new by (rule inj_on_snd_insert)
  show ?thesis
  proof (cases "b = [] \<and> compatible r U")
    case True
    have "t \<notin> snd ` U" "card U + 1 < 2 ^ 32" using new small by auto
    with True cur fin obtain uq where uq: "try_lock h t r (Fifo cur b) = Some (LockOk, uq)"
      "cur_ok (heap_id h) (insert (r, t) U) uq" "same_blocked (Fifo cur b) uq"
      using try_lock_grants [of h U "Fifo cur b" r t] by auto
    then obtain cur' where "uq = Fifo cur' []" using True by (cases uq) auto
    then have "queue_ok (heap_id h) stamp blk (insert (r, t) U) uq" and "is_fifo uq"
      and "waiters uq = waiters (Fifo cur b)"
      using uq(2) True fin inj' by (simp_all add: queue_ok_Fifo waiters_def)
    moreover have "lock_usage_queue t r cnt (Fifo cur b) h = Some (cnt, uq, h)"
      using uq(1) True by (simp add: lock_usage_queue_def)
    ultimately show ?thesis by blast
  next
    case False
    have ne: "?H \<noteq> {}" using False emp by (auto simp: compatible_def)
    then have cu: "uq_current_usage (Fifo cur b) \<noteq> None" using cur_ok_current [OF cur] by blast
    have "(case (if b = [] then LockOk else LockErr) of
            LockOk \<Rightarrow> try_lock h t r (Fifo cur b) | LockErr \<Rightarrow> Some (LockErr, Fifo cur b))
          = Some (LockErr, Fifo cur b)"
      using False cur try_lock_refuses [of h U "Fifo cur b" r t] by auto
    then have run: "lock_usage_queue t r cnt (Fifo cur b) h = Some (cnt + 1, Fifo cur (b @ [(r, t)]), h)"
      using cu small(2) by (simp add: lock_usage_queue_def push_blocked_def sc_increment_Some)
    have H': "insert (r, t) U - set (b @ [(r, t)]) = ?H" using nin by auto
    have "cur_ok (heap_id h) ?H (Fifo cur (b @ [(r, t)]))"
      using cur by (cases "(heap_id h, ?H, Fifo cur b)" rule: cur_ok.cases) auto
    moreover have "\<forall>w \<in> set b. stamp (snd w) < stamp t" using late sub by auto
    moreover have "\<forall>x \<in> ?H. \<forall>w \<in> set (b @ [(r, t)]). stamp (snd x) < stamp (snd w)"
      using ord late by simp
    ultimately have "queue_ok (heap_id h) stamp blk (insert (r, t) U) (Fifo cur (b @ [(r, t)]))"
      unfolding queue_ok_Fifo H' using fin inj' sub srt ne
      by (simp add: sorted_wrt_append subset_insertI2)
    moreover have "waiters (Fifo cur (b @ [(r, t)])) = insert t (waiters (Fifo cur b))"
      by (simp add: waiters_def)
    ultimately show ?thesis using run by (intro exI [of _ "Fifo cur (b @ [(r, t)])"] exI [of _ "cnt + 1"]) simp
  qed
qed

section \<open>Priority queues\<close>

lemma hd_btm_put:
  "k \<notin> fst ` set m \<Longrightarrow> hd (btm_put k v m) = (if m = [] \<or> k < fst (hd m) then (k, v) else hd m)"
  by (cases m) auto

lemma btm_put_neq_Nil [simp]: "btm_put k v m \<noteq> []"
  by (cases m) auto

lemma btm_hd_le: "btm_ok m \<Longrightarrow> p \<in> set m \<Longrightarrow> fst (hd m) \<le> fst p"
  by (cases m) (auto simp: btm_ok_Cons dest: less_imp_le)

lemma cur_ok_Writable_mem:
  assumes "cur_ok ids H (Priority cur b)" and "(Req_Writable, t) \<in> H"
  shows "cur = Some (Writable t)"
proof (cases cur)
  case (Some u)
  with assms show ?thesis by (cases u) auto
qed (use assms in simp)

lemma cur_ok_Readonly_mem:
  assumes "cur_ok ids H (Priority cur b)" and "(Req_Readonly, t) \<in> H"
  obtains m where "cur = Some (Readonly m)"
proof (cases cur)
  case (Some u)
  with assms that show thesis by (cases u) auto
qed (use assms in simp)

lemma priority_grant:
  assumes fin: "finite U" and inj: "inj_on snd U" and sub: "snd ` set b \<subseteq> U"
    and key: "\<forall>p \<in> set b. fst p = task_id (h (snd (snd p)))" and bok: "btm_ok b"
    and H: "H = U - snd ` set b" and cur: "cur_ok (heap_id h) H (Priority cur b)"
    and comp: "compatible r H" and new: "t \<notin> snd ` U" and small: "card U + 1 < 2 ^ 32"
    and fresh: "task_id (h t) \<notin> heap_id h ` snd ` U"
    and ow: "r = Req_Writable \<Longrightarrow> \<forall>w \<in> set b. task_id (h t) < fst w"
    and orr: "r = Req_Readonly \<Longrightarrow> (b \<noteq> [] \<longrightarrow> fst (snd (hd b)) = Req_Writable) \<and>
      (\<forall>x \<in> insert (r, t) H. blk (snd x) \<longrightarrow>
         (\<forall>w \<in> set b. fst (snd w) = Req_Writable \<longrightarrow> task_id (h (snd x)) < fst w))"
  shows "\<exists>cur'. try_lock h t r (Priority cur b) = Some (LockOk, Priority cur' b) \<and>
    queue_ok (heap_id h) stamp blk (insert (r, t) U) (Priority cur' b)"
proof -
  have "card H \<le> card U" using fin H by (simp add: card_mono)
  moreover have "t \<notin> snd ` H" "task_id (h t) \<notin> heap_id h ` snd ` H"
    using new fresh H by auto
  ultimately obtain uq where uq: "try_lock h t r (Priority cur b) = Some (LockOk, uq)"
    "cur_ok (heap_id h) (insert (r, t) H) uq" "same_blocked (Priority cur b) uq"
    using try_lock_grants [OF cur _ comp, of t] fin H small by auto
  then obtain cur' where cur': "uq = Priority cur' b" by (cases uq) auto
  have nin: "(r, t) \<notin> U" using new by force
  with sub have "(r, t) \<notin> snd ` set b" by (rule contra_subsetD)
  then have H': "insert (r, t) U - snd ` set b = insert (r, t) H"
    unfolding H by (simp only: insert_Diff_if if_False)
  have "order_ok (heap_id h) stamp blk (insert (r, t) H) (Priority cur' b)"
  proof (cases r)
    case Req_Readonly
    with uq(2) cur' obtain m where "cur' = Some (Readonly m)"
      using cur_ok_Readonly_mem by blast
    with orr [OF Req_Readonly] show ?thesis by simp
  next
    case Req_Writable
    with uq(2) cur' have "cur' = Some (Writable t)"
      using cur_ok_Writable_mem by blast
    with ow [OF Req_Writable] show ?thesis by simp
  qed
  moreover have "inj_on snd (insert (r, t) U)" using inj new by (rule inj_on_snd_insert)
  moreover have "snd ` set b \<subseteq> insert (r, t) U" using sub by blast
  ultimately have "queue_ok (heap_id h) stamp blk (insert (r, t) U) (Priority cur' b)"
    unfolding queue_ok_Priority H' using fin key bok uq(2) cur' by blast
  with uq(1) cur' show ?thesis by blast
qed

lemma priority_block:
  assumes fin: "finite U" and inj: "inj_on snd U" and sub: "snd ` set b \<subseteq> U"
    and key: "\<forall>p \<in> set b. fst p = task_id (h (snd (snd p)))" and bok: "btm_ok b"
    and H: "H = U - snd ` set b" and cur: "cur_ok (heap_id h) H (Priority cur b)" and ne: "H \<noteq> {}"
    and new: "t \<notin> snd ` U" and fresh: "task_id (h t) \<notin> heap_id h ` snd ` U"
    and ord: "order_ok (heap_id h) stamp blk H (Priority cur (btm_put (task_id (h t)) (r, t) b))"
  shows "push_blocked h (r, t) (Priority cur b)
      = Some (Priority cur (btm_put (task_id (h t)) (r, t) b))"
    and "queue_ok (heap_id h) stamp blk (insert (r, t) U)
      (Priority cur (btm_put (task_id (h t)) (r, t) b))"
proof -
  have k: "task_id (h t) \<notin> fst ` set b"
  proof
    assume "task_id (h t) \<in> fst ` set b"
    then obtain p where "p \<in> set b" "fst p = task_id (h t)" by auto
    with key sub have "task_id (h t) = task_id (h (snd (snd p)))" "snd p \<in> U" by auto
    with fresh show False by blast
  qed
  have "uq_current_usage (Priority cur b) \<noteq> None"
    using cur_ok_current [OF cur] ne by blast
  then show "push_blocked h (r, t) (Priority cur b)
      = Some (Priority cur (btm_put (task_id (h t)) (r, t) b))"
    using k by (simp add: push_blocked_def insert_usage_from_task_def btm_insert_new_fresh)
  have nin: "(r, t) \<notin> U" using new by force
  have H': "insert (r, t) U - snd ` set (btm_put (task_id (h t)) (r, t) b) = H"
    using nin H by (auto simp: set_btm_put [OF k])
  have "cur_ok (heap_id h) H (Priority cur (btm_put (task_id (h t)) (r, t) b))"
    using cur cur_ok_Priority_blocked by blast
  moreover have "inj_on snd (insert (r, t) U)" using inj new by (rule inj_on_snd_insert)
  ultimately show "queue_ok (heap_id h) stamp blk (insert (r, t) U)
      (Priority cur (btm_put (task_id (h t)) (r, t) b))"
    unfolding queue_ok_Priority H' using fin sub key bok ne ord
    by (simp add: set_btm_put [OF k] btm_ok_put subset_insertI2)
qed

lemma collect_reblocked_eq:
  assumes "distinct (map snd ts)"
    and "\<forall>p \<in> set ts. unat (blocked_usage_count (h (snd p))) + 1 < 2 ^ 32"
  shows "collect_reblocked ts h =
    Some (map fst (filter (\<lambda>p. blocked_usage_count (h (snd p)) \<noteq> 0) ts),
          bump_counts (snd ` {p \<in> set ts. blocked_usage_count (h (snd p)) \<noteq> 0}) h)"
  using assms
proof (induction ts arbitrary: h)
  case Nil
  then show ?case by simp
next
  case (Cons p ts)
  obtain i t where p: "p = (i, t)" by (cases p)
  let ?h = "if blocked_usage_count (h t) = 0 then h else bump_counts {t} h"
  have same: "blocked_usage_count (?h (snd p')) = blocked_usage_count (h (snd p'))" if "p' \<in> set ts" for p'
  proof -
    have "snd p' \<noteq> t" using Cons.prems(1) p that by force
    then show ?thesis by (simp add: heap_counts)
  qed
  have "collect_reblocked ts ?h =
    Some (map fst (filter (\<lambda>p. blocked_usage_count (h (snd p)) \<noteq> 0) ts),
          bump_counts (snd ` {p \<in> set ts. blocked_usage_count (h (snd p)) \<noteq> 0}) ?h)"
    using Cons.IH [of ?h] Cons.prems same by (auto cong: filter_cong conj_cong)
  moreover have "t \<notin> snd ` {p \<in> set ts. blocked_usage_count (h (snd p)) \<noteq> 0}"
    using Cons.prems(1) p by force
  moreover have "snd ` {p' \<in> set (p # ts). blocked_usage_count (h (snd p')) \<noteq> 0} =
    (if blocked_usage_count (h t) = 0 then {} else {t}) \<union>
      snd ` {p \<in> set ts. blocked_usage_count (h (snd p)) \<noteq> 0}"
    using p by (force simp: image_iff)
  ultimately show ?case
    using Cons.prems p by (cases "blocked_usage_count (h t) = 0")
      (simp_all add: try_reblock_cases bump_counts_insert)
qed

lemma move_reblocked_eq:
  assumes "btm_ok m" and "btm_ok b" and "\<forall>p \<in> set m. fst p = task_id (h (snd p))"
    and "distinct is" and "set is \<subseteq> fst ` set m" and "fst ` set m \<inter> fst ` set b = {}"
  shows "\<exists>b'. move_reblocked h is m b = Some (filter (\<lambda>p. fst p \<notin> set is) m, b') \<and> btm_ok b' \<and>
    set b' = set b \<union> (\<lambda>p. (fst p, (Req_Readonly, snd p))) ` {p \<in> set m. fst p \<in> set is}"
  using assms
proof (induction "is" arbitrary: m b)
  case Nil
  then show ?case by simp
next
  case (Cons i "is")
  from Cons.prems(5) obtain t where it: "(i, t) \<in> set m" by auto
  then have get: "btm_get i m = Some t" using Cons.prems(1) by (simp add: btm_get_Some_iff)
  have i: "task_id (h t) = i" using it Cons.prems(3) by force
  have fr: "i \<notin> fst ` set b" using it Cons.prems(6) by force
  let ?m = "btm_del i m" and ?b = "btm_put i (Req_Readonly, t) b"
  have ins: "insert_usage_from_task h (Req_Readonly, t) b = Some ?b"
    using i fr by (simp add: insert_usage_from_task_def btm_insert_new_fresh)
  have pre: "btm_ok ?m" "btm_ok ?b" "\<forall>p \<in> set ?m. fst p = task_id (h (snd p))" "distinct is"
    "set is \<subseteq> fst ` set ?m" "fst ` set ?m \<inter> fst ` set ?b = {}"
  proof -
    have fm: "fst ` set ?m = fst ` set m - {i}" by (auto simp: set_btm_del)
    show "set is \<subseteq> fst ` set ?m" "fst ` set ?m \<inter> fst ` set ?b = {}"
      unfolding fm using Cons.prems(4,5,6) by auto
  qed (use Cons.prems in \<open>auto simp: set_btm_del\<close>)
  obtain b' where b': "move_reblocked h is ?m ?b = Some (filter (\<lambda>p. fst p \<notin> set is) ?m, b')"
    "btm_ok b'" "set b' = set ?b \<union> (\<lambda>p. (fst p, (Req_Readonly, snd p))) ` {p \<in> set ?m. fst p \<in> set is}"
    using Cons.IH [OF pre] by auto
  have "filter (\<lambda>p. fst p \<notin> set is) ?m = filter (\<lambda>p. fst p \<notin> set (i # is)) m"
    by (auto simp: btm_del_def intro: filter_cong)
  moreover have "set b' = set b \<union> (\<lambda>p. (fst p, (Req_Readonly, snd p))) ` {p \<in> set m. fst p \<in> set (i # is)}"
  proof -
    have "{p \<in> set m. fst p = i} = {(i, t)}"
      using it Cons.prems(1) by (auto dest: btm_ok_inj)
    then have "{p \<in> set m. fst p \<in> set (i # is)} = insert (i, t) {p \<in> set ?m. fst p \<in> set is}"
      using Cons.prems(4) by (auto simp: set_btm_del)
    with b'(3) fr show ?thesis by (simp add: set_btm_put)
  qed
  ultimately show ?case using get ins b' by auto
qed

text \<open>What one run of the locking closure achieves: it does not panic, the queue invariant
  holds with the new usage registered, the set \<open>R\<close> of holders that were reblocked had a
  non-zero count (so none of them could be running) and now waits, and the local counter
  counts the new task's own waiting.\<close>

definition lock_post ::
  "task_ref \<Rightarrow> requested_usage \<Rightarrow> short_counter \<Rightarrow> usage_queue_inner \<Rightarrow> 'tx task_heap \<Rightarrow> (task_ref \<Rightarrow> nat)
     \<Rightarrow> (task_ref \<Rightarrow> bool) \<Rightarrow> usage_from_task set \<Rightarrow> bool" where
  "lock_post t r cnt uq h stamp blk U \<longleftrightarrow>
     (\<exists>uq' cnt' R. lock_usage_queue t r cnt uq h = Some (cnt', uq', bump_counts R h) \<and>
        is_fifo uq' = is_fifo uq \<and> queue_ok (heap_id h) stamp blk (insert (r, t) U) uq' \<and>
        R \<subseteq> snd ` holders U uq \<and> (\<forall>x \<in> R. blocked_usage_count (h x) \<noteq> 0) \<and>
        (cnt' = cnt \<and> waiters uq' = waiters uq \<union> R \<or>
         cnt' = cnt + 1 \<and> waiters uq' = insert t (waiters uq \<union> R)))"

lemma lock_post_granted:
  assumes "prepare_lock t r uq h = Some (LockOk, uqa, bump_counts R h)"
    and "try_lock (bump_counts R h) t r uqa = Some (LockOk, uqb)"
    and "is_fifo uqb = is_fifo uq" and "queue_ok (heap_id h) stamp blk (insert (r, t) U) uqb"
    and "R \<subseteq> snd ` holders U uq" and "\<forall>x \<in> R. blocked_usage_count (h x) \<noteq> 0"
    and "waiters uqb = waiters uq \<union> R"
  shows "lock_post t r cnt uq h stamp blk U"
  unfolding lock_post_def
  by (rule exI [of _ uqb], rule exI [of _ cnt], rule exI [of _ R])
    (use assms in \<open>simp add: lock_usage_queue_def\<close>)

lemma lock_post_blocked:
  assumes "prepare_lock t r uq h = Some (LockErr, uqa, bump_counts R h)"
    and "push_blocked (bump_counts R h) (r, t) uqa = Some uqb" and "unat cnt + 1 < 2 ^ 32"
    and "is_fifo uqb = is_fifo uq" and "queue_ok (heap_id h) stamp blk (insert (r, t) U) uqb"
    and "R \<subseteq> snd ` holders U uq" and "\<forall>x \<in> R. blocked_usage_count (h x) \<noteq> 0"
    and "waiters uqb = insert t (waiters uq \<union> R)"
  shows "lock_post t r cnt uq h stamp blk U"
  unfolding lock_post_def
  by (rule exI [of _ uqb], rule exI [of _ "cnt + 1"], rule exI [of _ R])
    (use assms in \<open>simp add: lock_usage_queue_def sc_increment_Some\<close>)

lemma waiters_Priority: "waiters (Priority cur b) = snd ` snd ` set b"
  by (simp add: waiters_def)

lemma lock_priority_none:
  assumes ok: "queue_ok (heap_id h) stamp blk U (Priority None b)"
  shows "lock_post t r cnt (Priority None b) h stamp blk U"
proof -
  from ok have [simp]: "b = []" and U: "U = {}" by (auto simp: queue_ok_Priority)
  have "queue_ok (heap_id h) stamp blk {(r, t)} (Priority (Some (priority_usage_from h t r)) [])"
    by (cases r) (simp_all add: queue_ok_Priority)
  then show ?thesis
    by (intro lock_post_granted [where R = "{}" and uqa = "Priority None []"
          and uqb = "Priority (Some (priority_usage_from h t r)) []"])
      (simp_all add: U waiters_def)
qed

lemma lock_priority_writable:
  assumes ok: "queue_ok (heap_id h) stamp blk U (Priority (Some (Writable c)) b)"
    and new: "t \<notin> snd ` U" and fresh: "task_id (h t) \<notin> heap_id h ` snd ` U"
    and inj: "inj_on (heap_id h) (snd ` U)"
    and blk: "\<forall>x \<in> snd ` U. blk x \<longleftrightarrow> blocked_usage_count (h x) \<noteq> 0"
    and small: "card U + 1 < 2 ^ 32" "unat cnt + 1 < 2 ^ 32"
      "\<forall>x \<in> snd ` U. unat (blocked_usage_count (h x)) + 1 < 2 ^ 32"
  shows "lock_post t r cnt (Priority (Some (Writable c)) b) h stamp blk U"
proof -
  let ?uq = "Priority (Some (Writable c)) b"
  from ok have fin: "finite U" and injU: "inj_on snd U" and sub: "snd ` set b \<subseteq> U"
    and key: "\<forall>p \<in> set b. fst p = task_id (h (snd (snd p)))" and bok: "btm_ok b"
    and H: "U - snd ` set b = {(Req_Writable, c)}"
    and ord: "blk c \<longrightarrow> (\<forall>w \<in> set b. task_id (h c) < fst w)"
    unfolding queue_ok_Priority cur_ok.simps order_ok.simps by blast+
  from H have cU: "(Req_Writable, c) \<in> U" and cb: "(Req_Writable, c) \<notin> snd ` set b" by auto
  then have cS: "c \<in> snd ` U" by force
  then have ct: "task_id (h c) \<noteq> task_id (h t)" using fresh imageI [of c "snd ` U" "heap_id h"] by metis
  have kt: "task_id (h t) \<notin> fst ` set b" using key sub fresh by (force simp: image_iff)
  have kc: "task_id (h c) \<notin> fst ` set b"
  proof
    assume "task_id (h c) \<in> fst ` set b"
    then obtain p where p: "p \<in> set b" "task_id (h c) = task_id (h (snd (snd p)))" using key by auto
    then have "snd (snd p) \<in> snd ` U" using sub by auto
    with inj cS p(2) have "c = snd (snd p)" by (auto dest: inj_onD)
    moreover have "snd p \<in> U" using p(1) sub by auto
    ultimately have "snd p = (Req_Writable, c)"
      using inj_onD [OF injU, of "snd p" "(Req_Writable, c)"] cU by simp
    with p(1) cb show False by force
  qed
  have re: "try_reblock c h =
      Some (if blocked_usage_count (h c) = 0 then (False, h) else (True, bump_counts {c} h))"
    using small(3) cS by (intro try_reblock_cases) auto
  show ?thesis
  proof (cases "task_id (h t) < task_id (h c) \<and> blocked_usage_count (h c) \<noteq> 0")
    case True
    let ?h = "bump_counts {c} h"
    let ?b = "btm_put (task_id (h c)) (Req_Writable, c) b"
    have blkc: "blk c" using True blk cS by blast
    have sb: "set ?b = insert (task_id (h c), (Req_Writable, c)) (set b)" by (rule set_btm_put [OF kc])
    have min: "\<forall>w \<in> set ?b. task_id (h c) \<le> fst w" using ord blkc by (auto simp: sb)
    then have lt: "\<forall>w \<in> set ?b. task_id (h t) < fst w" using True by (auto intro: less_le_trans)
    have hdb: "hd ?b = (task_id (h c), (Req_Writable, c))"
      using ord blkc by (cases "b = []") (auto simp: hd_btm_put [OF kc])
    have "\<exists>cur'. try_lock ?h t r (Priority None ?b) = Some (LockOk, Priority cur' ?b) \<and>
        queue_ok (heap_id ?h) stamp blk (insert (r, t) U) (Priority cur' ?b)"
    proof (rule priority_grant [OF fin injU])
      show "{} = U - snd ` set ?b" using H by (auto simp: sb)
      show "snd ` set ?b \<subseteq> U" using sub cU by (simp add: sb)
      show "\<forall>p \<in> set ?b. fst p = task_id (?h (snd (snd p)))" using key by (simp add: sb)
    qed (use bok new small fresh lt hdb in \<open>auto simp: compatible_def\<close>)
    then obtain cur' where cur': "try_lock ?h t r (Priority None ?b) = Some (LockOk, Priority cur' ?b)"
      "queue_ok (heap_id h) stamp blk (insert (r, t) U) (Priority cur' ?b)" by auto
    show ?thesis
    proof (rule lock_post_granted [where R = "{c}" and uqb = "Priority cur' ?b"])
      show "prepare_lock t r ?uq h = Some (LockOk, Priority None ?b, ?h)"
        using True re kc
        by (simp add: is_higher_priority_def insert_usage_from_task_def btm_insert_new_fresh)
    qed (use cur' H True in \<open>simp_all add: waiters_Priority set_btm_put [OF kc] holders_def\<close>)
  next
    case False
    let ?b = "btm_put (task_id (h t)) (r, t) b"
    have sb: "set ?b = insert (task_id (h t), (r, t)) (set b)" by (rule set_btm_put [OF kt])
    have "order_ok (heap_id h) stamp blk {(Req_Writable, c)} (Priority (Some (Writable c)) ?b)"
      using False ord blk cS ct by (auto simp: sb)
    then have push: "push_blocked h (r, t) ?uq = Some (Priority (Some (Writable c)) ?b)"
      and ok': "queue_ok (heap_id h) stamp blk (insert (r, t) U) (Priority (Some (Writable c)) ?b)"
      using priority_block [OF fin injU sub key bok H [symmetric], of "Some (Writable c)" t stamp blk r]
        new fresh by simp_all
    show ?thesis
    proof (rule lock_post_blocked [where R = "{}" and uqb = "Priority (Some (Writable c)) ?b"])
      show "prepare_lock t r ?uq h = Some (LockErr, ?uq, bump_counts {} h)"
        using False re ct by (auto simp: is_higher_priority_def)
    qed (use push ok' small in \<open>simp_all add: waiters_Priority set_btm_put [OF kt]\<close>)
  qed
qed

lemma lock_priority_read_read:
  assumes ok: "queue_ok (heap_id h) stamp blk U (Priority (Some (Readonly m)) b)"
    and new: "t \<notin> snd ` U" and fresh: "task_id (h t) \<notin> heap_id h ` snd ` U"
    and small: "card U + 1 < 2 ^ 32" "unat cnt + 1 < 2 ^ 32"
  shows "lock_post t Req_Readonly cnt (Priority (Some (Readonly m)) b) h stamp blk U"
proof -
  let ?uq = "Priority (Some (Readonly m)) b" and ?H = "U - snd ` set b"
  from ok have fin: "finite U" and injU: "inj_on snd U" and sub: "snd ` set b \<subseteq> U"
    and key: "\<forall>p \<in> set b. fst p = task_id (h (snd (snd p)))" and bok: "btm_ok b"
    and cur: "cur_ok (heap_id h) ?H ?uq"
    and ord: "order_ok (heap_id h) stamp blk ?H ?uq"
    unfolding queue_ok_Priority by blast+
  from cur have ne: "?H \<noteq> {}" and comp: "compatible Req_Readonly ?H"
    by (auto simp: compatible_def)
  from ord have hdw: "b \<noteq> [] \<longrightarrow> fst (snd (hd b)) = Req_Writable"
    and ordr: "\<forall>x \<in> ?H. blk (snd x) \<longrightarrow>
      (\<forall>w \<in> set b. fst (snd w) = Req_Writable \<longrightarrow> task_id (h (snd x)) < fst w)"
    unfolding order_ok.simps by blast+
  have kt: "task_id (h t) \<notin> fst ` set b" using key sub fresh by (force simp: image_iff)
  show ?thesis
  proof (cases "b = [] \<or> task_id (h t) < fst (hd b)")
    case True
    then have lt: "\<forall>w \<in> set b. task_id (h t) < fst w" using bok by (auto dest: btm_hd_le less_le_trans)
    have "\<exists>cur'. try_lock h t Req_Readonly ?uq = Some (LockOk, Priority cur' b) \<and>
        queue_ok (heap_id h) stamp blk (insert (Req_Readonly, t) U) (Priority cur' b)"
      by (rule priority_grant [OF fin injU sub key bok refl cur comp new small(1) fresh])
        (use lt hdw ordr in auto)
    then obtain cur' where cur': "try_lock h t Req_Readonly ?uq = Some (LockOk, Priority cur' b)"
      "queue_ok (heap_id h) stamp blk (insert (Req_Readonly, t) U) (Priority cur' b)" by auto
    show ?thesis
    proof (rule lock_post_granted [where R = "{}" and uqb = "Priority cur' b"])
      show "prepare_lock t Req_Readonly ?uq h = Some (LockOk, ?uq, bump_counts {} h)"
        using True hdw key
        by (cases b) (auto simp: first_usage_from_task_def btm_first_def is_higher_priority_def)
    qed (use cur' in \<open>simp_all add: waiters_def\<close>)
  next
    case False
    let ?b = "btm_put (task_id (h t)) (Req_Readonly, t) b"
    have sb: "set ?b = insert (task_id (h t), (Req_Readonly, t)) (set b)" by (rule set_btm_put [OF kt])
    have "hd ?b = hd b" using False by (simp add: hd_btm_put [OF kt])
    then have "order_ok (heap_id h) stamp blk ?H (Priority (Some (Readonly m)) ?b)"
      using hdw ordr False by (auto simp: sb)
    then have push: "push_blocked h (Req_Readonly, t) ?uq = Some (Priority (Some (Readonly m)) ?b)"
      and ok': "queue_ok (heap_id h) stamp blk (insert (Req_Readonly, t) U) (Priority (Some (Readonly m)) ?b)"
      using priority_block [OF fin injU sub key bok refl cur ne new fresh, of stamp blk Req_Readonly] by auto
    have "hd b \<in> set b" using False by simp
    then have "task_id (h t) \<noteq> fst (hd b)" using kt by auto
    then have less: "fst (hd b) < task_id (h t)" using False by auto
    show ?thesis
    proof (rule lock_post_blocked [where R = "{}" and uqb = "Priority (Some (Readonly m)) ?b"])
      show "prepare_lock t Req_Readonly ?uq h = Some (LockErr, ?uq, bump_counts {} h)"
        using False hdw key less
        by (cases b) (auto simp: first_usage_from_task_def btm_first_def is_higher_priority_def)
    qed (use push ok' small in \<open>simp_all add: waiters_Priority set_btm_put [OF kt]\<close>)
  qed
qed

text \<open>The readers that a new writer reblocks: those of lower priority that still wait somewhere.\<close>

lemma reblock_readers:
  fixes h :: "'tx task_heap"
  assumes m: "btm_ok m" "\<forall>p \<in> set m. fst p = task_id (h (snd p))" and bok: "btm_ok b"
    and dis: "fst ` set m \<inter> fst ` set b = {}"
    and small: "\<forall>p \<in> set m. unat (blocked_usage_count (h (snd p))) + 1 < 2 ^ 32"
    and V: "V = {p \<in> set m. k \<le> fst p \<and> blocked_usage_count (h (snd p)) \<noteq> 0}"
  shows "\<exists>is b'. collect_reblocked (btm_range_from k m) h = Some (is, bump_counts (snd ` V) h) \<and>
    move_reblocked (bump_counts (snd ` V) h) is m b = Some (filter (\<lambda>p. p \<notin> V) m, b') \<and> btm_ok b' \<and>
    set b' = set b \<union> (\<lambda>p. (fst p, (Req_Readonly, snd p))) ` V"
proof -
  let ?range = "btm_range_from k m" and ?h = "bump_counts (snd ` V) h"
  let ?is = "map fst (filter (\<lambda>p. blocked_usage_count (h (snd p)) \<noteq> 0) ?range)"
  have inj: "inj_on fst (set m)" using m(1) by (simp add: btm_ok_distinct distinct_map_fst_inj)
  have dm: "distinct m" using m(1) by (metis btm_ok_distinct distinct_map)
  have "inj_on snd (set m)" using m(2) inj by (metis (mono_tags, lifting) inj_on_def)
  then have "distinct (map snd ?range)"
    using dm by (auto simp: btm_range_from_def distinct_map intro: inj_on_subset)
  then have col: "collect_reblocked ?range h = Some (?is, ?h)"
    using small by (subst collect_reblocked_eq) (auto simp: btm_range_from_def V conj_assoc)
  have sis: "set ?is = fst ` V" by (auto simp: btm_range_from_def V)
  have "distinct ?is"
    using m(1) by (intro btm_ok_distinct btm_ok_filter) (simp add: btm_range_from_def btm_ok_filter)
  moreover have "set ?is \<subseteq> fst ` set m" unfolding sis V by blast
  moreover have "\<forall>p \<in> set m. fst p = task_id (?h (snd p))" using m(2) by simp
  ultimately obtain b' where b': "move_reblocked ?h ?is m b = Some (filter (\<lambda>p. fst p \<notin> set ?is) m, b')"
    "btm_ok b'" "set b' = set b \<union> (\<lambda>p. (fst p, (Req_Readonly, snd p))) ` {p \<in> set m. fst p \<in> set ?is}"
    using move_reblocked_eq [OF m(1) bok, of ?h ?is] dis by auto
  have mem: "fst p \<in> fst ` V \<longleftrightarrow> p \<in> V" if "p \<in> set m" for p
    using that inj by (auto simp: V dest: inj_onD)
  have "filter (\<lambda>p. fst p \<notin> set ?is) m = filter (\<lambda>p. p \<notin> V) m"
    unfolding sis using mem by (intro filter_cong) auto
  moreover have "{p \<in> set m. fst p \<in> set ?is} = V"
    unfolding sis using mem by (auto simp: V)
  ultimately show ?thesis using col b' by auto
qed

lemma lock_priority_read_write:
  assumes ok: "queue_ok (heap_id h) stamp blk U (Priority (Some (Readonly m)) b)"
    and new: "t \<notin> snd ` U" and fresh: "task_id (h t) \<notin> heap_id h ` snd ` U"
    and inj: "inj_on (heap_id h) (snd ` U)"
    and blk: "\<forall>x \<in> snd ` U. blk x \<longleftrightarrow> blocked_usage_count (h x) \<noteq> 0"
    and small: "card U + 1 < 2 ^ 32" "unat cnt + 1 < 2 ^ 32"
      "\<forall>x \<in> snd ` U. unat (blocked_usage_count (h x)) + 1 < 2 ^ 32"
  shows "lock_post t Req_Writable cnt (Priority (Some (Readonly m)) b) h stamp blk U"
proof -
  let ?uq = "Priority (Some (Readonly m)) b" and ?H = "U - snd ` set b" and ?k = "task_id (h t)"
  define V where "V = {p \<in> set m. ?k \<le> fst p \<and> blocked_usage_count (h (snd p)) \<noteq> 0}"
  define m' where "m' = filter (\<lambda>p. p \<notin> V) m"
  let ?h = "bump_counts (snd ` V) h" and ?rd = "\<lambda>p :: ordered_task_id \<times> task_ref. (Req_Readonly, snd p)"
  from ok have fin: "finite U" and injU: "inj_on snd U" and sub: "snd ` set b \<subseteq> U"
    and key: "\<forall>p \<in> set b. fst p = task_id (h (snd (snd p)))" and bok: "btm_ok b"
    and m: "m \<noteq> []" "btm_ok m" "\<forall>p \<in> set m. fst p = task_id (h (snd p))" and H: "?H = ?rd ` set m"
    and ord: "order_ok (heap_id h) stamp blk ?H ?uq"
    unfolding queue_ok_Priority cur_ok.simps by blast+
  from ord have hdw: "b \<noteq> [] \<longrightarrow> fst (snd (hd b)) = Req_Writable"
    and ordr: "\<forall>x \<in> ?H. blk (snd x) \<longrightarrow>
      (\<forall>w \<in> set b. fst (snd w) = Req_Writable \<longrightarrow> task_id (h (snd x)) < fst w)"
    unfolding order_ok.simps by blast+
  have mU: "?rd p \<in> U" "?rd p \<notin> snd ` set b" if "p \<in> set m" for p using H that by auto
  have mS: "snd p \<in> snd ` U" if "p \<in> set m" for p using mU(1) [OF that] by force
  have dis: "fst ` set m \<inter> fst ` set b = {}"
  proof (rule equals0I)
    fix i assume "i \<in> fst ` set m \<inter> fst ` set b"
    then obtain p w where p: "p \<in> set m" "i = fst p" and w: "w \<in> set b" "i = fst w"
      by (elim IntE imageE)
    from p(2) w(2) have "fst p = fst w" by (rule subst)
    with p(1) w(1) have pw: "p \<in> set m" "w \<in> set b" "fst p = fst w" by blast+
    then have "task_id (h (snd p)) = task_id (h (snd (snd w)))" using m(3) key by metis
    moreover have "snd w \<in> U" using pw(2) sub by auto
    ultimately have "snd p = snd (snd w)" using inj mS [OF pw(1)] by (auto dest: inj_onD)
    then have "?rd p = snd w" using inj_onD [OF injU, of "?rd p" "snd w"] mU(1) [OF pw(1)] \<open>snd w \<in> U\<close> by simp
    with mU(2) [OF pw(1)] pw(2) show False by auto
  qed
  obtain "is" b' where col: "collect_reblocked (btm_range_from ?k m) h = Some (is, ?h)"
    and mov: "move_reblocked ?h is m b = Some (m', b')" and bok': "btm_ok b'"
    and sb': "set b' = set b \<union> (\<lambda>p. (fst p, ?rd p)) ` V"
    using reblock_readers [OF m(2,3) bok dis _ V_def] small(3) mS unfolding m'_def by blast
  have Vm: "V \<subseteq> set m" by (auto simp: V_def)
  have Vlt: "?k < fst p" if "p \<in> V" for p
  proof -
    have "?k \<noteq> fst p" using that m(3) mS [of p] fresh by (auto simp: V_def)
    moreover have "?k \<le> fst p" using that by (simp add: V_def)
    ultimately show ?thesis by order
  qed
  have sub': "snd ` set b' \<subseteq> U" using sub mU(1) Vm by (auto simp: sb')
  have "\<forall>p \<in> V. fst p = task_id (h (snd p))" using m(3) Vm by blast
  with key have key': "\<forall>p \<in> set b'. fst p = task_id (h (snd (snd p)))" by (simp add: sb' ball_Un)
  have kt: "?k \<notin> fst ` set b'" using key' sub' fresh by (force simp: image_iff)
  have "snd ` set b' = snd ` set b \<union> ?rd ` V" by (auto simp: sb' image_Un image_image)
  then have H': "U - snd ` set b' = ?rd ` set m'"
  proof -
    have "inj_on ?rd (set m)" using m(3) by (auto simp: inj_on_def prod_eq_iff)
    then have "?rd ` (set m - V) = ?rd ` set m - ?rd ` V" using Vm by (simp add: inj_on_image_set_diff)
    moreover have "set m' = set m - V" by (auto simp: m'_def)
    moreover have "U - (snd ` set b \<union> ?rd ` V) = ?H - ?rd ` V" by blast
    ultimately show ?thesis
      using H \<open>snd ` set b' = snd ` set b \<union> ?rd ` V\<close> by simp
  qed
  have RV: "snd ` V \<subseteq> snd ` holders U ?uq"
  proof
    fix x assume "x \<in> snd ` V"
    then obtain p where p: "p \<in> V" "x = snd (?rd p)" by auto
    then have "?rd p \<in> holders U ?uq" using mU [of p] Vm by (auto simp: holders_def)
    with p(2) show "x \<in> snd ` holders U ?uq" by (rule image_eqI)
  qed
  have cnt: "\<forall>x \<in> snd ` V. blocked_usage_count (h x) \<noteq> 0" by (auto simp: V_def)
  have wt: "waiters (Priority c b') = waiters ?uq \<union> snd ` V" for c
    by (simp add: waiters_Priority sb' image_Un image_image)
  show ?thesis
  proof (cases "m' = []")
    case True
    then have V: "V = set m" using Vm by (auto simp: m'_def filter_empty_conv)
    have low: "?k < fst w" if "w \<in> set b'" for w
    proof (cases "w \<in> set b")
      case True
      then have b: "b \<noteq> []" "fst (hd b) \<le> fst w" using bok by (auto dest: btm_hd_le)
      obtain p where p: "p \<in> V" using m(1) V by (cases m) auto
      then have "snd p \<in> snd ` U" "blocked_usage_count (h (snd p)) \<noteq> 0" using mS [of p] by (simp_all add: V_def)
      then have "blk (snd p)" using blk by blast
      moreover have "?rd p \<in> ?H" using p Vm unfolding H by blast
      ultimately have "task_id (h (snd p)) < fst (hd b)"
        using ordr [rule_format, of "?rd p" "hd b"] hdw b(1) by simp
      moreover have "fst p = task_id (h (snd p))" using m(3) p Vm by blast
      ultimately show ?thesis using Vlt [OF p] b(2) by order
    qed (use that Vlt sb' in auto)
    have "\<exists>cur'. try_lock ?h t Req_Writable (Priority None b') = Some (LockOk, Priority cur' b') \<and>
        queue_ok (heap_id ?h) stamp blk (insert (Req_Writable, t) U) (Priority cur' b')"
    proof (rule priority_grant [OF fin injU sub'])
      show "{} = U - snd ` set b'" using H' True by simp
    qed (use key' bok' new small fresh low in \<open>auto simp: compatible_def\<close>)
    then obtain cur' where cur': "try_lock ?h t Req_Writable (Priority None b') = Some (LockOk, Priority cur' b')"
      "queue_ok (heap_id h) stamp blk (insert (Req_Writable, t) U) (Priority cur' b')" by auto
    show ?thesis
    proof (rule lock_post_granted [where R = "snd ` V" and uqb = "Priority cur' b'"])
      show "prepare_lock t Req_Writable ?uq h = Some (LockOk, Priority None b', ?h)"
        using col mov True by simp
    qed (use cur' RV cnt wt in simp_all)
  next
    case False
    let ?b = "btm_put ?k (Req_Writable, t) b'" and ?cur = "Some (Readonly m')"
    have sb: "set ?b = insert (?k, (Req_Writable, t)) (set b')" by (rule set_btm_put [OF kt])
    have cur': "cur_ok (heap_id h) (?rd ` set m') (Priority ?cur b')"
      using False m(2,3) by (auto simp: m'_def)
    have hd': "fst (snd (hd ?b)) = Req_Writable"
    proof (cases "b' = [] \<or> ?k < fst (hd b')")
      case nl: False
      then have "hd b' \<in> set b'" by simp
      then consider "hd b' \<in> set b" | p where "p \<in> V" "hd b' = (fst p, ?rd p)" using sb' by auto
      then have "hd b' = hd b \<and> b \<noteq> []"
      proof cases
        case 1
        then have "b \<noteq> []" by auto
        then have "hd b \<in> set b'" by (simp add: sb')
        then have "fst (hd b') \<le> fst (hd b)" "fst (hd b) \<le> fst (hd b')"
          using bok bok' 1 by (auto dest: btm_hd_le)
        then have "fst (hd b') = fst (hd b)" by order
        with 1 \<open>b \<noteq> []\<close> bok show ?thesis
          by (metis btm_ok_inj hd_in_set prod.collapse)
      next
        case 2
        with Vlt nl show ?thesis by auto
      qed
      with nl hdw show ?thesis by (simp add: hd_btm_put [OF kt])
    qed (simp add: hd_btm_put [OF kt])
    have "order_ok (heap_id h) stamp blk (?rd ` set m') (Priority ?cur ?b)"
      unfolding order_ok.simps
    proof (intro conjI impI ballI)
      fix x w assume x: "x \<in> ?rd ` set m'" and bx: "blk (snd x)" and w: "w \<in> set ?b"
        and ww: "fst (snd w) = Req_Writable"
      from x obtain p where p: "p \<in> set m" "p \<notin> V" "snd x = snd p" by (auto simp: m'_def)
      then have lt: "task_id (h (snd x)) < ?k"
        using bx blk mS [OF p(1)] m(3) by (auto simp: V_def not_le)
      show "task_id (h (snd x)) < fst w"
      proof (cases "w \<in> set b")
        case True
        moreover have "?rd p \<in> ?H" using p(1) unfolding H by blast
        ultimately show ?thesis using ordr [rule_format, of "?rd p" w] p(3) bx ww by simp
      qed (use w ww lt in \<open>auto simp: sb sb'\<close>)
    qed (use hd' in simp)
    then have push: "push_blocked ?h (Req_Writable, t) (Priority ?cur b') = Some (Priority ?cur ?b)"
      and ok': "queue_ok (heap_id h) stamp blk (insert (Req_Writable, t) U) (Priority ?cur ?b)"
      using priority_block [OF fin injU sub' _ bok' H' [symmetric], of ?h ?cur t stamp blk Req_Writable]
        key' cur' False new fresh by simp_all
    show ?thesis
    proof (rule lock_post_blocked [where R = "snd ` V" and uqb = "Priority ?cur ?b"])
      show "prepare_lock t Req_Writable ?uq h = Some (LockErr, Priority ?cur b', ?h)"
        using col mov False by simp
    qed (use push ok' small RV cnt wt in \<open>simp_all add: waiters_Priority set_btm_put [OF kt]\<close>)
  qed
qed

lemma lock_usage_queue_ok:
  assumes ok: "queue_ok (heap_id h) stamp blk U uq" and new: "t \<notin> snd ` U"
    and late: "\<forall>u \<in> U. stamp (snd u) < stamp t"
    and ids: "is_fifo uq \<or> inj_on (heap_id h) (insert t (snd ` U))"
    and blk: "\<forall>x \<in> snd ` U. blk x \<longleftrightarrow> blocked_usage_count (h x) \<noteq> 0"
    and small: "card U + 1 < 2 ^ 32" "unat cnt + 1 < 2 ^ 32"
      "\<forall>x \<in> snd ` U. unat (blocked_usage_count (h x)) + 1 < 2 ^ 32"
  shows "lock_post t r cnt uq h stamp blk U"
proof (cases uq)
  case (Fifo cur b)
  from lock_usage_queue_fifo [OF ok [unfolded Fifo] new late small(1,2), of r]
  obtain uq' cnt' where "lock_usage_queue t r cnt uq h = Some (cnt', uq', h)" "is_fifo uq'"
    "queue_ok (heap_id h) stamp blk (insert (r, t) U) uq'"
    "cnt' = cnt \<and> waiters uq' = waiters uq \<or> cnt' = cnt + 1 \<and> waiters uq' = insert t (waiters uq)"
    unfolding Fifo by blast
  then show ?thesis
    unfolding lock_post_def using Fifo
    by (intro exI [of _ uq'] exI [of _ cnt'] exI [of _ "{}"]) simp
next
  case (Priority cur b)
  with ids new have inj: "inj_on (heap_id h) (snd ` U)" and fresh: "task_id (h t) \<notin> heap_id h ` snd ` U"
    by (auto simp: inj_on_insert)
  note ok' = ok [unfolded Priority]
  show ?thesis
  proof (cases cur)
    case None
    with lock_priority_none [of h stamp blk U b t r cnt] ok' show ?thesis by (simp add: Priority)
  next
    case (Some u)
    show ?thesis
    proof (cases u)
      case (Writable c)
      from lock_priority_writable [OF ok' [unfolded Some Writable] new fresh inj blk small] show ?thesis
        by (simp add: Priority Some Writable)
    next
      case (Readonly m)
      note ok'' = ok' [unfolded Some Readonly]
      show ?thesis
      proof (cases r)
        case Req_Readonly
        from lock_priority_read_read [OF ok'' new fresh small(1,2)] show ?thesis
          by (simp add: Priority Some Readonly Req_Readonly)
      next
        case Req_Writable
        from lock_priority_read_write [OF ok'' new fresh inj blk small] show ?thesis
          by (simp add: Priority Some Readonly Req_Writable)
      qed
    qed
  qed
qed

end
