(* ===== verification/Usage_Queue_Unlock.thy ===== *)
theory Usage_Queue_Unlock
  imports Usage_Queue_Inv
begin

text \<open>
  Descheduling one lock context: the closure \<^const>\<open>unlock_usage_queue\<close> (\<open>unlock\<close>, then the
  loop that hands the queue over to the next blocked tasks) never panics, grants a prefix of the
  blocked queue in order, and re-establishes the invariant without the released usage.
\<close>

section \<open>Unlocking a usage of a queue\<close>

text \<open>The state of the \<open>while\<close> loop with a popped usage \<open>u\<close> at hand: \<open>u\<close> is the next in
  order, it can be granted, and every holder comes before everything that still waits.\<close>

definition relock_pre ::
  "(task_ref \<Rightarrow> ordered_task_id) \<Rightarrow> (task_ref \<Rightarrow> nat) \<Rightarrow> usage_from_task set \<Rightarrow> usage_from_task
     \<Rightarrow> usage_queue_inner \<Rightarrow> bool" where
  "relock_pre ids stamp U u uq \<longleftrightarrow>
     finite U \<and> inj_on snd U \<and> set (u # blocked_usages uq) \<subseteq> U \<and> keyed ids uq \<and>
     sorted_wrt (\<lambda>a b. uq_key ids stamp uq (snd a) < uq_key ids stamp uq (snd b))
       (u # blocked_usages uq) \<and>
     cur_ok ids (U - set (u # blocked_usages uq)) uq \<and>
     compatible (fst u) (U - set (u # blocked_usages uq)) \<and>
     (\<forall>x \<in> U - set (u # blocked_usages uq). \<forall>w \<in> set (u # blocked_usages uq).
        uq_key ids stamp uq (snd x) < uq_key ids stamp uq (snd w))"

text \<open>Total order between holders and waiters is more than \<^const>\<open>order_ok\<close> asks for, given that
  the first waiter of a read-locked priority queue is a writer.\<close>

lemma order_ok_strict:
  assumes "\<forall>x \<in> H. \<forall>w \<in> set (blocked_usages uq). uq_key ids stamp uq (snd x) < uq_key ids stamp uq (snd w)"
    and "keyed ids uq" and "cur_ok ids H uq"
    and "fst ` H \<subseteq> {Req_Readonly} \<and> blocked_usages uq \<noteq> [] \<longrightarrow> fst (hd (blocked_usages uq)) = Req_Writable"
  shows "order_ok ids stamp blk H uq"
  using assms
  by (cases "(ids, stamp, blk, H, uq)" rule: order_ok.cases)
    (auto simp: word_less_nat_alt hd_map image_subset_iff)

lemma peek_blocked_eq: "peek_blocked uq = (case blocked_usages uq of [] \<Rightarrow> None | u # _ \<Rightarrow> Some u)"
  by (cases uq rule: peek_blocked.cases)
    (auto simp: first_usage_from_task_def btm_first_def split: list.splits)

lemma uq_pop_Cons:
  assumes "blocked_usages uq = u # us"
  shows "\<exists>uq'. uq_pop uq = (Some u, uq') \<and> blocked_usages uq' = us \<and> is_fifo uq' = is_fifo uq \<and>
    (keyed ids uq \<longrightarrow> keyed ids uq') \<and> uq_key ids stamp uq' = uq_key ids stamp uq \<and>
    (cur_ok ids H uq \<longrightarrow> cur_ok ids H uq') \<and> uq_current_usage uq' = uq_current_usage uq"
proof (cases uq)
  case (Fifo cur b)
  then have "cur_ok ids H (Fifo cur b) = cur_ok ids H (Fifo cur us)"
    by (cases "(ids, H, Fifo cur b)" rule: cur_ok.cases) auto
  with Fifo assms show ?thesis by auto
next
  case (Priority cur b)
  with assms obtain i b' where "b = (i, u) # b'" "us = map snd b'" by (cases b) auto
  with Priority show ?thesis
    using cur_ok_Priority_blocked [of ids H cur b b']
    by (auto simp: pop_first_usage_from_task_def btm_pop_first_def)
qed

lemma uq_pop_Nil: "blocked_usages uq = [] \<Longrightarrow> uq_pop uq = (None, uq)"
  by (cases uq rule: uq_pop.cases) (auto simp: pop_first_usage_from_task_def btm_pop_first_def)

lemma relock_step_ok:
  assumes pre: "relock_pre (heap_id h) stamp U u uq" and cnt: "blocked_usage_count (h (snd u)) \<noteq> 0"
    and small: "card U + 1 < 2 ^ 32" and ids: "is_fifo uq \<or> inj_on (heap_id h) (snd ` U)"
  shows "\<exists>n' uq'. relock_step u uq h ub = Some (n', uq', drop_counts {snd u} h,
      ub @ (if blocked_usage_count (h (snd u)) = 1 then [snd u] else [])) \<and> is_fifo uq' = is_fifo uq \<and>
    (case n' of
       None \<Rightarrow> queue_ok (heap_id h) stamp blk U uq' \<and> blocked_usages uq' = blocked_usages uq
     | Some u' \<Rightarrow> relock_pre (heap_id h) stamp U u' uq' \<and> blocked_usages uq = u' # blocked_usages uq')"
proof -
  obtain r t where u: "u = (r, t)" by (cases u)
  let ?b = "blocked_usages uq" and ?H = "U - set (u # blocked_usages uq)"
  let ?key = "uq_key (heap_id h) stamp uq"
  from pre have fin: "finite U" and injU: "inj_on snd U" and uU: "u \<in> U" and sub: "set ?b \<subseteq> U"
    and key: "keyed (heap_id h) uq" and srt: "sorted_wrt (\<lambda>a b. ?key (snd a) < ?key (snd b)) ?b"
    and fst: "\<forall>w \<in> set ?b. ?key (snd u) < ?key (snd w)"
    and cur: "cur_ok (heap_id h) ?H uq" and comp: "compatible r ?H"
    and ord: "\<forall>x \<in> ?H. \<forall>w \<in> set (u # ?b). ?key (snd x) < ?key (snd w)"
    by (simp_all add: relock_pre_def u)
  have tH: "t \<notin> snd ` ?H"
  proof
    assume "t \<in> snd ` ?H"
    then obtain x where "x \<in> ?H" "snd x = snd u" by (auto simp: u)
    with inj_onD [OF injU, of x u] uU show False by auto
  qed
  moreover have "is_fifo uq \<or> task_id (h t) \<notin> heap_id h ` snd ` ?H"
  proof (cases "is_fifo uq")
    case False
    have "t \<in> snd ` U" using uU u by force
    with False ids tH show ?thesis by (auto dest: inj_onD)
  qed simp
  moreover have "card ?H < card U" using fin uU by (intro psubset_card_mono) auto
  then have "card ?H + 1 < 2 ^ 32" using small by simp
  moreover have "finite ?H" using fin by simp
  ultimately obtain uq1 where lock: "try_lock h t r uq = Some (LockOk, uq1)"
    and cur1: "cur_ok (heap_id h) (insert u ?H) uq1" and same: "same_blocked uq uq1"
    using try_lock_grants [OF cur _ comp, of t] unfolding u by blast
  have "u \<notin> set ?b" using fst by auto
  then have H1: "insert u ?H = U - set ?b" using uU by auto
  note eqs = same_blockedD [OF same]
  have ord1: "\<forall>x \<in> U - set ?b. \<forall>w \<in> set ?b. ?key (snd x) < ?key (snd w)"
    using ord fst H1 [symmetric] by simp
  let ?next = "if r = Req_Readonly then pop_lockable_readonly uq1 else Some (None, uq1)"
  have step: "relock_step u uq h ub = (case ?next of None \<Rightarrow> None | Some (n', uq') \<Rightarrow>
      Some (n', uq', drop_counts {snd u} h, ub @ (if blocked_usage_count (h (snd u)) = 1 then [snd u] else [])))"
    using lock cnt by (simp add: relock_step_def u try_unblock_pos split: option.splits)
  show ?thesis
  proof (cases "r = Req_Readonly \<and> (\<exists>t' us. ?b = (Req_Readonly, t') # us)")
    case True
    then obtain t' us where b: "?b = (Req_Readonly, t') # us" by auto
    with eqs have b1: "blocked_usages uq1 = (Req_Readonly, t') # us" by simp
    have rd: "fst ` (U - set ?b) \<subseteq> {Req_Readonly}"
      using comp True unfolding H1 [symmetric] by (auto simp: compatible_def u)
    obtain uq2 where uq2: "uq_pop uq1 = (Some (Req_Readonly, t'), uq2)" "blocked_usages uq2 = us"
      "is_fifo uq2 = is_fifo uq" "keyed (heap_id h) uq2" "uq_key (heap_id h) stamp uq2 = ?key"
      "cur_ok (heap_id h) (U - set ?b) uq2" "uq_current_usage uq2 = uq_current_usage uq1"
      using uq_pop_Cons [OF b1, where H = "U - set ?b"] eqs key cur1 H1 by metis
    have "U - set ?b \<noteq> {}" using H1 by auto
    with rd cur1 have "uq_current_usage uq1 = Some Req_Readonly"
      unfolding H1 by (cases "(heap_id h, U - set ?b, uq1)" rule: cur_ok.cases) auto
    then have "?next = Some (Some (Req_Readonly, t'), uq2)"
      using True uq2(1) b1 by (simp add: pop_lockable_readonly_def peek_blocked_eq)
    moreover have "relock_pre (heap_id h) stamp U (Req_Readonly, t') uq2"
      unfolding relock_pre_def using uq2 fin injU sub srt ord1 rd unfolding b
      by (simp add: compatible_def)
    ultimately show ?thesis using step uq2(2,3) b by simp
  next
    case False
    then have "?next = Some (None, uq1)"
      using eqs by (auto simp: pop_lockable_readonly_def peek_blocked_eq
          split: list.splits requested_usage.splits)
    moreover have "queue_ok (heap_id h) stamp blk U uq1"
    proof -
      have "fst (hd ?b) = Req_Writable" if "fst ` (U - set ?b) \<subseteq> {Req_Readonly}" "?b \<noteq> []"
      proof -
        have "r = Req_Readonly" using that(1) H1 [symmetric] u by auto
        with False that(2) show ?thesis by (cases ?b) (auto intro: requested_usage.exhaust)
      qed
      then have "order_ok (heap_id h) stamp blk (U - set ?b) uq1"
        using order_ok_strict [of "U - set ?b" uq1 "heap_id h" stamp blk] ord1 key cur1 eqs H1 by simp
      moreover have "U - set ?b \<noteq> {}" using H1 by auto
      ultimately show ?thesis
        unfolding queue_ok_def holders_def using fin injU sub key srt cur1 eqs H1 by simp
    qed
    ultimately show ?thesis using step eqs by simp
  qed
qed

lemma relock_loop_ok:
  assumes "relock_pre (heap_id h) stamp U u uq"
    and "\<forall>x \<in> set (u # blocked_usages uq). blocked_usage_count (h (snd x)) \<noteq> 0"
    and small: "card U + 1 < 2 ^ 32" and "is_fifo uq \<or> inj_on (heap_id h) (snd ` U)"
  shows "\<exists>gs uq'. relock_loop (Some u) uq h ub =
      Some (uq', drop_counts (snd ` set (u # gs)) h,
            ub @ filter (\<lambda>x. blocked_usage_count (h x) = 1) (map snd (u # gs))) \<and>
    queue_ok (heap_id h) stamp blk U uq' \<and> blocked_usages uq = gs @ blocked_usages uq' \<and>
    is_fifo uq' = is_fifo uq"
  using assms(1,2,4)
proof (induction "length (blocked_usages uq)" arbitrary: u uq h ub rule: less_induct)
  case less
  let ?h = "drop_counts {snd u} h" and ?ub = "ub @ (if blocked_usage_count (h (snd u)) = 1 then [snd u] else [])"
  obtain n' uq1 where step: "relock_step u uq h ub = Some (n', uq1, ?h, ?ub)"
    and fifo: "is_fifo uq1 = is_fifo uq"
    and n': "case n' of
       None \<Rightarrow> queue_ok (heap_id h) stamp blk U uq1 \<and> blocked_usages uq1 = blocked_usages uq
     | Some u' \<Rightarrow> relock_pre (heap_id h) stamp U u' uq1 \<and> blocked_usages uq = u' # blocked_usages uq1"
    using relock_step_ok [OF less.prems(1) _ small less.prems(3), of ub blk] less.prems(2) by auto
  show ?case
  proof (cases n')
    case None
    with step n' fifo show ?thesis by (intro exI [of _ "[]"] exI [of _ uq1]) simp
  next
    case (Some u')
    with n' have pre': "relock_pre (heap_id h) stamp U u' uq1" and b: "blocked_usages uq = u' # blocked_usages uq1"
      by auto
    have "distinct (map snd (u # blocked_usages uq))"
      using less.prems(1) sorted_wrt_distinct_snd unfolding relock_pre_def by blast
    then have nu: "snd u \<notin> snd ` set (u' # blocked_usages uq1)" unfolding b by simp
    have same: "blocked_usage_count (?h (snd x)) = blocked_usage_count (h (snd x))"
      if "x \<in> set (u' # blocked_usages uq1)" for x
    proof -
      have "snd x \<noteq> snd u" using nu imageI [OF that, of snd] by metis
      then show ?thesis by (simp add: heap_counts)
    qed
    have "\<forall>x \<in> set (u' # blocked_usages uq1). blocked_usage_count (?h (snd x)) \<noteq> 0"
      using less.prems(2) same b by simp
    then obtain gs uq' where gs: "relock_loop (Some u') uq1 ?h ?ub =
        Some (uq', drop_counts (snd ` set (u' # gs)) ?h,
              ?ub @ filter (\<lambda>x. blocked_usage_count (?h x) = 1) (map snd (u' # gs)))"
      "queue_ok (heap_id h) stamp blk U uq'" "blocked_usages uq1 = gs @ blocked_usages uq'"
      "is_fifo uq' = is_fifo uq1"
      using less.hyps [of uq1 ?h u' ?ub] pre' b fifo less.prems(3) by auto
    have nu': "snd u \<notin> snd ` set (u' # gs)" using nu gs(3) by auto
    have "drop_counts (snd ` set (u' # gs)) ?h = drop_counts (snd ` set (u # u' # gs)) h"
      using nu' by (auto simp: drop_counts_def fun_eq_iff)
    moreover have "filter (\<lambda>x. blocked_usage_count (?h x) = 1) (map snd (u' # gs)) =
        filter (\<lambda>x. blocked_usage_count (h x) = 1) (map snd (u' # gs))"
      using nu' by (intro filter_cong) (auto simp: heap_counts)
    ultimately show ?thesis
      using step Some gs b fifo by (intro exI [of _ "u' # gs"] exI [of _ uq']) simp
  qed
qed

text \<open>What \<^const>\<open>unlock\<close> alone leaves: either the queue still has holders (or nobody waits), or
  the first waiter has been popped and the queue is free.\<close>

lemma holders_remove:
  "(r, t) \<in> holders U uq \<Longrightarrow> blocked_usages uq' = blocked_usages uq \<Longrightarrow>
     holders (U - {(r, t)}) uq' = holders U uq - {(r, t)}"
  by (auto simp: holders_def)

lemma order_ok_holders_subset:
  "order_ok ids stamp blk H uq \<Longrightarrow> H' \<subseteq> H \<Longrightarrow> order_ok ids stamp blk H' uq"
  by (cases "(ids, stamp, blk, H, uq)" rule: order_ok.cases) auto

fun with_current_None :: "usage_queue_inner \<Rightarrow> usage_queue_inner" where
  "with_current_None (Fifo _ b) = Fifo None b"
| "with_current_None (Priority _ b) = Priority None b"

lemma unlock_last_holder:
  assumes "cur_ok (heap_id h) {(r, t)} uq"
  shows "unlock h t r uq = Some (uq_pop (with_current_None uq))"
proof (cases "(heap_id h, {(r, t)}, uq)" rule: cur_ok.cases)
  case (2 ids H n b)
  with assms have "r = Req_Readonly" "unat n = unat (1 :: u32)" by auto
  then have "r = Req_Readonly" "n = 1" by (simp_all only: unsigned_word_eqI)
  with 2 show ?thesis by (simp add: sc_is_one_def)
next
  case (5 ids H m b)
  with assms have m: "m \<noteq> []" "btm_ok m" "\<forall>p \<in> set m. fst p = task_id (h (snd p))"
    "{(r, t)} = (\<lambda>p. (Req_Readonly, snd p)) ` set m" by auto
  have "(Req_Readonly, snd p) = (r, t)" if "p \<in> set m" for p
    using that m(4) by (metis imageI singletonD)
  with m(1,3) have r: "r = Req_Readonly" and all: "\<forall>p \<in> set m. p = (task_id (h t), t)"
    by (cases m; force)+
  then have "btm_del (task_id (h t)) m = []" by (auto simp: btm_del_def filter_empty_conv)
  moreover have "btm_get (task_id (h t)) m = Some t"
    using m all by (cases m) (auto simp: btm_get_def)
  ultimately show ?thesis using 5 r by simp
qed (use assms in auto)

lemma unlock_other_holders:
  assumes cur: "cur_ok (heap_id h) H uq" and mem: "(r, t) \<in> H" and ne: "H \<noteq> {(r, t)}"
    and fin: "finite H" and ids: "is_fifo uq \<or> inj_on (heap_id h) (snd ` H)"
  shows "\<exists>uq'. unlock h t r uq = Some (None, uq') \<and> same_blocked uq uq' \<and>
    cur_ok (heap_id h) (H - {(r, t)}) uq' \<and>
    (order_ok (heap_id h) stamp blk (H - {(r, t)}) uq \<longrightarrow> order_ok (heap_id h) stamp blk (H - {(r, t)}) uq')"
proof (cases "(heap_id h, H, uq)" rule: cur_ok.cases)
  case (2 ids H' n b)
  with cur mem have r: "r = Req_Readonly" and rd: "fst ` H \<subseteq> {Req_Readonly}" and c: "card H = unat n" by auto
  have ne': "H - {(r, t)} \<noteq> {}" using mem ne by auto
  then have "card (H - {(r, t)}) > 0" using fin by (simp add: card_gt_0_iff)
  then have n1: "unat n > 1" using c mem fin by (simp add: card_Diff_singleton)
  then have n: "n \<noteq> 0" "n \<noteq> 1" by auto
  have "card (H - {(r, t)}) = unat (n - 1)"
    using c mem fin n by (simp add: card_Diff_singleton unat_dec32)
  with 2 r rd n ne' show ?thesis by (auto simp: sc_is_one_def sc_decrement_Some)
next
  case (5 ids H' m b)
  with cur have m: "btm_ok m" "\<forall>p \<in> set m. fst p = task_id (h (snd p))"
    and H: "H = (\<lambda>p. (Req_Readonly, snd p)) ` set m" by auto
  let ?i = "task_id (h t)" and ?rd = "\<lambda>p :: ordered_task_id \<times> task_ref. (Req_Readonly, snd p)"
  from mem H m(2) have r: "r = Req_Readonly" and tm: "(?i, t) \<in> set m" by force+
  then have get: "btm_get ?i m = Some t" using m(1) by (simp add: btm_get_Some_iff)
  have uniq: "p \<in> set m \<Longrightarrow> fst p = ?i \<longleftrightarrow> snd p = t" for p
    using m tm by (metis btm_ok_inj prod.collapse)
  then have H': "H - {(r, t)} = ?rd ` set (btm_del ?i m)"
    unfolding H r by (auto simp: set_btm_del)
  moreover have "H - {(r, t)} \<noteq> {}" using mem ne by auto
  ultimately have "btm_del ?i m \<noteq> []" by auto
  moreover have "\<forall>p \<in> set (btm_del ?i m). fst p = task_id (h (snd p))" using m(2) by (simp add: set_btm_del)
  ultimately show ?thesis
    using 5 r get m H' by (auto simp: btm_ok_del)
qed (use assms in auto)

definition unlock_post ::
  "task_ref \<Rightarrow> requested_usage \<Rightarrow> usage_queue_inner \<Rightarrow> 'tx task_heap \<Rightarrow> task_ref list \<Rightarrow> (task_ref \<Rightarrow> nat)
     \<Rightarrow> (task_ref \<Rightarrow> bool) \<Rightarrow> usage_from_task set \<Rightarrow> bool" where
  "unlock_post t r uq h ub stamp blk U \<longleftrightarrow>
     (\<exists>gs uq'. unlock_usage_queue t r uq h ub =
        Some (uq', drop_counts (snd ` set gs) h,
              ub @ filter (\<lambda>x. blocked_usage_count (h x) = 1) (map snd gs)) \<and>
      queue_ok (heap_id h) stamp blk (U - {(r, t)}) uq' \<and>
      blocked_usages uq = gs @ blocked_usages uq' \<and> is_fifo uq' = is_fifo uq)"

lemma with_current_None_simps [simp]:
  "blocked_usages (with_current_None uq) = blocked_usages uq"
  "is_fifo (with_current_None uq) = is_fifo uq"
  "keyed ids (with_current_None uq) = keyed ids uq"
  "uq_key ids stamp (with_current_None uq) = uq_key ids stamp uq"
  "cur_ok ids {} (with_current_None uq)"
  by (cases uq; auto simp: fun_eq_iff)+

lemma unlock_usage_queue_ok:
  assumes ok: "queue_ok (heap_id h) stamp blk U uq" and mem: "(r, t) \<in> holders U uq"
    and cnt: "\<forall>x \<in> waiters uq. blocked_usage_count (h x) \<noteq> 0"
    and small: "card U < 2 ^ 32" and ids: "is_fifo uq \<or> inj_on (heap_id h) (snd ` U)"
  shows "unlock_post t r uq h ub stamp blk U"
proof -
  let ?H = "holders U uq" and ?U = "U - {(r, t)}" and ?b = "blocked_usages uq"
  let ?key = "uq_key (heap_id h) stamp uq"
  from ok have fin: "finite U" and injU: "inj_on snd U" and sub: "set ?b \<subseteq> U" and key: "keyed (heap_id h) uq"
    and srt: "sorted_wrt (\<lambda>a b. ?key (snd a) < ?key (snd b)) ?b"
    and cur: "cur_ok (heap_id h) ?H uq" and ord: "order_ok (heap_id h) stamp blk ?H uq"
    unfolding queue_ok_def by blast+
  have rt: "(r, t) \<in> U" "(r, t) \<notin> set ?b" using mem by (auto simp: holders_def)
  have fin': "finite ?U" "inj_on snd ?U" "set ?b \<subseteq> ?U"
    using fin injU sub rt by (auto intro: inj_on_subset)
  show ?thesis
  proof (cases "?H = {(r, t)}")
    case True
    have un: "unlock h t r uq = Some (uq_pop (with_current_None uq))"
      using unlock_last_holder [of h r t uq] cur True by simp
    show ?thesis
    proof (cases ?b)
      case Nil
      have U: "?U = {}" using True Nil by (auto simp: holders_def)
      have "with_current_None uq = with_fifo \<or> with_current_None uq = with_priority"
        using Nil by (cases uq) (auto simp: with_fifo_def with_priority_def)
      then have "queue_ok (heap_id h) stamp blk ?U (with_current_None uq)"
        unfolding U queue_ok_empty_iff .
      then show ?thesis
        unfolding unlock_post_def using un Nil
        by (intro exI [of _ "[]"] exI [of _ "with_current_None uq"])
          (simp add: unlock_usage_queue_def uq_pop_Nil)
    next
      case (Cons u us)
      then obtain uq1 where uq1: "uq_pop (with_current_None uq) = (Some u, uq1)" "blocked_usages uq1 = us"
        "is_fifo uq1 = is_fifo uq" "keyed (heap_id h) uq1" "uq_key (heap_id h) stamp uq1 = ?key"
        "cur_ok (heap_id h) {} uq1"
        using uq_pop_Cons [of "with_current_None uq" u us "heap_id h" stamp "{}"] key by auto
      have e: "?U - set (u # blocked_usages uq1) = {}" using True Cons uq1(2) by (auto simp: holders_def)
      have "relock_pre (heap_id h) stamp ?U u uq1"
        unfolding relock_pre_def e using uq1 fin' srt Cons by (simp add: compatible_def)
      moreover have "\<forall>x \<in> set (u # blocked_usages uq1). blocked_usage_count (h (snd x)) \<noteq> 0"
        using cnt Cons uq1(2) by (simp add: waiters_def)
      moreover have "card ?U + 1 < 2 ^ 32" using small rt(1) fin card_gt_0_iff [of U] by (auto simp: card_Diff_singleton)
      moreover have "is_fifo uq1 \<or> inj_on (heap_id h) (snd ` ?U)"
        using ids uq1(3) by (auto intro: inj_on_subset)
      ultimately obtain gs uq' where gs: "relock_loop (Some u) uq1 h ub =
          Some (uq', drop_counts (snd ` set (u # gs)) h,
                ub @ filter (\<lambda>x. blocked_usage_count (h x) = 1) (map snd (u # gs)))"
        "queue_ok (heap_id h) stamp blk ?U uq'" "blocked_usages uq1 = gs @ blocked_usages uq'"
        "is_fifo uq' = is_fifo uq1"
        using relock_loop_ok [of h stamp ?U u uq1 ub blk] by blast
      show ?thesis
        unfolding unlock_post_def using un uq1 gs Cons
        by (intro exI [of _ "u # gs"] exI [of _ uq']) (simp add: unlock_usage_queue_def)
    qed
  next
    case False
    have "is_fifo uq \<or> inj_on (heap_id h) (snd ` ?H)"
      using ids by (auto simp: holders_def intro: inj_on_subset)
    moreover have "finite ?H" using fin by (simp add: holders_def)
    ultimately obtain uq' where un: "unlock h t r uq = Some (None, uq')" and same: "same_blocked uq uq'"
      and cur': "cur_ok (heap_id h) (?H - {(r, t)}) uq'"
      and ord': "order_ok (heap_id h) stamp blk (?H - {(r, t)}) uq'"
      using unlock_other_holders [OF cur mem False, of stamp blk]
        order_ok_holders_subset [OF ord, of "?H - {(r, t)}"] by blast
    note eqs = same_blockedD [OF same]
    have H': "holders ?U uq' = ?H - {(r, t)}" by (rule holders_remove [OF mem eqs(1)])
    have "?H - {(r, t)} \<noteq> {}" using mem False by auto
    then have "queue_ok (heap_id h) stamp blk ?U uq'"
      unfolding queue_ok_def H' eqs using fin' key srt cur' ord' by blast
    then show ?thesis
      unfolding unlock_post_def using un eqs
      by (intro exI [of _ "[]"] exI [of _ uq']) (simp add: unlock_usage_queue_def)
  qed
qed

end
