(* ===== verification/Scheduler_Loops.thy ===== *)
theory Scheduler_Loops
  imports Usage_Queue_Lock Usage_Queue_Unlock
begin

text \<open>
  The loops of \<open>try_lock_usage_queues\<close> and \<open>unlock_usage_queues\<close> over a task's lock contexts:
  the invariant of the store while a task is partly registered, and its preservation by both
  loops.
\<close>

section \<open>The store invariant\<close>

definition queue_set :: "'tx task_inner \<Rightarrow> queue_ref set" where
  "queue_set task = lc_usage_queue ` set (lock_contexts task)"

definition usages_at :: "task_ref \<Rightarrow> lock_context list \<Rightarrow> queue_ref \<Rightarrow> usage_from_task set" where
  "usages_at t cxs q = {(r, t) | r. \<lparr>lc_usage_queue = q, lc_requested_usage = r\<rparr> \<in> set cxs}"

definition users :: "'tx task_heap \<Rightarrow> task_ref set \<Rightarrow> queue_ref \<Rightarrow> usage_from_task set" where
  "users h A q = (\<Union>t \<in> A. usages_at t (lock_contexts (h t)) q)"

text \<open>The queues in which a task waits.\<close>

definition waits_in :: "'tx store \<Rightarrow> task_ref \<Rightarrow> queue_ref set" where
  "waits_in st t = {q. t \<in> waiters (queues st q)}"

abbreviation (input) blocked_count :: "'tx store \<Rightarrow> task_ref \<Rightarrow> short_counter" where
  "blocked_count st t \<equiv> blocked_usage_count (tasks st t)"

definition store_ok ::
  "capability \<Rightarrow> (task_ref \<Rightarrow> nat) \<Rightarrow> (task_ref \<Rightarrow> bool) \<Rightarrow> (queue_ref \<Rightarrow> usage_from_task set) \<Rightarrow> 'tx store \<Rightarrow> bool" where
  "store_ok cap arr blk U st \<longleftrightarrow>
     (\<forall>q. (is_fifo (queues st q) \<longleftrightarrow> cap = FifoQueueing) \<and>
          queue_ok (heap_id (tasks st)) arr blk (U q) (queues st q))"

definition counts_ok :: "task_ref set \<Rightarrow> 'tx store \<Rightarrow> bool" where
  "counts_ok A st \<longleftrightarrow> (\<forall>x \<in> A. finite (waits_in st x) \<and> card (waits_in st x) + 1 < 2 ^ 32 \<and>
     unat (blocked_count st x) = card (waits_in st x))"

text \<open>What the loops never change in the tasks, and that no count leaves or reaches zero
  (locking), respectively that counts only leave the non-zero range (unlocking).\<close>

definition same_tasks :: "'tx task_heap \<Rightarrow> 'tx task_heap \<Rightarrow> bool" where
  "same_tasks h h' \<longleftrightarrow> (\<forall>x. \<exists>c. h' x = (h x)\<lparr>blocked_usage_count := c\<rparr>)"

lemma count_update_self: "\<exists>c. task = task\<lparr>blocked_usage_count := c\<rparr>"
  by (rule exI [of _ "blocked_usage_count task"]) simp

lemma same_tasksE:
  assumes "same_tasks h h'"
  obtains c where "h' x = (h x)\<lparr>blocked_usage_count := c\<rparr>"
  using assms unfolding same_tasks_def by blast

lemma same_tasksD:
  assumes "same_tasks h h'"
  shows "task_id (h' x) = task_id (h x)" and "lock_contexts (h' x) = lock_contexts (h x)"
    and "queue_set (h' x) = queue_set (h x)"
  by (rule same_tasksE [OF assms, of x], simp add: queue_set_def)+

lemma same_tasks_refl [simp]: "same_tasks h h"
  by (simp add: same_tasks_def count_update_self)

lemma same_tasks_trans:
  assumes "same_tasks h h'" and "same_tasks h' h''"
  shows "same_tasks h h''"
  unfolding same_tasks_def
proof
  fix x
  from assms(1) obtain c where "h' x = (h x)\<lparr>blocked_usage_count := c\<rparr>" by (rule same_tasksE)
  moreover from assms(2) obtain c' where "h'' x = (h' x)\<lparr>blocked_usage_count := c'\<rparr>" by (rule same_tasksE)
  ultimately show "\<exists>c. h'' x = (h x)\<lparr>blocked_usage_count := c\<rparr>" by (intro exI [of _ c']) simp
qed

lemma same_tasks_updates [simp]:
  "same_tasks h (bump_counts R h)" "same_tasks h (drop_counts R h)"
  "same_tasks h (set_blocked_usage_count t c h)"
  by (auto simp: same_tasks_def bump_counts_def drop_counts_def set_blocked_usage_count_def
      intro: count_update_self)

lemma users_same_tasks: "same_tasks h h' \<Longrightarrow> users h' A q = users h A q"
  by (simp add: users_def same_tasksD)

lemma heap_id_same_tasks: "same_tasks h h' \<Longrightarrow> heap_id h' = heap_id h"
  by (simp add: fun_eq_iff same_tasksD)

lemma snd_usages_at: "snd ` usages_at t cxs q \<subseteq> {t}"
  by (auto simp: usages_at_def)

lemma snd_users: "snd ` users h A q \<subseteq> A"
  by (auto simp: users_def usages_at_def)

lemma users_insert: "users h (insert t A) q = usages_at t (lock_contexts (h t)) q \<union> users h A q"
  by (simp add: users_def)

lemma usages_at_Cons:
  "usages_at t (cx # cxs) = (usages_at t cxs)
     (lc_usage_queue cx := insert (lc_requested_usage cx, t) (usages_at t cxs (lc_usage_queue cx)))"
proof
  fix q
  have "\<lparr>lc_usage_queue = q, lc_requested_usage = r\<rparr> = cx \<longleftrightarrow>
      q = lc_usage_queue cx \<and> r = lc_requested_usage cx" for r
    by (cases cx) auto
  then show "usages_at t (cx # cxs) q = ((usages_at t cxs)
     (lc_usage_queue cx := insert (lc_requested_usage cx, t) (usages_at t cxs (lc_usage_queue cx)))) q"
    by (auto simp: usages_at_def)
qed

lemma usages_at_empty_iff: "usages_at t cxs q = {} \<longleftrightarrow> q \<notin> lc_usage_queue ` set cxs"
proof -
  have "(\<exists>r. \<lparr>lc_usage_queue = q, lc_requested_usage = r\<rparr> \<in> set cxs) \<longleftrightarrow> q \<in> lc_usage_queue ` set cxs"
  proof
    assume "q \<in> lc_usage_queue ` set cxs"
    then obtain cx where "cx \<in> set cxs" "q = lc_usage_queue cx" by auto
    then show "\<exists>r. \<lparr>lc_usage_queue = q, lc_requested_usage = r\<rparr> \<in> set cxs"
      by (intro exI [of _ "lc_requested_usage cx"]) (cases cx, simp)
  qed (auto simp: image_iff intro: bexI [rotated])
  then show ?thesis by (auto simp: usages_at_def)
qed

lemma waiters_subset: "queue_ok ids arr blk U uq \<Longrightarrow> waiters uq \<subseteq> snd ` U"
  by (auto simp: queue_ok_def waiters_def)

lemma waiters_not_holder:
  assumes "queue_ok ids arr blk U uq" and "x \<in> snd ` holders U uq"
  shows "x \<notin> waiters uq"
proof
  assume "x \<in> waiters uq"
  then obtain w where w: "w \<in> set (blocked_usages uq)" "x = snd w" by (auto simp: waiters_def)
  from assms(2) obtain y where y: "y \<in> U" "y \<notin> set (blocked_usages uq)" "x = snd y"
    by (auto simp: holders_def)
  from assms(1) have "inj_on snd U" "set (blocked_usages uq) \<subseteq> U" by (auto simp: queue_ok_def)
  with w y have "w = y" by (auto dest: inj_onD)
  with w y show False by blast
qed

lemma holder_if_not_waiter:
  "queue_ok ids arr blk U uq \<Longrightarrow> (r, t) \<in> U \<Longrightarrow> t \<notin> waiters uq \<Longrightarrow> (r, t) \<in> holders U uq"
  by (force simp: holders_def waiters_def)

lemma waits_in_update:
  "waits_in (st\<lparr>queues := (queues st)(q := uq), tasks := h\<rparr>) x =
     (if x \<in> waiters uq then insert q (waits_in st x) else waits_in st x - {q})"
  by (auto simp: waits_in_def)

lemma store_ok_update:
  assumes "store_ok cap arr blk U st" and "same_tasks (tasks st) h"
    and "is_fifo uq = is_fifo (queues st q)" and "queue_ok (heap_id (tasks st)) arr blk V uq"
  shows "store_ok cap arr blk (U(q := V)) (st\<lparr>queues := (queues st)(q := uq), tasks := h\<rparr>)"
  using assms by (simp add: store_ok_def heap_id_same_tasks)

lemma store_ok_antimono:
  assumes "store_ok cap arr blk U st" and "\<And>q x. x \<in> snd ` U q \<Longrightarrow> blk' x \<Longrightarrow> blk x"
  shows "store_ok cap arr blk' U st"
  unfolding store_ok_def
proof (intro allI conjI)
  fix q
  show "queue_ok (heap_id (tasks st)) arr blk' (U q) (queues st q)"
    by (rule queue_ok_antimono [where blk = blk]) (use assms in \<open>auto simp: store_ok_def\<close>)
qed (use assms(1) in \<open>simp add: store_ok_def\<close>)

lemma store_ok_cong:
  assumes "store_ok cap arr blk U st" and "queues st' = queues st"
    and "\<And>q x. x \<in> snd ` U q \<Longrightarrow> task_id (tasks st x) = task_id (tasks st' x) \<and> arr x = arr' x"
  shows "store_ok cap arr' blk U st'"
  unfolding store_ok_def
proof (intro allI conjI)
  fix q
  have "queue_ok (heap_id (tasks st)) arr blk (U q) (queues st q)"
    using assms(1) by (simp add: store_ok_def)
  then show "queue_ok (heap_id (tasks st')) arr' blk (U q) (queues st' q)"
    unfolding assms(2) by (rule queue_ok_cong) (rule assms(3))
qed (use assms(1,2) in \<open>simp add: store_ok_def\<close>)

lemma store_ok_tasks:
  "store_ok cap arr blk U st \<Longrightarrow> same_tasks (tasks st) h \<Longrightarrow> store_ok cap arr blk U (st\<lparr>tasks := h\<rparr>)"
  by (simp add: store_ok_def heap_id_same_tasks)

section \<open>Locking\<close>

lemma lock_one_context_ok:
  fixes cx :: lock_context
  defines "q \<equiv> lc_usage_queue cx" and "r \<equiv> lc_requested_usage cx"
  assumes st: "store_ok cap arr blk U st" and cts: "counts_ok (insert t A) (st\<lparr>tasks := set_blocked_usage_count t cnt (tasks st)\<rparr>)"
    and t: "t \<notin> A" "t \<notin> snd ` U q" and UA: "snd ` U q \<subseteq> A"
    and late: "\<forall>u \<in> U q. arr (snd u) < arr t"
    and ids: "cap = FifoQueueing \<or> inj_on (heap_id (tasks st)) (insert t A)"
    and blk: "\<forall>x \<in> A. blk x \<longleftrightarrow> blocked_count st x \<noteq> 0"
    and small: "finite A" "card A + 1 < 2 ^ 32"
  shows "\<exists>cnt' st'. lock_one_context t cx cnt st = Some (cnt', st') \<and>
    store_ok cap arr blk (U(q := insert (r, t) (U q))) st' \<and>
    same_tasks (tasks st) (tasks st') \<and> tasks st' t = tasks st t \<and>
    (\<forall>x. blocked_count st' x = 0 \<longleftrightarrow> blocked_count st x = 0) \<and>
    (\<forall>x \<in> insert t A. waits_in st' x \<subseteq> insert q (waits_in st x)) \<and>
    (\<forall>x \<in> A. unat (blocked_count st' x) = card (waits_in st' x)) \<and>
    unat cnt' = card (waits_in st' t)"
proof -
  let ?uq = "queues st q" and ?h = "tasks st"
  have ok: "queue_ok (heap_id ?h) arr blk (U q) ?uq" and fifo: "is_fifo ?uq \<longleftrightarrow> cap = FifoQueueing"
    using st by (auto simp: store_ok_def)
  have wt: "waits_in (st\<lparr>tasks := h'\<rparr>) x = waits_in st x" for h' x by (simp add: waits_in_def)
  have cA: "finite (waits_in st x)" "card (waits_in st x) + 1 < 2 ^ 32"
    "unat (blocked_count st x) = card (waits_in st x)" if "x \<in> A" for x
  proof -
    have "x \<noteq> t" using that t(1) by blast
    then show "finite (waits_in st x)" "card (waits_in st x) + 1 < 2 ^ 32"
      "unat (blocked_count st x) = card (waits_in st x)"
      using bspec [OF cts [unfolded counts_ok_def], of x] that by (simp_all add: wt heap_counts)
  qed
  have ct: "finite (waits_in st t)" "card (waits_in st t) + 1 < 2 ^ 32" "unat cnt = card (waits_in st t)"
    using cts by (auto simp: counts_ok_def wt heap_counts)
  have "inj_on snd (U q)" using ok by (simp add: queue_ok_def)
  then have "card (U q) \<le> card A" using card_mono [OF small(1) UA] by (simp add: card_image)
  then have "card (U q) + 1 < 2 ^ 32" using small(2) by simp
  moreover have "is_fifo ?uq \<or> inj_on (heap_id ?h) (insert t (snd ` U q))"
    using ids fifo UA by (auto intro: inj_on_subset)
  ultimately have "lock_post t r cnt ?uq ?h arr blk (U q)"
    using ct cA UA blk by (intro lock_usage_queue_ok [OF ok t(2) late]) auto
  then obtain uq' cnt' R where run: "lock_usage_queue t r cnt ?uq ?h = Some (cnt', uq', bump_counts R ?h)"
    and fifo': "is_fifo uq' = is_fifo ?uq"
    and ok': "queue_ok (heap_id ?h) arr blk (insert (r, t) (U q)) uq'"
    and R: "R \<subseteq> snd ` holders (U q) ?uq" "\<forall>x \<in> R. blocked_count st x \<noteq> 0"
    and w: "cnt' = cnt \<and> waiters uq' = waiters ?uq \<union> R \<or>
      cnt' = cnt + 1 \<and> waiters uq' = insert t (waiters ?uq \<union> R)"
    by (auto simp: lock_post_def)
  let ?st = "st\<lparr>queues := (queues st)(q := uq'), tasks := bump_counts R ?h\<rparr>"
  have RA: "R \<subseteq> A" using R(1) UA by (auto simp: holders_def)
  have tw: "t \<notin> waiters ?uq" using waiters_subset [OF ok] t(2) by blast
  have tR: "t \<notin> R" using RA t(1) by blast
  have qt: "q \<notin> waits_in st t" using tw by (simp add: waits_in_def)
  have wx: "waits_in ?st x = (if x \<in> R then insert q (waits_in st x) else waits_in st x)" if "x \<in> A" for x
    using that w t(1) by (auto simp: waits_in_update waits_in_def)
  have qR: "q \<notin> waits_in st x" if "x \<in> R" for x
    using waiters_not_holder [OF ok, of x] R(1) that by (auto simp: waits_in_def)
  have "unat (blocked_count ?st x) = card (waits_in ?st x)" if "x \<in> A" for x
    using cA [OF that] wx [OF that] qR [of x] by (auto simp: heap_counts unat_inc32)
  moreover have "unat cnt' = card (waits_in ?st t)"
    using w ct qt tw tR by (auto simp: waits_in_update unat_inc32 insert_Diff_if)
  moreover have "blocked_count ?st x = 0 \<longleftrightarrow> blocked_count st x = 0" for x
  proof (cases "x \<in> R")
    case True
    then have "unat (blocked_count st x + 1) = unat (blocked_count st x) + 1"
      using cA [of x] RA by (intro unat_inc32) auto
    then have "blocked_count st x + 1 \<noteq> 0" by (metis Suc_eq_plus1 nat.distinct(1) unat_0)
    with True R(2) show ?thesis by (simp add: heap_counts)
  qed (simp add: heap_counts)
  moreover have "store_ok cap arr blk (U(q := insert (r, t) (U q))) ?st"
    by (rule store_ok_update [OF st _ fifo' ok']) simp
  moreover have "waits_in ?st x \<subseteq> insert q (waits_in st x)" for x by (auto simp: waits_in_update)
  moreover have "lock_one_context t cx cnt st = Some (cnt', ?st)"
    using run by (simp add: lock_one_context_def q_def r_def Let_def)
  moreover have "tasks ?st t = tasks st t" using tR by (simp add: bump_counts_def)
  ultimately show ?thesis by (intro exI [of _ cnt'] exI [of _ ?st]) simp
qed

lemma waits_in_subset: "store_ok cap arr blk U st \<Longrightarrow> waits_in st x \<subseteq> {q. x \<in> snd ` U q}"
  using waiters_subset by (fastforce simp: store_ok_def waits_in_def)

text \<open>\<open>Q x\<close> bounds the queues a task can be registered at, which bounds its count.\<close>

definition registered_in :: "(task_ref \<Rightarrow> queue_ref set) \<Rightarrow> task_ref set \<Rightarrow> (queue_ref \<Rightarrow> usage_from_task set) \<Rightarrow> bool" where
  "registered_in Q A U \<longleftrightarrow> (\<forall>q. \<forall>u \<in> U q. snd u \<in> A \<and> q \<in> Q (snd u)) \<and>
     (\<forall>x \<in> A. finite (Q x) \<and> card (Q x) + 1 < 2 ^ 32)"

lemma waits_in_bounded:
  assumes "store_ok cap arr blk U st" and "registered_in Q A U" and "x \<in> A"
  shows "finite (waits_in st x)" and "card (waits_in st x) + 1 < 2 ^ 32"
proof -
  have "waits_in st x \<subseteq> Q x"
    using waits_in_subset [OF assms(1), of x] assms(2) by (fastforce simp: registered_in_def)
  moreover have "finite (Q x)" "card (Q x) + 1 < 2 ^ 32" using assms(2,3) by (auto simp: registered_in_def)
  ultimately show "finite (waits_in st x)" and "card (waits_in st x) + 1 < 2 ^ 32"
    by (auto dest: finite_subset card_mono)
qed

lemma registered_in_insert:
  "registered_in Q A U \<Longrightarrow> t \<in> A \<Longrightarrow> q \<in> Q t \<Longrightarrow> registered_in Q A (U(q := insert (r, t) (U q)))"
  by (auto simp: registered_in_def)

lemma lock_all_contexts_ok:
  assumes "store_ok cap arr blk U st" and "registered_in Q (insert t A) U"
    and "distinct (map lc_usage_queue cxs)" and "lc_usage_queue ` set cxs \<subseteq> Q t"
    and "t \<notin> A" and "\<forall>q \<in> lc_usage_queue ` set cxs. t \<notin> snd ` U q"
    and late: "\<forall>x \<in> A. arr x < arr t"
    and "cap = FifoQueueing \<or> inj_on (heap_id (tasks st)) (insert t A)"
    and "\<forall>x \<in> A. blk x \<longleftrightarrow> blocked_count st x \<noteq> 0"
    and small: "finite A" "card A + 1 < 2 ^ 32"
    and "\<forall>x \<in> A. unat (blocked_count st x) = card (waits_in st x)"
    and "unat cnt = card (waits_in st t)"
  shows "\<exists>cnt' st'. lock_all_contexts t cxs cnt st = Some (cnt', st') \<and>
    store_ok cap arr blk (\<lambda>q. usages_at t cxs q \<union> U q) st' \<and>
    same_tasks (tasks st) (tasks st') \<and> tasks st' t = tasks st t \<and>
    (\<forall>x. blocked_count st' x = 0 \<longleftrightarrow> blocked_count st x = 0) \<and>
    (\<forall>x \<in> A. unat (blocked_count st' x) = card (waits_in st' x)) \<and>
    unat cnt' = card (waits_in st' t)"
  using assms(1-6,8,9,12,13)
proof (induction cxs arbitrary: cnt st U)
  case Nil
  then show ?case by (simp add: usages_at_def)
next
  case (Cons cx cxs)
  let ?q = "lc_usage_queue cx" and ?r = "lc_requested_usage cx"
  let ?U = "U(?q := insert (?r, t) (U ?q))"
  note st = Cons.prems(1) and reg = Cons.prems(2)
  have wt: "waits_in (st\<lparr>tasks := h'\<rparr>) x = waits_in st x" for h' x by (simp add: waits_in_def)
  have cts: "counts_ok (insert t A) (st\<lparr>tasks := set_blocked_usage_count t cnt (tasks st)\<rparr>)"
    using waits_in_bounded [OF st reg] Cons.prems(5,9,10) by (simp add: counts_ok_def wt heap_counts)
  have tq: "t \<notin> snd ` U ?q" using Cons.prems(6) by simp
  have UA: "snd ` U ?q \<subseteq> A"
  proof
    fix x assume x: "x \<in> snd ` U ?q"
    then have "x \<in> insert t A" using reg by (auto simp: registered_in_def)
    with x tq show "x \<in> A" by blast
  qed
  have lt: "\<forall>u \<in> U ?q. arr (snd u) < arr t" using UA late by blast
  obtain cnt1 st1 where one: "lock_one_context t cx cnt st = Some (cnt1, st1)"
    and st1: "store_ok cap arr blk ?U st1" and same: "same_tasks (tasks st) (tasks st1)"
    and t1: "tasks st1 t = tasks st t" and z: "\<forall>x. blocked_count st1 x = 0 \<longleftrightarrow> blocked_count st x = 0"
    and c1: "\<forall>x \<in> A. unat (blocked_count st1 x) = card (waits_in st1 x)" "unat cnt1 = card (waits_in st1 t)"
    using lock_one_context_ok [OF st cts Cons.prems(5) tq UA lt Cons.prems(7,8) small] by blast
  have reg1: "registered_in Q (insert t A) ?U"
    using Cons.prems(4) by (intro registered_in_insert [OF reg]) auto
  have nin: "\<forall>q \<in> lc_usage_queue ` set cxs. t \<notin> snd ` ?U q"
  proof
    fix q assume q: "q \<in> lc_usage_queue ` set cxs"
    have "?q \<notin> lc_usage_queue ` set cxs" using Cons.prems(3) by simp
    with q have "q \<noteq> ?q" by blast
    then show "t \<notin> snd ` ?U q" using bspec [OF Cons.prems(6), of q] q by simp
  qed
  have "distinct (map lc_usage_queue cxs)" "lc_usage_queue ` set cxs \<subseteq> Q t"
    using Cons.prems(3,4) by auto
  moreover have "cap = FifoQueueing \<or> inj_on (heap_id (tasks st1)) (insert t A)"
    using Cons.prems(7) by (simp add: heap_id_same_tasks [OF same])
  moreover have "\<forall>x \<in> A. blk x \<longleftrightarrow> blocked_count st1 x \<noteq> 0" using Cons.prems(8) z by blast
  ultimately obtain cnt' st' where rest: "lock_all_contexts t cxs cnt1 st1 = Some (cnt', st')"
    "store_ok cap arr blk (\<lambda>q. usages_at t cxs q \<union> ?U q) st'" "same_tasks (tasks st1) (tasks st')"
    "tasks st' t = tasks st1 t" "\<forall>x. blocked_count st' x = 0 \<longleftrightarrow> blocked_count st1 x = 0"
    "\<forall>x \<in> A. unat (blocked_count st' x) = card (waits_in st' x)" "unat cnt' = card (waits_in st' t)"
    using Cons.IH [OF st1 reg1 _ _ Cons.prems(5) nin _ _ c1] by blast
  have "(\<lambda>q. usages_at t cxs q \<union> ?U q) = (\<lambda>q. usages_at t (cx # cxs) q \<union> U q)"
    by (auto simp: usages_at_Cons fun_eq_iff)
  moreover have "same_tasks (tasks st) (tasks st')" using same rest(3) by (rule same_tasks_trans)
  moreover have "lock_all_contexts t (cx # cxs) cnt st = Some (cnt', st')" using one rest(1) by simp
  ultimately show ?case using rest t1 z by (intro exI [of _ cnt'] exI [of _ st']) simp
qed

section \<open>Unlocking\<close>

lemma unlock_one_context_ok:
  fixes cx :: lock_context
  defines "q \<equiv> lc_usage_queue cx" and "r \<equiv> lc_requested_usage cx"
  assumes st: "store_ok cap arr blk U st" and reg: "registered_in Q A U"
    and mem: "(r, t) \<in> U q" and tw: "waits_in st t = {}"
    and ids: "cap = FifoQueueing \<or> inj_on (heap_id (tasks st)) A"
    and small: "finite A" "card A < 2 ^ 32"
    and cts: "\<forall>x \<in> A. unat (blocked_count st x) = card (waits_in st x)"
  shows "\<exists>gs st'. unlock_one_context t cx (ub, st) = Some (ub @ gs, st') \<and>
    store_ok cap arr blk (U(q := U q - {(r, t)})) st' \<and>
    same_tasks (tasks st) (tasks st') \<and> waits_in st' t = {} \<and>
    (\<forall>x. blocked_count st x = 0 \<longrightarrow> blocked_count st' x = 0) \<and>
    (\<forall>x \<in> A. unat (blocked_count st' x) = card (waits_in st' x)) \<and>
    distinct gs \<and> set gs = {x \<in> A. blocked_count st x \<noteq> 0 \<and> blocked_count st' x = 0}"
proof -
  let ?uq = "queues st q" and ?h = "tasks st"
  have ok: "queue_ok (heap_id ?h) arr blk (U q) ?uq" and fifo: "is_fifo ?uq \<longleftrightarrow> cap = FifoQueueing"
    using st by (auto simp: store_ok_def)
  have UA: "snd ` U q \<subseteq> A" using reg by (auto simp: registered_in_def)
  have wA: "waiters ?uq \<subseteq> A" using waiters_subset [OF ok] UA by blast
  have "inj_on snd (U q)" using ok by (simp add: queue_ok_def)
  then have "card (U q) \<le> card A" using card_mono [OF small(1) UA] by (simp add: card_image)
  then have cU: "card (U q) < 2 ^ 32" using small(2) by simp
  have pos: "blocked_count st x \<noteq> 0" if "x \<in> waiters ?uq" for x
  proof -
    have "q \<in> waits_in st x" using that by (simp add: waits_in_def)
    then have "card (waits_in st x) \<noteq> 0"
      using waits_in_bounded(1) [OF st reg, of x] wA that by (auto simp: card_eq_0_iff)
    then show ?thesis using cts wA that by (metis subsetD unat_0)
  qed
  have "t \<notin> waiters ?uq" using tw by (auto simp: waits_in_def)
  then have "(r, t) \<in> holders (U q) ?uq" by (rule holder_if_not_waiter [OF ok mem])
  moreover have "is_fifo ?uq \<or> inj_on (heap_id ?h) (snd ` U q)"
    using ids fifo UA by (auto intro: inj_on_subset)
  ultimately have "unlock_post t r ?uq ?h ub arr blk (U q)"
    using pos cU by (intro unlock_usage_queue_ok [OF ok]) auto
  then obtain us uq' where run: "unlock_usage_queue t r ?uq ?h ub =
      Some (uq', drop_counts (snd ` set us) ?h, ub @ filter (\<lambda>x. blocked_count st x = 1) (map snd us))"
    and ok': "queue_ok (heap_id ?h) arr blk (U q - {(r, t)}) uq'"
    and b: "blocked_usages ?uq = us @ blocked_usages uq'" and fifo': "is_fifo uq' = is_fifo ?uq"
    by (auto simp: unlock_post_def)
  let ?G = "snd ` set us" and ?gs = "filter (\<lambda>x. blocked_count st x = 1) (map snd us)"
  let ?st = "st\<lparr>queues := (queues st)(q := uq'), tasks := drop_counts ?G ?h\<rparr>"
  have dist: "distinct (map snd (blocked_usages ?uq))"
    using ok sorted_wrt_distinct_snd unfolding queue_ok_def by blast
  have w: "waiters ?uq = ?G \<union> waiters uq'" "?G \<inter> waiters uq' = {}"
    using dist unfolding waiters_def b by (auto simp: image_Un)
  have GA: "?G \<subseteq> A" using w(1) wA by blast
  have wx: "waits_in ?st x = (if x \<in> ?G then waits_in st x - {q} else waits_in st x)" for x
    using w by (auto simp: waits_in_update waits_in_def)
  have qG: "q \<in> waits_in st x" if "x \<in> ?G" for x using w(1) that by (auto simp: waits_in_def)
  have Gpos: "blocked_count st x \<noteq> 0" if "x \<in> ?G" for x using pos w(1) that by blast
  have "unat (blocked_count ?st x) = card (waits_in ?st x)" if "x \<in> A" for x
  proof (cases "x \<in> ?G")
    case True
    then show ?thesis
      using cts that wx [of x] qG [OF True] Gpos [OF True] waits_in_bounded(1) [OF st reg that]
      by (simp add: heap_counts unat_dec32 card_Diff_singleton)
  qed (use cts that wx in \<open>simp add: heap_counts\<close>)
  moreover have "set ?gs = {x \<in> A. blocked_count st x \<noteq> 0 \<and> blocked_count ?st x = 0}"
    using GA by (auto simp: heap_counts)
  moreover have "distinct ?gs" using dist b by simp
  moreover have "blocked_count st x = 0 \<longrightarrow> blocked_count ?st x = 0" for x
    using Gpos by (auto simp: heap_counts)
  moreover have "store_ok cap arr blk (U(q := U q - {(r, t)})) ?st"
    by (rule store_ok_update [OF st _ fifo' ok']) simp
  moreover have "waits_in ?st t = {}" using tw wx by auto
  moreover have "unlock_one_context t cx (ub, st) = Some (ub @ ?gs, ?st)"
    using run by (simp add: unlock_one_context_def q_def r_def Let_def)
  moreover have "same_tasks (tasks st) (tasks ?st)" by simp
  ultimately show ?thesis by (intro exI [of _ ?gs] exI [of _ ?st]) blast
qed

lemma registered_in_remove:
  "registered_in Q A U \<Longrightarrow> registered_in Q A (U(q := U q - V))"
  by (auto simp: registered_in_def)

lemma unlock_all_contexts_ok:
  assumes "store_ok cap arr blk U st" and "registered_in Q A U"
    and "distinct (map lc_usage_queue cxs)"
    and "\<forall>q. usages_at t cxs q \<subseteq> U q" and "waits_in st t = {}"
    and "cap = FifoQueueing \<or> inj_on (heap_id (tasks st)) A"
    and small: "finite A" "card A < 2 ^ 32"
    and "\<forall>x \<in> A. unat (blocked_count st x) = card (waits_in st x)"
  shows "\<exists>gs st'. unlock_all_contexts t cxs (ub, st) = Some (ub @ gs, st') \<and>
    store_ok cap arr blk (\<lambda>q. U q - usages_at t cxs q) st' \<and>
    same_tasks (tasks st) (tasks st') \<and> waits_in st' t = {} \<and>
    (\<forall>x. blocked_count st x = 0 \<longrightarrow> blocked_count st' x = 0) \<and>
    (\<forall>x \<in> A. unat (blocked_count st' x) = card (waits_in st' x)) \<and>
    distinct gs \<and> set gs = {x \<in> A. blocked_count st x \<noteq> 0 \<and> blocked_count st' x = 0}"
  using assms(1-6,9)
proof (induction cxs arbitrary: ub st U)
  case Nil
  then show ?case by (intro exI [of _ "[]"] exI [of _ st]) (simp add: usages_at_def)
next
  case (Cons cx cxs)
  let ?q = "lc_usage_queue cx" and ?r = "lc_requested_usage cx"
  let ?U = "U(?q := U ?q - {(?r, t)})"
  note st = Cons.prems(1) and reg = Cons.prems(2)
  have "(?r, t) \<in> usages_at t (cx # cxs) ?q" by (simp add: usages_at_Cons)
  then have mem: "(?r, t) \<in> U ?q" using Cons.prems(4) by blast
  obtain gs1 st1 where one: "unlock_one_context t cx (ub, st) = Some (ub @ gs1, st1)"
    and st1: "store_ok cap arr blk ?U st1" and same: "same_tasks (tasks st) (tasks st1)"
    and tw: "waits_in st1 t = {}" and z: "\<forall>x. blocked_count st x = 0 \<longrightarrow> blocked_count st1 x = 0"
    and c1: "\<forall>x \<in> A. unat (blocked_count st1 x) = card (waits_in st1 x)"
    and g1: "distinct gs1" "set gs1 = {x \<in> A. blocked_count st x \<noteq> 0 \<and> blocked_count st1 x = 0}"
    using unlock_one_context_ok [OF st reg mem Cons.prems(5,6) small Cons.prems(7), of ub] by blast
  have nq: "usages_at t cxs ?q = {}" using Cons.prems(3) by (simp add: usages_at_empty_iff)
  have reg1: "registered_in Q A ?U" by (rule registered_in_remove [OF reg])
  have sub1: "\<forall>q. usages_at t cxs q \<subseteq> ?U q"
  proof
    fix q
    have "usages_at t cxs q \<subseteq> U q" using Cons.prems(4) by (auto simp: usages_at_Cons split: if_splits)
    then show "usages_at t cxs q \<subseteq> ?U q" using nq by (cases "q = ?q") auto
  qed
  have d1: "distinct (map lc_usage_queue cxs)" using Cons.prems(3) by simp
  have i1: "cap = FifoQueueing \<or> inj_on (heap_id (tasks st1)) A"
    using Cons.prems(6) by (simp add: heap_id_same_tasks [OF same])
  obtain gs' st' where rest: "unlock_all_contexts t cxs (ub @ gs1, st1) = Some ((ub @ gs1) @ gs', st')"
    "store_ok cap arr blk (\<lambda>q. ?U q - usages_at t cxs q) st'" "same_tasks (tasks st1) (tasks st')"
    "waits_in st' t = {}" "\<forall>x. blocked_count st1 x = 0 \<longrightarrow> blocked_count st' x = 0"
    "\<forall>x \<in> A. unat (blocked_count st' x) = card (waits_in st' x)" "distinct gs'"
    "set gs' = {x \<in> A. blocked_count st1 x \<noteq> 0 \<and> blocked_count st' x = 0}"
    using Cons.IH [OF st1 reg1 d1 sub1 tw i1 c1, of "ub @ gs1"] by blast
  have "(\<lambda>q. ?U q - usages_at t cxs q) = (\<lambda>q. U q - usages_at t (cx # cxs) q)"
    by (auto simp: usages_at_Cons fun_eq_iff)
  moreover have "same_tasks (tasks st) (tasks st')" using same rest(3) by (rule same_tasks_trans)
  moreover have "unlock_all_contexts t (cx # cxs) (ub, st) = Some (ub @ gs1 @ gs', st')" using one rest(1) by simp
  moreover have "distinct (gs1 @ gs')" using g1 rest(7,8) by auto
  moreover have "set (gs1 @ gs') = {x \<in> A. blocked_count st x \<noteq> 0 \<and> blocked_count st' x = 0}"
    using g1(2) rest(5,8) z by auto
  ultimately show ?case using rest z by (intro exI [of _ "gs1 @ gs'"] exI [of _ st']) simp
qed

end
