(* ===== verification/Scheduler_Inv.thy ===== *)
theory Scheduler_Inv
  imports Scheduler_Loops
begin

text \<open>
  The scheduler as a transition system: the state machine, the store of queues and tasks, and
  what its caller holds. A step is one call of the public interface, made as its documentation
  demands: a task is scheduled once, with lock contexts on distinct queues (and, for priority
  queueing, a task id of its own), and descheduled once after it was handed out. The invariant
  holds in every reachable state, and from it no call panics while the 32-bit counters suffice.
\<close>

section \<open>The invariant of the store between calls\<close>

definition task_ok :: "'tx task_inner \<Rightarrow> bool" where
  "task_ok task \<longleftrightarrow> distinct (map lc_usage_queue (lock_contexts task)) \<and>
     length (lock_contexts task) + 1 < 2 ^ 32"

definition store_inv :: "capability \<Rightarrow> (task_ref \<Rightarrow> nat) \<Rightarrow> task_ref set \<Rightarrow> 'tx store \<Rightarrow> bool" where
  "store_inv cap arr A st \<longleftrightarrow>
     finite A \<and> (\<forall>t \<in> A. task_ok (tasks st t)) \<and>
     (cap = PriorityQueueing \<longrightarrow> inj_on (heap_id (tasks st)) A) \<and>
     store_ok cap arr (\<lambda>x. blocked_count st x \<noteq> 0) (users (tasks st) A) st \<and>
     (\<forall>x \<in> A. unat (blocked_count st x) = card (waits_in st x))"

lemma store_invD:
  assumes "store_inv cap arr A st"
  shows "finite A" and "\<And>t. t \<in> A \<Longrightarrow> task_ok (tasks st t)"
    and "cap = FifoQueueing \<or> inj_on (heap_id (tasks st)) A"
    and "store_ok cap arr (\<lambda>x. blocked_count st x \<noteq> 0) (users (tasks st) A) st"
    and "\<forall>x \<in> A. unat (blocked_count st x) = card (waits_in st x)"
  using assms capability.exhaust [of cap] unfolding store_inv_def by blast+

lemma mem_usages_at_queue: "u \<in> usages_at t cxs q \<Longrightarrow> q \<in> lc_usage_queue ` set cxs"
  using usages_at_empty_iff by blast

lemma registered_in_users:
  assumes "\<And>t. t \<in> A \<Longrightarrow> task_ok (h t)"
  shows "registered_in (\<lambda>x. queue_set (h x)) A (users h A)"
  unfolding registered_in_def
proof (intro conjI allI ballI)
  fix q u assume "u \<in> users h A q"
  then obtain t where t: "t \<in> A" "u \<in> usages_at t (lock_contexts (h t)) q" by (auto simp: users_def)
  moreover have "snd u = t" using t(2) by (auto simp: usages_at_def)
  ultimately show "snd u \<in> A" "q \<in> queue_set (h (snd u))"
    using mem_usages_at_queue by (auto simp: queue_set_def)
next
  fix x assume x: "x \<in> A"
  show "finite (queue_set (h x))" by (simp add: queue_set_def)
  have "card (queue_set (h x)) \<le> length (lock_contexts (h x))"
    using card_length [of "map lc_usage_queue (lock_contexts (h x))"] by (simp add: queue_set_def)
  then show "card (queue_set (h x)) + 1 < 2 ^ 32" using assms [OF x] by (simp add: task_ok_def)
qed

lemma task_ok_same: "same_tasks h h' \<Longrightarrow> task_ok (h' x) = task_ok (h x)"
  by (simp add: task_ok_def same_tasksD)

lemma store_inv_empty: "(\<And>q. queues st q = usage_queue_new cap) \<Longrightarrow> store_inv cap arr {} st"
  using queue_ok_new [of "heap_id (tasks st)" arr "\<lambda>x. blocked_count st x \<noteq> 0" cap]
  by (cases cap) (auto simp: store_inv_def store_ok_def users_def with_fifo_def with_priority_def)

lemma try_lock_usage_queues_ok:
  assumes inv: "store_inv cap arr A st" and small: "card A + 1 < 2 ^ 32" and t: "t \<notin> A"
    and task: "task_ok (tasks st t)" and zero: "blocked_count st t = 0"
    and ids: "cap = PriorityQueueing \<Longrightarrow> task_id (tasks st t) \<notin> heap_id (tasks st) ` A"
    and late: "\<forall>x \<in> A. arr x < c"
  shows "\<exists>res st'. try_lock_usage_queues t st = Some (res, st') \<and>
    store_inv cap (arr(t := c)) (insert t A) st' \<and> same_tasks (tasks st) (tasks st') \<and>
    (\<forall>x \<in> A. blocked_count st' x = 0 \<longleftrightarrow> blocked_count st x = 0) \<and>
    res = (if blocked_count st' t = 0 then Some t else None)"
proof -
  let ?arr = "arr(t := c)" and ?U = "users (tasks st) A" and ?cxs = "lock_contexts (tasks st t)"
  let ?blk = "\<lambda>x. x = t \<or> blocked_count st x \<noteq> 0" and ?Q = "\<lambda>x. queue_set (tasks st x)"
  note invD = store_invD [OF inv]
  have tU: "t \<notin> snd ` ?U q" for q using snd_users [of "tasks st" A q] t by blast
  have "store_ok cap ?arr (\<lambda>x. blocked_count st x \<noteq> 0) ?U st"
    by (rule store_ok_cong [OF invD(4)]) (use tU in auto)
  then have st: "store_ok cap ?arr ?blk ?U st"
    by (rule store_ok_antimono) (use tU in blast)
  have regI: "registered_in ?Q (insert t A) (users (tasks st) (insert t A))"
    using invD(2) task by (intro registered_in_users) auto
  then have reg: "registered_in ?Q (insert t A) ?U"
    by (auto simp: registered_in_def users_insert)
  have waits: "waits_in st t = {}" using waits_in_subset [OF invD(4), of t] tU by auto
  have idsI: "cap = FifoQueueing \<or> inj_on (heap_id (tasks st)) (insert t A)"
    using invD(3) ids t by (cases cap) (auto simp: inj_on_insert)
  have late': "\<forall>x \<in> A. ?arr x < ?arr t" using late t by auto
  have blk: "\<forall>x \<in> A. ?blk x \<longleftrightarrow> blocked_count st x \<noteq> 0" using t by auto
  have dist: "distinct (map lc_usage_queue ?cxs)" using task by (simp add: task_ok_def)
  have Qt: "lc_usage_queue ` set ?cxs \<subseteq> ?Q t" by (simp add: queue_set_def)
  have nin: "\<forall>q \<in> lc_usage_queue ` set ?cxs. t \<notin> snd ` ?U q" using tU by blast
  have zc: "unat (sc_zero) = card (waits_in st t)" by (simp add: waits sc_zero_def)
  obtain cnt st' where run: "lock_all_contexts t ?cxs sc_zero st = Some (cnt, st')"
    and st': "store_ok cap ?arr ?blk (\<lambda>q. usages_at t ?cxs q \<union> ?U q) st'"
    and same: "same_tasks (tasks st) (tasks st')" and same_t: "tasks st' t = tasks st t"
    and z: "\<forall>x. blocked_count st' x = 0 \<longleftrightarrow> blocked_count st x = 0"
    and cts: "\<forall>x \<in> A. unat (blocked_count st' x) = card (waits_in st' x)"
    and ct: "unat cnt = card (waits_in st' t)"
    using lock_all_contexts_ok [OF st reg dist Qt t nin late' idsI blk invD(1) small invD(5) zc] by blast
  define h where "h = set_blocked_usage_count t cnt (tasks st')"
  let ?st = "st'\<lparr>tasks := h\<rparr>"
  have "(if sc_is_zero cnt then (Some t, st') else (None, ?st)) = (if cnt = 0 then Some t else None, ?st)"
  proof (cases "cnt = 0")
    case True
    have "h = tasks st'"
      using True zero same_t by (auto simp: h_def set_blocked_usage_count_def fun_eq_iff)
    with True show ?thesis by (simp add: sc_is_zero_def)
  qed (simp add: sc_is_zero_def)
  then have res: "try_lock_usage_queues t st = Some (if cnt = 0 then Some t else None, ?st)"
    using run by (simp only: try_lock_usage_queues_def h_def bind.bind_lunit split)
  have same_h: "same_tasks (tasks st) h"
    unfolding h_def by (rule same_tasks_trans [OF same]) simp
  have cth: "blocked_count ?st t = cnt" "x \<noteq> t \<Longrightarrow> blocked_count ?st x = blocked_count st' x" for x
    by (simp_all add: h_def heap_counts)
  have wh: "waits_in ?st x = waits_in st' x" for x by (simp add: waits_in_def)
  have Ueq: "users h (insert t A) = (\<lambda>q. usages_at t ?cxs q \<union> ?U q)"
    by (simp add: fun_eq_iff users_same_tasks [OF same_h] users_insert same_tasksD(2) [OF same_h])
  have "store_ok cap ?arr ?blk (users h (insert t A)) ?st"
    unfolding Ueq by (rule store_ok_tasks [OF st']) (simp add: h_def)
  moreover have zh: "blocked_count ?st x = 0 \<longleftrightarrow> blocked_count st x = 0" if "x \<noteq> t" for x
    using z cth(2) [OF that] by simp
  ultimately have "store_ok cap ?arr (\<lambda>x. blocked_count ?st x \<noteq> 0) (users h (insert t A)) ?st"
    by (elim store_ok_antimono) blast
  moreover have "\<forall>x \<in> insert t A. unat (blocked_count ?st x) = card (waits_in ?st x)"
  proof
    fix x assume "x \<in> insert t A"
    then show "unat (blocked_count ?st x) = card (waits_in ?st x)"
      using cts ct cth t unfolding wh by (cases "x = t") simp_all
  qed
  moreover have "\<forall>x \<in> insert t A. task_ok (h x)"
    using invD(2) task by (simp add: task_ok_same [OF same_h])
  moreover have "cap = PriorityQueueing \<longrightarrow> inj_on (heap_id h) (insert t A)"
    using idsI by (auto simp: heap_id_same_tasks [OF same_h])
  ultimately have "store_inv cap ?arr (insert t A) ?st" using invD(1) by (simp add: store_inv_def)
  moreover have "\<forall>x \<in> A. blocked_count ?st x = 0 \<longleftrightarrow> blocked_count st x = 0"
    by (intro ballI zh) (use t in auto)
  moreover have "(if cnt = 0 then Some t else None) = (if blocked_count ?st t = 0 then Some t else None)"
    using cth by simp
  ultimately show ?thesis using res same_h
    by (intro exI [of _ "if cnt = 0 then Some t else None"] exI [of _ ?st]) simp
qed

lemma unlock_store_ok:
  assumes inv: "store_inv cap arr A st" and small: "card A < 2 ^ 32"
    and t: "t \<in> A" "blocked_count st t = 0"
  shows "\<exists>gs st'. unlock_all_contexts t (lock_contexts (tasks st t)) (ub, st) = Some (ub @ gs, st') \<and>
    store_inv cap arr (A - {t}) st' \<and> same_tasks (tasks st) (tasks st') \<and>
    (\<forall>x. blocked_count st x = 0 \<longrightarrow> blocked_count st' x = 0) \<and>
    distinct gs \<and> set gs = {x \<in> A. blocked_count st x \<noteq> 0 \<and> blocked_count st' x = 0}"
proof -
  let ?U = "users (tasks st) A" and ?cxs = "lock_contexts (tasks st t)"
  let ?blk = "\<lambda>x. blocked_count st x \<noteq> 0"
  note invD = store_invD [OF inv]
  have reg: "registered_in (\<lambda>x. queue_set (tasks st x)) A ?U" using invD(2) by (rule registered_in_users)
  have dist: "distinct (map lc_usage_queue ?cxs)" using invD(2) t(1) by (simp add: task_ok_def)
  have sub: "\<forall>q. usages_at t ?cxs q \<subseteq> ?U q" using t(1) by (auto simp: users_def)
  have "card (waits_in st t) = 0" using invD(5) t by (metis unat_0)
  then have tw: "waits_in st t = {}" using waits_in_bounded(1) [OF invD(4) reg t(1)] by simp
  obtain gs st' where run: "unlock_all_contexts t ?cxs (ub, st) = Some (ub @ gs, st')"
    and st': "store_ok cap arr ?blk (\<lambda>q. ?U q - usages_at t ?cxs q) st'"
    and same: "same_tasks (tasks st) (tasks st')"
    and z: "\<forall>x. blocked_count st x = 0 \<longrightarrow> blocked_count st' x = 0"
    and cts: "\<forall>x \<in> A. unat (blocked_count st' x) = card (waits_in st' x)"
    and gs: "distinct gs" "set gs = {x \<in> A. blocked_count st x \<noteq> 0 \<and> blocked_count st' x = 0}"
    using unlock_all_contexts_ok [OF invD(4) reg dist sub tw invD(3,1) small invD(5), of ub] by blast
  have "?U q - usages_at t ?cxs q = users (tasks st) (A - {t}) q" for q
  proof -
    have "users (tasks st) A q = usages_at t ?cxs q \<union> users (tasks st) (A - {t}) q"
      using users_insert [of "tasks st" t "A - {t}" q] t(1) by (simp add: insert_absorb)
    moreover have "usages_at t ?cxs q \<inter> users (tasks st) (A - {t}) q = {}"
      using snd_usages_at [of t ?cxs q] snd_users [of "tasks st" "A - {t}" q] by blast
    ultimately show ?thesis by blast
  qed
  then have U': "(\<lambda>q. ?U q - usages_at t ?cxs q) = users (tasks st') (A - {t})"
    by (simp add: fun_eq_iff users_same_tasks [OF same])
  have "store_ok cap arr (\<lambda>x. blocked_count st' x \<noteq> 0) (users (tasks st') (A - {t})) st'"
    by (rule store_ok_antimono [OF st' [unfolded U']]) (use z in blast)
  then have "store_inv cap arr (A - {t}) st'"
    using invD(1,2,3) cts unfolding store_inv_def
    by (auto simp: task_ok_same [OF same] heap_id_same_tasks [OF same] intro: inj_on_subset)
  with run same z gs show ?thesis by blast
qed

section \<open>The scheduler and its caller\<close>

record 'tx sys =
  machine :: state_machine
  mem :: "'tx store"
  active :: "task_ref list"
  running :: "task_ref list"
  arrival :: "task_ref \<Rightarrow> nat"
  clock :: nat

text \<open>\<open>active\<close> are the tasks scheduled and not yet descheduled, in order of arrival; \<open>running\<close>
  those that were handed to the caller. Both belong to the caller: the state machine itself
  keeps only their numbers.\<close>

definition runnable :: "'tx sys \<Rightarrow> task_ref set" where
  "runnable s = {t \<in> set (active s). blocked_count (mem s) t = 0}"

definition counters_ok :: "'tx sys \<Rightarrow> bool" where
  "counters_ok s \<longleftrightarrow>
     unat (active_task_count (machine s)) = length (active s) \<and>
     unat (running_task_count (machine s)) = length (running s) \<and>
     unat (handled_task_count (machine s)) + length (active s) = unat (total_task_count (machine s)) \<and>
     unat (unblocked_task_count (machine s)) \<le> 2 * unat (handled_task_count (machine s)) +
       2 * length (running s) + length (unblocked_task_queue (machine s)) \<and>
     length (running s) \<le> unat (max_running_task_count (machine s))"

definition sched_inv :: "capability \<Rightarrow> 'tx sys \<Rightarrow> bool" where
  "sched_inv cap s \<longleftrightarrow>
     store_inv cap (arrival s) (set (active s)) (mem s) \<and>
     (\<forall>t \<in> set (active s). arrival s t < clock s) \<and>
     distinct (active s) \<and> distinct (running s @ unblocked_task_queue (machine s)) \<and>
     set (running s) \<union> set (unblocked_task_queue (machine s)) = runnable s \<and>
     counters_ok s"

definition init_sys :: "capability \<Rightarrow> state_machine \<Rightarrow> 'tx task_heap \<Rightarrow> 'tx sys" where
  "init_sys cap sm h = \<lparr>machine = sm, mem = \<lparr>queues = (\<lambda>_. usage_queue_new cap), tasks = h\<rparr>,
     active = [], running = [], arrival = (\<lambda>_. 0), clock = 0\<rparr>"

text \<open>What the documentation asks of a task that is about to be scheduled.\<close>

definition schedulable :: "capability \<Rightarrow> 'tx sys \<Rightarrow> task_ref \<Rightarrow> bool" where
  "schedulable cap s t \<longleftrightarrow> t \<notin> set (active s) \<and> task_ok (tasks (mem s) t) \<and>
     blocked_count (mem s) t = 0 \<and>
     (cap = PriorityQueueing \<longrightarrow> task_id (tasks (mem s) t) \<notin> heap_id (tasks (mem s)) ` set (active s))"

definition scheduled :: "'tx sys \<Rightarrow> task_ref \<Rightarrow> task_ref option \<times> state_machine \<times> 'tx store \<Rightarrow> 'tx sys" where
  "scheduled s t = (\<lambda>(res, sm, st). \<lparr>machine = sm, mem = st, active = active s @ [t],
     running = (case res of None \<Rightarrow> running s | Some t' \<Rightarrow> running s @ [t']),
     arrival = (arrival s)(t := clock s), clock = Suc (clock s)\<rparr>)"

definition picked :: "'tx sys \<Rightarrow> task_ref option \<times> state_machine \<Rightarrow> 'tx sys" where
  "picked s = (\<lambda>(res, sm). s\<lparr>machine := sm,
     running := (case res of None \<Rightarrow> running s | Some t \<Rightarrow> running s @ [t])\<rparr>)"

definition descheduled :: "'tx sys \<Rightarrow> task_ref \<Rightarrow> state_machine \<times> 'tx store \<Rightarrow> 'tx sys" where
  "descheduled s t = (\<lambda>(sm, st). s\<lparr>machine := sm, mem := st, active := remove1 t (active s),
     running := remove1 t (running s)\<rparr>)"

inductive sched_step :: "capability \<Rightarrow> 'tx sys \<Rightarrow> 'tx sys \<Rightarrow> bool" for cap where
  create: "t \<notin> set (active s) \<Longrightarrow>
     sched_step cap s (s\<lparr>mem := (mem s)\<lparr>tasks := (tasks (mem s))(t := task)\<rparr>\<rparr>)"
| schedule: "schedulable cap s t \<Longrightarrow>
     schedule_or_buffer_task t force_buffering (machine s, mem s) = Some r \<Longrightarrow>
     sched_step cap s (scheduled s t r)"
| pick: "schedule_next_unblocked_task (machine s) = Some r \<Longrightarrow> sched_step cap s (picked s r)"
| deschedule: "t \<in> set (running s) \<Longrightarrow> deschedule_task t (machine s, mem s) = Some r \<Longrightarrow>
     sched_step cap s (descheduled s t r)"
| rewind: "reinitialize (machine s) = Some sm \<Longrightarrow> sched_step cap s (s\<lparr>machine := sm\<rparr>)"

inductive sched_reachable :: "capability \<Rightarrow> 'tx sys \<Rightarrow> bool" for cap where
  init: "exclusively_initialize_current_thread_for_scheduling m = Some sm \<Longrightarrow>
     sched_reachable cap (init_sys cap sm h)"
| step: "sched_reachable cap s \<Longrightarrow> sched_step cap s s' \<Longrightarrow> sched_reachable cap s'"

inductive_cases sched_step_cases: "sched_step cap s s'"

section \<open>Every call keeps the invariant\<close>

lemma sc_increment_D: "sc_increment c = Some d \<Longrightarrow> unat d = unat c + 1 \<and> unat c + 1 < 2 ^ 32"
  using unat_inc32 [of c] by (auto simp: sc_increment_def checked_add_def split: if_splits)

lemma sc_decrement_D: "sc_decrement c = Some d \<Longrightarrow> 0 < unat c \<and> unat d = unat c - 1"
  using unat_dec32 [of c]
  by (cases "c = 0") (auto simp: sc_decrement_def checked_sub_def unat_gt_0 split: if_splits)

lemma sched_inv_init:
  assumes "exclusively_initialize_current_thread_for_scheduling m = Some sm"
  shows "sched_inv cap (init_sys cap sm h)"
proof -
  have "store_inv cap (\<lambda>_. 0) {} (\<lparr>queues = (\<lambda>_. usage_queue_new cap), tasks = h\<rparr> :: 'a store)"
    by (rule store_inv_empty) simp
  moreover have "active_task_count sm = 0 \<and> running_task_count sm = 0 \<and> handled_task_count sm = 0 \<and>
      total_task_count sm = 0 \<and> unblocked_task_count sm = 0 \<and> unblocked_task_queue sm = []"
    using assms by (auto simp: exclusively_initialize_current_thread_for_scheduling_def
        assert_that_bind sc_zero_def Let_def split: if_splits)
  ultimately show ?thesis
    by (simp add: sched_inv_def init_sys_def runnable_def counters_ok_def)
qed

lemma sched_inv_create:
  assumes inv: "sched_inv cap s" and t: "t \<notin> set (active s)"
  shows "sched_inv cap (s\<lparr>mem := (mem s)\<lparr>tasks := (tasks (mem s))(t := task)\<rparr>\<rparr>)"
proof -
  let ?st = "mem s" and ?A = "set (active s)"
  let ?st' = "?st\<lparr>tasks := (tasks ?st)(t := task)\<rparr>"
  have inv': "store_inv cap (arrival s) ?A ?st" using inv by (simp add: sched_inv_def)
  note invD = store_invD [OF inv']
  have eq: "tasks ?st' x = tasks ?st x" if "x \<in> ?A" for x using that t by auto
  have U: "users (tasks ?st') ?A = users (tasks ?st) ?A"
    using eq by (auto simp: users_def fun_eq_iff)
  have UA: "x \<in> ?A" if "x \<in> snd ` users (tasks ?st) ?A q" for x q
    using that snd_users by blast
  have "store_ok cap (arrival s) (\<lambda>x. blocked_count ?st x \<noteq> 0) (users (tasks ?st) ?A) ?st'"
    by (rule store_ok_cong [OF invD(4)]) (use eq UA in \<open>auto\<close>)
  then have "store_ok cap (arrival s) (\<lambda>x. blocked_count ?st' x \<noteq> 0) (users (tasks ?st') ?A) ?st'"
    unfolding U by (rule store_ok_antimono) (use eq UA in fastforce)
  moreover have "inj_on (heap_id (tasks ?st')) ?A = inj_on (heap_id (tasks ?st)) ?A"
    using eq by (intro inj_on_cong) simp
  moreover have "waits_in ?st' x = waits_in ?st x" for x by (simp add: waits_in_def)
  ultimately have "store_inv cap (arrival s) ?A ?st'"
    using inv' eq unfolding store_inv_def by simp
  moreover have "runnable (s\<lparr>mem := ?st'\<rparr>) = runnable s" using t by (auto simp: runnable_def)
  ultimately show ?thesis using inv by (simp add: sched_inv_def counters_ok_def)
qed

lemma active_length: "sched_inv cap s \<Longrightarrow> card (set (active s)) = length (active s)"
  by (simp add: sched_inv_def distinct_card)

lemma running_bound:
  assumes "sched_inv cap s"
  shows "length (running s) + length (unblocked_task_queue (machine s)) \<le> length (active s)"
proof -
  have "set (running s @ unblocked_task_queue (machine s)) \<subseteq> set (active s)"
    using assms by (auto simp: sched_inv_def runnable_def)
  then have "card (set (running s @ unblocked_task_queue (machine s))) \<le> card (set (active s))"
    by (intro card_mono) simp_all
  moreover have "distinct (running s @ unblocked_task_queue (machine s))"
    using assms by (simp add: sched_inv_def)
  ultimately show ?thesis
    using active_length [OF assms] distinct_card by (metis length_append)
qed

text \<open>The locking part of a scheduling call, at the level of the system.\<close>

lemma schedule_locks:
  assumes inv: "sched_inv cap s" and sch: "schedulable cap s t" and small: "length (active s) + 1 < 2 ^ 32"
  obtains res st where "try_lock_usage_queues t (mem s) = Some (res, st)"
    and "store_inv cap ((arrival s)(t := clock s)) (insert t (set (active s))) st"
    and "\<And>x. x \<in> set (active s) \<Longrightarrow> blocked_count st x = 0 \<longleftrightarrow> blocked_count (mem s) x = 0"
    and "res = (if blocked_count st t = 0 then Some t else None)"
proof -
  have "store_inv cap (arrival s) (set (active s)) (mem s)" "\<forall>x \<in> set (active s). arrival s x < clock s"
    using inv by (simp_all add: sched_inv_def)
  moreover have "card (set (active s)) + 1 < 2 ^ 32" using small active_length [OF inv] by simp
  moreover have "t \<notin> set (active s)" "task_ok (tasks (mem s) t)" "blocked_count (mem s) t = 0"
    "cap = PriorityQueueing \<Longrightarrow> task_id (tasks (mem s) t) \<notin> heap_id (tasks (mem s)) ` set (active s)"
    using sch by (simp_all add: schedulable_def)
  ultimately show thesis
    using try_lock_usage_queues_ok [of cap "arrival s" "set (active s)" "mem s" t "clock s"] that by blast
qed

lemma sched_inv_schedule:
  assumes inv: "sched_inv cap s" and sch: "schedulable cap s t"
    and call: "schedule_or_buffer_task t force_buffering (machine s, mem s) = Some r"
  shows "sched_inv cap (scheduled s t r)"
proof -
  let ?sm = "machine s" and ?A = "set (active s)"
  obtain total act where cnt: "sc_increment (total_task_count ?sm) = Some total"
    "sc_increment (active_task_count ?sm) = Some act"
    using call by (auto simp: schedule_or_buffer_task_def bind_eq_Some_conv)
  note cD = sc_increment_D [OF cnt(1)] sc_increment_D [OF cnt(2)]
  have cok: "counters_ok s" and tA: "t \<notin> ?A" using inv sch by (simp_all add: sched_inv_def schedulable_def)
  then have "length (active s) + 1 < 2 ^ 32" using cD by (simp add: counters_ok_def)
  then obtain res st where lk: "try_lock_usage_queues t (mem s) = Some (res, st)"
    and st: "store_inv cap ((arrival s)(t := clock s)) (insert t ?A) st"
    and z: "\<And>x. x \<in> ?A \<Longrightarrow> blocked_count st x = 0 \<longleftrightarrow> blocked_count (mem s) x = 0"
    and res: "res = (if blocked_count st t = 0 then Some t else None)"
    using schedule_locks [OF inv sch] by metis
  let ?sm1 = "?sm\<lparr>total_task_count := total, active_task_count := act\<rparr>"
  have rn: "{x \<in> insert t ?A. blocked_count st x = 0} = runnable s \<union> (if blocked_count st t = 0 then {t} else {})"
    using z by (auto simp: runnable_def)
  have tr: "t \<notin> set (running s)" "t \<notin> set (unblocked_task_queue ?sm)"
    using tA inv by (auto simp: sched_inv_def runnable_def)
  have arr: "\<forall>x \<in> insert t ?A. ((arrival s)(t := clock s)) x < Suc (clock s)"
    using inv by (auto simp: sched_inv_def less_Suc_eq)
  have base: "distinct (active s)" "distinct (running s @ unblocked_task_queue ?sm)"
    "set (running s) \<union> set (unblocked_task_queue ?sm) = runnable s"
    using inv by (simp_all add: sched_inv_def)
  consider (blocked) "blocked_count st t \<noteq> 0" "r = (None, ?sm1, st)"
    | (buffered) n where "blocked_count st t = 0" "sc_increment (unblocked_task_count ?sm) = Some n"
        "r = (None, ?sm1\<lparr>unblocked_task_count := n,
                unblocked_task_queue := unblocked_task_queue ?sm @ [t]\<rparr>, st)"
    | (run) n where "blocked_count st t = 0" "sc_increment (running_task_count ?sm) = Some n"
        "running_task_count ?sm < max_running_task_count ?sm"
        "r = (Some t, ?sm1\<lparr>running_task_count := n\<rparr>, st)"
    using call cnt lk res
    by (auto simp: schedule_or_buffer_task_def bind_eq_Some_conv is_task_runnable_def Let_def split: if_splits)
  then show ?thesis
  proof cases
    case blocked
    with st arr base tA cok cD rn show ?thesis
      by (simp add: scheduled_def sched_inv_def runnable_def counters_ok_def)
  next
    case buffered
    from sc_increment_D [OF buffered(2)] buffered st arr base tA cok cD rn tr show ?thesis
      by (simp add: scheduled_def sched_inv_def runnable_def counters_ok_def Un_commute insert_commute)
  next
    case run
    from sc_increment_D [OF run(2)] run st arr base tA cok cD rn tr show ?thesis
      by (simp add: scheduled_def sched_inv_def runnable_def counters_ok_def word_less_nat_alt)
  qed
qed

lemma sched_inv_pick:
  assumes inv: "sched_inv cap s" and call: "schedule_next_unblocked_task (machine s) = Some r"
  shows "sched_inv cap (picked s r)"
proof -
  let ?sm = "machine s"
  consider (none) "r = (None, ?sm)"
    | (some) t ts n m where "unblocked_task_queue ?sm = t # ts" "running_task_count ?sm < max_running_task_count ?sm"
        "sc_increment (running_task_count ?sm) = Some n" "sc_increment (unblocked_task_count ?sm) = Some m"
        "r = (Some t, ?sm\<lparr>unblocked_task_queue := ts, running_task_count := n, unblocked_task_count := m\<rparr>)"
    using call by (auto simp: schedule_next_unblocked_task_def bind_eq_Some_conv is_task_runnable_def
        split: if_splits list.splits)
  then show ?thesis
  proof cases
    case none
    with inv show ?thesis by (simp add: picked_def)
  next
    case some
    from sc_increment_D [OF some(3)] sc_increment_D [OF some(4)] some inv show ?thesis
      by (simp add: picked_def sched_inv_def runnable_def counters_ok_def word_less_nat_alt)
  qed
qed

lemma sched_inv_deschedule:
  assumes inv: "sched_inv cap s" and t: "t \<in> set (running s)"
    and call: "deschedule_task t (machine s, mem s) = Some r"
  shows "sched_inv cap (descheduled s t r)"
proof -
  let ?sm = "machine s" and ?A = "set (active s)" and ?ub = "unblocked_task_queue (machine s)"
  obtain rn act hd where cnt: "sc_decrement (running_task_count ?sm) = Some rn"
    "sc_decrement (active_task_count ?sm) = Some act" "sc_increment (handled_task_count ?sm) = Some hd"
    using call by (auto simp: deschedule_task_def bind_eq_Some_conv)
  note cD = sc_decrement_D [OF cnt(1)] sc_decrement_D [OF cnt(2)] sc_increment_D [OF cnt(3)]
  have cok: "counters_ok s" and st: "store_inv cap (arrival s) ?A (mem s)"
    and base: "distinct (active s)" "distinct (running s @ ?ub)" "set (running s) \<union> set ?ub = runnable s"
    and arr: "\<forall>x \<in> ?A. arrival s x < clock s"
    using inv by (simp_all add: sched_inv_def)
  have tA: "t \<in> ?A" "blocked_count (mem s) t = 0" using base(3) t by (auto simp: runnable_def)
  have small: "card ?A < 2 ^ 32"
  proof -
    have "unat (total_task_count ?sm) < 2 ^ 32" using unsigned_less [of "total_task_count ?sm"] by simp
    moreover have "card ?A \<le> unat (total_task_count ?sm)"
      using cok active_length [OF inv] by (simp add: counters_ok_def)
    ultimately show ?thesis by simp
  qed
  obtain gs st' where run: "unlock_all_contexts t (lock_contexts (tasks (mem s) t)) (?ub, mem s) = Some (?ub @ gs, st')"
    and st': "store_inv cap (arrival s) (?A - {t}) st'"
    and z: "\<forall>x. blocked_count (mem s) x = 0 \<longrightarrow> blocked_count st' x = 0"
    and gs: "distinct gs" "set gs = {x \<in> ?A. blocked_count (mem s) x \<noteq> 0 \<and> blocked_count st' x = 0}"
    using unlock_store_ok [OF st small tA] by blast
  let ?sm' = "?sm\<lparr>running_task_count := rn, active_task_count := act, handled_task_count := hd,
    unblocked_task_queue := ?ub @ gs\<rparr>"
  have r: "r = (?sm', st')"
    using call cnt run by (simp add: deschedule_task_def unlock_usage_queues_def)
  have len: "length (remove1 t (active s)) = length (active s) - 1" "length (remove1 t (running s)) = length (running s) - 1"
    using tA t by (simp_all add: length_remove1)
  have rem: "set (remove1 t (active s)) = ?A - {t}" "set (remove1 t (running s)) = set (running s) - {t}"
    using base by (simp_all add: set_remove1_eq)
  have dis: "set gs \<inter> runnable s = {}" using gs(2) by (auto simp: runnable_def)
  have rn': "set (remove1 t (running s)) \<union> set (?ub @ gs) = {x \<in> ?A - {t}. blocked_count st' x = 0}"
  proof -
    have "t \<notin> set ?ub" using base(2) t by auto
    then have "set (remove1 t (running s)) \<union> set (?ub @ gs) = (runnable s - {t}) \<union> set gs"
      using base(3) rem(2) dis t by auto
    also have "\<dots> = {x \<in> ?A - {t}. blocked_count st' x = 0}"
      using gs(2) z tA by (auto simp: runnable_def)
    finally show ?thesis .
  qed
  have d: "distinct (remove1 t (running s) @ ?ub @ gs)"
    using base gs(1) dis rem(2) by auto
  obtain k j where "length (running s) = Suc k" "length (active s) = Suc j"
    using t tA(1) length_pos_if_in_set by (metis gr0_conv_Suc)
  then have "counters_ok (descheduled s t r)"
    using cok cD by (simp add: counters_ok_def descheduled_def r len)
  moreover have "\<forall>x \<in> ?A - {t}. arrival s x < clock s" using arr by blast
  ultimately show ?thesis
    using st' base(1) rn' d by (simp add: r descheduled_def sched_inv_def runnable_def rem)
qed

lemma sched_inv_rewind:
  assumes inv: "sched_inv cap s" and call: "reinitialize (machine s) = Some sm"
  shows "sched_inv cap (s\<lparr>machine := sm\<rparr>)"
proof -
  have z: "active_task_count (machine s) = 0" "running_task_count (machine s) = 0"
    "unblocked_task_queue (machine s) = []"
    and sm: "sm = (machine s)\<lparr>active_task_count := 0, handled_task_count := 0, unblocked_task_count := 0,
      total_task_count := 0\<rparr>"
    using call by (auto simp: reinitialize_def assert_that_bind has_no_active_task_def sc_is_zero_def
        split: if_splits)
  then have "active s = []" "running s = []" using inv by (auto simp: sched_inv_def counters_ok_def)
  with inv z show ?thesis by (simp add: sm sched_inv_def runnable_def counters_ok_def)
qed

lemma sched_inv_step: "sched_step cap s s' \<Longrightarrow> sched_inv cap s \<Longrightarrow> sched_inv cap s'"
  by (induction rule: sched_step.induct)
    (blast intro: sched_inv_create sched_inv_schedule sched_inv_pick sched_inv_deschedule sched_inv_rewind)+

lemma sched_inv_reachable: "sched_reachable cap s \<Longrightarrow> sched_inv cap s"
  by (induction rule: sched_reachable.induct) (blast intro: sched_inv_init sched_inv_step)+

end
