(* ===== verification/Scheduler_Runs.thy ===== *)
theory Scheduler_Runs
  imports Scheduler_Inv
begin

text \<open>
  Runs of the scheduler as lists of calls: an executable counterpart of the step relation. Every
  completed run ends in a reachable state, so concrete scenarios can be evaluated.
\<close>

datatype 'tx call =
    Create task_ref "'tx task_inner"
  | Schedule task_ref
  | Buffer task_ref
  | Pick
  | Deschedule task_ref
  | Reinitialize

fun sched_call :: "capability \<Rightarrow> 'tx call \<Rightarrow> 'tx sys \<Rightarrow> 'tx sys option" where
  "sched_call cap (Create t task) s =
     (if t \<in> set (active s) then None
      else Some (s\<lparr>mem := (mem s)\<lparr>tasks := (tasks (mem s))(t := task)\<rparr>\<rparr>))"
| "sched_call cap (Schedule t) s =
     (if schedulable cap s t then map_option (scheduled s t) (schedule_task t (machine s, mem s)) else None)"
| "sched_call cap (Buffer t) s =
     (if schedulable cap s t
      then map_option (\<lambda>s'. scheduled s t (None, s')) (buffer_task t (machine s, mem s)) else None)"
| "sched_call cap Pick s = map_option (picked s) (schedule_next_unblocked_task (machine s))"
| "sched_call cap (Deschedule t) s =
     (if t \<in> set (running s) then map_option (descheduled s t) (deschedule_task t (machine s, mem s)) else None)"
| "sched_call cap Reinitialize s = map_option (\<lambda>sm. s\<lparr>machine := sm\<rparr>) (reinitialize (machine s))"

fun sched_run :: "capability \<Rightarrow> 'tx call list \<Rightarrow> 'tx sys \<Rightarrow> 'tx sys option" where
  "sched_run cap [] s = Some s"
| "sched_run cap (c # cs) s = (case sched_call cap c s of None \<Rightarrow> None | Some s' \<Rightarrow> sched_run cap cs s')"

lemma sched_call_step: "sched_call cap c s = Some s' \<Longrightarrow> sched_step cap s s'"
proof (cases c)
  case (Buffer t)
  assume "sched_call cap c s = Some s'"
  with Buffer obtain r where "schedulable cap s t" "buffer_task t (machine s, mem s) = Some r"
    and s': "s' = scheduled s t (None, r)" by (auto split: if_splits)
  then have "schedulable cap s t" "schedule_or_buffer_task t True (machine s, mem s) = Some (None, r)"
    by (auto simp: buffer_task_def unwrap_none_def bind_eq_Some_conv split: option.splits)
  then show ?thesis unfolding s' by (rule sched_step.schedule)
qed (auto simp: schedule_task_def split: if_splits intro: sched_step.intros)

lemma sched_run_reachable:
  "sched_run cap cs s = Some s' \<Longrightarrow> sched_reachable cap s \<Longrightarrow> sched_reachable cap s'"
proof (induction cs arbitrary: s)
  case (Cons c cs)
  from Cons.prems(1) obtain s1 where "sched_call cap c s = Some s1" "sched_run cap cs s1 = Some s'"
    by (auto split: option.splits)
  with Cons.prems(2) show ?case by (blast intro: Cons.IH sched_reachable.step sched_call_step)
qed simp

section \<open>Two scenarios\<close>

definition demo_task :: "ordered_task_id \<Rightarrow> lock_context list \<Rightarrow> unit task_inner" where
  "demo_task i cxs = \<lparr>transaction = (), task_id = i, lock_contexts = cxs, blocked_usage_count = 0,
     consumed_block_size = 0, sanitized_epoch = 0, alt_invalidation_slot = 0\<rparr>"

definition demo_start :: "capability \<Rightarrow> unit sys" where
  "demo_start cap = (case exclusively_initialize_current_thread_for_scheduling (Some 4) of
     Some sm \<Rightarrow> init_sys cap sm (\<lambda>_. demo_task 0 []))"

definition demo_reads :: "queue_ref \<Rightarrow> lock_context" where
  "demo_reads q = \<lparr>lc_usage_queue = q, lc_requested_usage = Req_Readonly\<rparr>"

definition demo_writes :: "queue_ref \<Rightarrow> lock_context" where
  "demo_writes q = \<lparr>lc_usage_queue = q, lc_requested_usage = Req_Writable\<rparr>"

text \<open>Two readers of the account 0 that run beside each other and a writer that waits.\<close>

definition demo_fifo_calls :: "unit call list" where
  "demo_fifo_calls =
     [Create 0 (demo_task 0 [demo_reads 0, demo_writes 1]), Create 1 (demo_task 1 [demo_reads 0]),
      Create 2 (demo_task 2 [demo_writes 0]), Schedule 0, Schedule 1, Schedule 2]"

text \<open>A task of low priority that runs and one of high priority that waits for it.\<close>

definition demo_priority_calls :: "unit call list" where
  "demo_priority_calls =
     [Create 0 (demo_task 9 [demo_writes 0]), Create 1 (demo_task 5 [demo_writes 0]),
      Schedule 0, Schedule 1]"

definition demo_fifo :: "unit sys" where
  "demo_fifo = the (sched_run FifoQueueing demo_fifo_calls (demo_start FifoQueueing))"

definition demo_priority :: "unit sys" where
  "demo_priority = the (sched_run PriorityQueueing demo_priority_calls (demo_start PriorityQueueing))"

text \<open>The same accounts, with every task buffered.\<close>

definition demo_buffered :: "unit sys" where
  "demo_buffered = the (sched_run PriorityQueueing
     [Create 0 (demo_task 9 [demo_writes 0]), Create 1 (demo_task 5 [demo_writes 0]),
      Buffer 0, Buffer 1] (demo_start PriorityQueueing))"

definition demo_done :: "unit sys" where
  "demo_done = the (sched_run FifoQueueing
     [Create 0 (demo_task 0 [demo_writes 0]), Schedule 0, Deschedule 0] (demo_start FifoQueueing))"

lemmas demo_defs = demo_task_def demo_start_def demo_reads_def demo_writes_def demo_fifo_calls_def
  demo_priority_calls_def demo_fifo_def demo_priority_def demo_buffered_def demo_done_def

lemma demo_start_reachable: "sched_reachable cap (demo_start cap)"
proof -
  obtain sm where "exclusively_initialize_current_thread_for_scheduling (Some 4) = Some sm"
    by (simp add: exclusively_initialize_current_thread_for_scheduling_def assert_that_def Let_def)
  then show ?thesis by (simp add: demo_start_def sched_reachable.init)
qed

lemma run_from_start:
  "sched_run cap cs (demo_start cap) \<noteq> None \<Longrightarrow> sched_reachable cap (the (sched_run cap cs (demo_start cap)))"
  using sched_run_reachable demo_start_reachable by fastforce

lemmas sched_eval =
  demo_defs exclusively_initialize_current_thread_for_scheduling_def init_sys_def assert_that_def Let_def
  sc_zero_def sc_one_def sc_is_zero_def sc_is_one_def sc_increment_def sc_decrement_def checked_add_def
  checked_sub_def schedulable_def task_ok_def schedule_task_def buffer_task_def unwrap_none_def
  schedule_or_buffer_task_def try_lock_usage_queues_def lock_one_context_def lock_usage_queue_def
  with_fifo_def with_priority_def is_task_runnable_def has_unblocked_task_def has_no_active_task_def
  set_blocked_usage_count_def push_blocked_def insert_usage_from_task_def btm_insert_new_def
  is_higher_priority_def try_reblock_def
  scheduled_def picked_def descheduled_def deschedule_task_def unlock_usage_queues_def
  unlock_one_context_def unlock_usage_queue_def waiters_def btm_get_def btm_del_def btm_first_def btm_pop_first_def
  first_usage_from_task_def pop_first_usage_from_task_def btm_range_from_def try_unblock_def

lemma demo_fifo_reachable: "sched_reachable FifoQueueing demo_fifo"
  unfolding demo_fifo_def by (rule run_from_start) (simp add: sched_eval)

lemma demo_priority_reachable: "sched_reachable PriorityQueueing demo_priority"
  unfolding demo_priority_def by (rule run_from_start) (simp add: sched_eval)

lemma demo_buffered_reachable: "sched_reachable PriorityQueueing demo_buffered"
  unfolding demo_buffered_def by (rule run_from_start) (simp add: sched_eval)

lemma demo_done_reachable: "sched_reachable FifoQueueing demo_done"
  unfolding demo_done_def by (rule run_from_start) (simp add: sched_eval)

lemmas demo_reachable = demo_fifo_reachable demo_priority_reachable demo_buffered_reachable demo_done_reachable

end
