(* ===== verification/Scheduler_Props.thy ===== *)
theory Scheduler_Props
  imports Scheduler_Runs
begin

text \<open>
  What the invariant gives for the scheduler's users: safety of what it hands out, the order it
  keeps, absence of deadlock and of panics, and the clean-up guarantees of its documentation.
\<close>

section \<open>Facts about one queue\<close>

lemma holders_compatible:
  assumes "queue_ok ids arr blk U uq" and "(r, a) \<in> holders U uq" and "(r', b) \<in> holders U uq"
    and "a \<noteq> b"
  shows "r = Req_Readonly"
proof -
  have "cur_ok ids (holders U uq) uq" using assms(1) by (simp add: queue_ok_def)
  with assms(2-4) show ?thesis
    by (cases "(ids, holders U uq, uq)" rule: cur_ok.cases) (auto simp: image_iff)
qed

text \<open>If every holder of a queue still waits elsewhere, one of them comes before the waiter.\<close>

lemma blocked_behind_holder:
  assumes ok: "queue_ok ids arr blk U uq" and t: "t \<in> waiters uq"
    and blk: "\<forall>x \<in> snd ` holders U uq. blk x"
  shows "\<exists>x \<in> snd ` U. uq_key ids arr uq x < uq_key ids arr uq t"
proof -
  let ?H = "holders U uq"
  obtain u where u: "u \<in> set (blocked_usages uq)" "t = snd u" using t by (auto simp: waiters_def)
  then have "?H \<noteq> {}" using ok by (auto simp: queue_ok_def)
  then obtain y where y: "y \<in> ?H" by blast
  have yU: "snd y \<in> snd ` U" using y by (auto simp: holders_def)
  have ck: "cur_ok ids ?H uq" "order_ok ids arr blk ?H uq" "keyed ids uq"
    using ok by (simp_all add: queue_ok_def)
  have "uq_key ids arr uq (snd y) < uq_key ids arr uq t"
  proof (cases "(ids, arr, blk, ?H, uq)" rule: order_ok.cases)
    case (1 ids' arr' blk' H' c b)
    with ck(2) y u show ?thesis by auto
  next
    case (2 ids' arr' blk' H' b)
    with ck(1) y show ?thesis by auto
  next
    case (3 ids' arr' blk' H' c b)
    with ck(1) y have "snd y = c" "blk c" using blk by auto
    moreover from 3 u obtain w where "w \<in> set b" "u = snd w" by auto
    ultimately show ?thesis using ck(2,3) 3 u(2) by (auto simp: word_less_nat_alt)
  next
    case (4 ids' arr' blk' H' m b)
    then obtain w where w: "w \<in> set b" "u = snd w" using u by auto
    have bok: "btm_ok b" using ok 4 by (simp add: queue_ok_Priority)
    have ne: "b \<noteq> []" using w(1) by auto
    then have "fst (snd (hd b)) = Req_Writable" "hd b \<in> set b" using ck(2) 4 by auto
    then have "ids (snd y) < fst (hd b)" using ck(2) 4 y blk by auto
    also have "fst (hd b) \<le> fst w" using bok w(1) by (rule btm_hd_le)
    also have "fst w = ids t" using ck(3) 4 w u(2) by auto
    finally show ?thesis using 4 by (simp add: word_less_nat_alt)
  qed
  with yU show ?thesis by blast
qed

section \<open>Facts about reachable states\<close>

lemma reachable_queue_ok:
  assumes "sched_reachable cap s"
  shows "queue_ok (heap_id (tasks (mem s))) (arrival s) (\<lambda>x. blocked_count (mem s) x \<noteq> 0)
      (users (tasks (mem s)) (set (active s)) q) (queues (mem s) q)"
    and "is_fifo (queues (mem s) q) \<longleftrightarrow> cap = FifoQueueing"
  using sched_inv_reachable [OF assms] by (simp_all add: sched_inv_def store_inv_def store_ok_def)

lemma usage_registered:
  assumes "t \<in> set (active s)" and "cx \<in> set (lock_contexts (tasks (mem s) t))"
  shows "(lc_requested_usage cx, t) \<in> users (tasks (mem s)) (set (active s)) (lc_usage_queue cx)"
  using assms by (cases cx) (auto simp: users_def usages_at_def)

lemma reachable_counts:
  assumes "sched_reachable cap s" and "t \<in> set (active s)"
  shows "blocked_count (mem s) t = 0 \<longleftrightarrow> (\<forall>q. t \<notin> waiters (queues (mem s) q))"
proof -
  have inv: "store_inv cap (arrival s) (set (active s)) (mem s)"
    using sched_inv_reachable [OF assms(1)] by (simp add: sched_inv_def)
  note invD = store_invD [OF inv]
  have "finite (waits_in (mem s) t)"
    using waits_in_bounded(1) [OF invD(4) registered_in_users [OF invD(2)] assms(2)] .
  moreover have "unat (blocked_count (mem s) t) = card (waits_in (mem s) t)" using invD(5) assms(2) by blast
  ultimately have "blocked_count (mem s) t = 0 \<longleftrightarrow> waits_in (mem s) t = {}"
    by (metis card_0_eq unat_eq_0)
  then show ?thesis by (auto simp: waits_in_def)
qed

lemma runnable_holds:
  assumes "sched_reachable cap s" and "t \<in> runnable s" and "cx \<in> set (lock_contexts (tasks (mem s) t))"
  shows "(lc_requested_usage cx, t) \<in>
    holders (users (tasks (mem s)) (set (active s)) (lc_usage_queue cx)) (queues (mem s) (lc_usage_queue cx))"
proof (rule holder_if_not_waiter [OF reachable_queue_ok(1) [OF assms(1)]])
  show "(lc_requested_usage cx, t) \<in> users (tasks (mem s)) (set (active s)) (lc_usage_queue cx)"
    using assms(2,3) by (intro usage_registered) (auto simp: runnable_def)
  show "t \<notin> waiters (queues (mem s) (lc_usage_queue cx))"
    using reachable_counts [OF assms(1), of t] assms(2) by (simp add: runnable_def)
qed

lemma reachable_runnable:
  "sched_reachable cap s \<Longrightarrow> set (running s) \<union> set (unblocked_task_queue (machine s)) = runnable s"
  using sched_inv_reachable by (fastforce simp: sched_inv_def)

lemma ex_least_key:
  fixes f :: "'a \<Rightarrow> nat"
  assumes "finite A" and "A \<noteq> {}"
  obtains t where "t \<in> A" and "\<And>x. x \<in> A \<Longrightarrow> f t \<le> f x"
proof -
  have "Min (f ` A) \<in> f ` A" using assms by (intro Min_in) simp_all
  then obtain t where "t \<in> A" "f t = Min (f ` A)" by (metis imageE)
  with assms(1) show thesis by (intro that [of t]) simp_all
qed

section \<open>Safety, order and progress\<close>

text \<open>C1: Mutual exclusion. In every reachable state of the scheduler, for either kind of queue,
  two different tasks that are running at the same time and name the same account (usage queue)
  both only read it: a task that writes an account never runs beside another task that uses
  it.\<close>

theorem scheduler_mutual_exclusion:
  assumes "sched_reachable cap s" and "a \<in> set (running s)" and "b \<in> set (running s)" and "a \<noteq> b"
    and "cx \<in> set (lock_contexts (tasks (mem s) a))" and "cy \<in> set (lock_contexts (tasks (mem s) b))"
    and "lc_usage_queue cx = lc_usage_queue cy"
  shows "lc_requested_usage cx = Req_Readonly \<and> lc_requested_usage cy = Req_Readonly"
proof -
  have ab: "a \<in> runnable s" "b \<in> runnable s" using reachable_runnable [OF assms(1)] assms(2,3) by auto
  note ok = reachable_queue_ok(1) [OF assms(1), of "lc_usage_queue cx"]
  have "(lc_requested_usage cx, a) \<in>
      holders (users (tasks (mem s)) (set (active s)) (lc_usage_queue cx)) (queues (mem s) (lc_usage_queue cx))"
    by (rule runnable_holds [OF assms(1) ab(1) assms(5)])
  moreover have "(lc_requested_usage cy, b) \<in>
      holders (users (tasks (mem s)) (set (active s)) (lc_usage_queue cx)) (queues (mem s) (lc_usage_queue cx))"
    using runnable_holds [OF assms(1) ab(2) assms(6)] assms(7) by simp
  ultimately show ?thesis using holders_compatible [OF ok] assms(4) by blast
qed

theorem scheduler_mutual_exclusion_witness:
  "set (running demo_fifo) = {0, 1} \<and> lc_requested_usage (demo_reads 0) = Req_Readonly"
proof -
  have "set (running demo_fifo) = {0, 1}" "demo_reads 0 \<in> set (lock_contexts (tasks (mem demo_fifo) 0))"
    "demo_reads 0 \<in> set (lock_contexts (tasks (mem demo_fifo) 1))"
    by (simp_all add: sched_eval)
  with scheduler_mutual_exclusion [OF demo_fifo_reachable, of 0 1 "demo_reads 0" "demo_reads 0"]
  show ?thesis by simp
qed

text \<open>C2: Arrival order of conflicting tasks. With FIFO queues (block verification), while an
  active task is not descheduled, no later task that conflicts with it (same account, one of the
  two writes) can be running or be queued as unblocked.\<close>

theorem fifo_conflicts_in_arrival_order:
  assumes "sched_reachable FifoQueueing s" and "a \<in> set (active s)" and "b \<in> set (active s)"
    and "arrival s a < arrival s b"
    and "cx \<in> set (lock_contexts (tasks (mem s) a))" and "cy \<in> set (lock_contexts (tasks (mem s) b))"
    and "lc_usage_queue cx = lc_usage_queue cy"
    and "lc_requested_usage cx = Req_Writable \<or> lc_requested_usage cy = Req_Writable"
  shows "b \<notin> set (running s) \<and> b \<notin> set (unblocked_task_queue (machine s))"
proof (rule ccontr)
  let ?q = "lc_usage_queue cx"
  let ?U = "users (tasks (mem s)) (set (active s)) ?q" and ?uq = "queues (mem s) ?q"
  assume "\<not> ?thesis"
  then have b: "b \<in> runnable s" using reachable_runnable [OF assms(1)] by auto
  note ok = reachable_queue_ok(1) [OF assms(1), of ?q]
  have hb: "(lc_requested_usage cy, b) \<in> holders ?U ?uq"
    using runnable_holds [OF assms(1) b assms(6)] assms(7) by simp
  obtain c blocked where uq: "?uq = Fifo c blocked"
    using reachable_queue_ok(2) [OF assms(1), of ?q] by (cases ?uq) auto
  have "a \<notin> waiters ?uq"
  proof
    assume "a \<in> waiters ?uq"
    then obtain w where "w \<in> set blocked" "snd w = a" by (auto simp: waiters_def uq)
    then have "arrival s b < arrival s a"
      using ok hb by (auto simp: queue_ok_def uq)
    with assms(4) show False by simp
  qed
  then have "(lc_requested_usage cx, a) \<in> holders ?U ?uq"
    by (intro holder_if_not_waiter [OF ok] usage_registered assms)
  with holders_compatible [OF ok this hb] holders_compatible [OF ok hb this] assms(4,8)
  show False by (cases "a = b") auto
qed

theorem fifo_conflicts_in_arrival_order_witness:
  "active demo_fifo = [0, 1, 2] \<and> 2 \<notin> set (running demo_fifo)"
proof -
  have "active demo_fifo = [0, 1, 2]" "arrival demo_fifo 0 < arrival demo_fifo 2"
    "demo_reads 0 \<in> set (lock_contexts (tasks (mem demo_fifo) 0))"
    "demo_writes 0 \<in> set (lock_contexts (tasks (mem demo_fifo) 2))"
    "lc_usage_queue (demo_reads 0) = lc_usage_queue (demo_writes 0)"
    "lc_requested_usage (demo_writes 0) = Req_Writable"
    by (simp_all add: sched_eval)
  with fifo_conflicts_in_arrival_order [OF demo_fifo_reachable, of 0 2 "demo_reads 0" "demo_writes 0"]
  show ?thesis by simp
qed

text \<open>C3: Bounded priority inversion. With priority queues (block production), if a task of higher
  priority (smaller task id) waits for an account and a task of lower priority holds it in
  conflict, then the holder already holds all of its accounts (its blocked usage count is zero,
  so it may be running): reblocking has taken the account away from every other holder.\<close>

theorem priority_inversion_only_by_runnable:
  assumes "sched_reachable PriorityQueueing s"
    and "a \<in> waiters (queues (mem s) q)" and "b \<in> set (active s)" and "b \<notin> waiters (queues (mem s) q)"
    and "\<lparr>lc_usage_queue = q, lc_requested_usage = ra\<rparr> \<in> set (lock_contexts (tasks (mem s) a))"
    and "\<lparr>lc_usage_queue = q, lc_requested_usage = rb\<rparr> \<in> set (lock_contexts (tasks (mem s) b))"
    and "ra = Req_Writable \<or> rb = Req_Writable"
    and "task_id (tasks (mem s) a) < task_id (tasks (mem s) b)"
  shows "b \<in> runnable s"
proof (rule ccontr)
  let ?U = "users (tasks (mem s)) (set (active s)) q" and ?uq = "queues (mem s) q"
  note ok = reachable_queue_ok(1) [OF assms(1), of q]
  assume "b \<notin> runnable s"
  then have blk: "blocked_count (mem s) b \<noteq> 0" using assms(3) by (simp add: runnable_def)
  obtain c m where uq: "?uq = Priority c m"
    using reachable_queue_ok(2) [OF assms(1), of q] by (cases ?uq) auto
  have hb: "(rb, b) \<in> holders ?U ?uq"
    by (rule holder_if_not_waiter [OF ok _ assms(4)]) (use usage_registered [OF assms(3,6)] in simp)
  obtain u where u: "u \<in> set m" "snd (snd u) = a" using assms(2) by (auto simp: waiters_def uq)
  have uU: "snd u \<in> ?U" and key: "fst u = task_id (tasks (mem s) a)"
    using ok u by (auto simp: queue_ok_Priority uq)
  have inv: "store_inv PriorityQueueing (arrival s) (set (active s)) (mem s)"
    using sched_inv_reachable [OF assms(1)] by (simp add: sched_inv_def)
  have aA: "a \<in> set (active s)" using uU u(2) snd_users by blast
  have "(ra, a) \<in> ?U" using usage_registered [OF aA assms(5)] by simp
  moreover have "inj_on snd ?U" using ok by (simp add: queue_ok_def)
  ultimately have su: "snd u = (ra, a)" using uU u(2) by (metis inj_onD snd_conv)
  have ck: "cur_ok (heap_id (tasks (mem s))) (holders ?U ?uq) (Priority c m)"
    "order_ok (heap_id (tasks (mem s))) (arrival s) (\<lambda>x. blocked_count (mem s) x \<noteq> 0) (holders ?U ?uq) (Priority c m)"
    using ok by (simp_all add: queue_ok_def uq)
  have "task_id (tasks (mem s) b) < task_id (tasks (mem s) a)"
  proof (cases rb)
    case Req_Writable
    then have "c = Some (Writable b)" using cur_ok_Writable_mem [OF ck(1)] hb by simp
    with ck(2) blk u(1) key show ?thesis by auto
  next
    case Req_Readonly
    then obtain m' where "c = Some (Readonly m')" using cur_ok_Readonly_mem [OF ck(1)] hb by metis
    with ck(2) have "\<forall>x \<in> holders ?U ?uq. blocked_count (mem s) (snd x) \<noteq> 0 \<longrightarrow>
        (\<forall>w \<in> set m. fst (snd w) = Req_Writable \<longrightarrow> task_id (tasks (mem s) (snd x)) < fst w)" by simp
    moreover have "fst (snd u) = Req_Writable" using su assms(7) Req_Readonly by auto
    ultimately show ?thesis using hb blk u(1) key by fastforce
  qed
  with assms(8) show False by simp
qed

theorem priority_inversion_only_by_runnable_witness:
  "1 \<in> waiters (queues (mem demo_priority) 0) \<and> 0 \<in> runnable demo_priority"
proof -
  have "1 \<in> waiters (queues (mem demo_priority) 0)" "0 \<notin> waiters (queues (mem demo_priority) 0)"
    "0 \<in> set (active demo_priority)"
    "\<lparr>lc_usage_queue = 0, lc_requested_usage = Req_Writable\<rparr> \<in> set (lock_contexts (tasks (mem demo_priority) 1))"
    "\<lparr>lc_usage_queue = 0, lc_requested_usage = Req_Writable\<rparr> \<in> set (lock_contexts (tasks (mem demo_priority) 0))"
    "task_id (tasks (mem demo_priority) 1) < task_id (tasks (mem demo_priority) 0)"
    by (simp_all add: sched_eval)
  with priority_inversion_only_by_runnable [OF demo_priority_reachable, of 1 0 0 Req_Writable Req_Writable]
  show ?thesis by simp
qed

lemma active_not_stuck:
  assumes "sched_reachable cap s" and "active s \<noteq> []"
  shows "running s \<noteq> [] \<or> has_unblocked_task (machine s)"
proof (rule ccontr)
  assume "\<not> ?thesis"
  then have none: "runnable s = {}"
    using reachable_runnable [OF assms(1)] by (simp add: has_unblocked_task_def)
  let ?f = "if cap = FifoQueueing then arrival s else (\<lambda>x. unat (task_id (tasks (mem s) x)))"
  obtain t where t: "t \<in> set (active s)" and min: "\<And>x. x \<in> set (active s) \<Longrightarrow> ?f t \<le> ?f x"
    using ex_least_key [of "set (active s)" ?f] assms(2) by auto
  have all: "blocked_count (mem s) x \<noteq> 0" if "x \<in> set (active s)" for x
    using none that by (auto simp: runnable_def)
  obtain q where q: "t \<in> waiters (queues (mem s) q)"
    using reachable_counts [OF assms(1) t] all [OF t] by blast
  let ?U = "users (tasks (mem s)) (set (active s)) q"
  have "\<forall>x \<in> snd ` holders ?U (queues (mem s) q). blocked_count (mem s) x \<noteq> 0"
    using all snd_users [of "tasks (mem s)" "set (active s)" q] by (auto simp: holders_def)
  from blocked_behind_holder [OF reachable_queue_ok(1) [OF assms(1)] q this]
  obtain x where x: "x \<in> snd ` ?U"
    "uq_key (heap_id (tasks (mem s))) (arrival s) (queues (mem s) q) x
      < uq_key (heap_id (tasks (mem s))) (arrival s) (queues (mem s) q) t" by blast
  have "uq_key (heap_id (tasks (mem s))) (arrival s) (queues (mem s) q) = ?f"
    using reachable_queue_ok(2) [OF assms(1), of q] by (cases "queues (mem s) q") (auto simp: fun_eq_iff)
  with x min [of x] snd_users show False by fastforce
qed

text \<open>C4: No deadlock. In every reachable state with active tasks some task is running or stands in
  the queue of unblocked tasks: the active tasks can never all wait for each other.\<close>

theorem scheduler_no_deadlock:
  assumes "sched_reachable cap s" and "active s \<noteq> []"
  shows "running s \<noteq> [] \<or> has_unblocked_task (machine s)"
  using assms by (rule active_not_stuck)

theorem scheduler_no_deadlock_witness:
  "active demo_fifo \<noteq> [] \<and> \<not> (running demo_fifo = [] \<and> \<not> has_unblocked_task (machine demo_fifo))"
proof -
  have "active demo_fifo \<noteq> []" by (simp add: sched_eval)
  with scheduler_no_deadlock [OF demo_fifo_reachable] show ?thesis by blast
qed

section \<open>No panics\<close>

lemma sc_increment_ok: "unat c + 1 < 2 ^ 32 \<Longrightarrow> sc_increment c = Some (c + 1)"
  using unat_inc32 [of c] by (simp add: sc_increment_def checked_add_def)

lemma sc_decrement_ok: "0 < unat c \<Longrightarrow> sc_decrement c = Some (c - 1)"
  by (simp add: sc_decrement_def checked_sub_def word_le_nat_alt)

lemma unblocked_count_bound:
  assumes "sched_inv cap s"
  shows "unat (unblocked_task_count (machine s)) \<le> 2 * unat (total_task_count (machine s))"
  using running_bound [OF assms] assms by (simp add: sched_inv_def counters_ok_def)


lemma pick_defined:
  assumes inv: "sched_inv cap s" and small: "unat (total_task_count (machine s)) < 2 ^ 31"
  shows "\<exists>r. schedule_next_unblocked_task (machine s) = Some r"
proof -
  let ?sm = "machine s"
  have "sc_increment (unblocked_task_count ?sm) = Some (unblocked_task_count ?sm + 1)"
    by (rule sc_increment_ok) (use small unblocked_count_bound [OF inv] in simp)
  moreover have "sc_increment (running_task_count ?sm) = Some (running_task_count ?sm + 1)"
    by (rule sc_increment_ok)
      (use small running_bound [OF inv] inv in \<open>simp add: sched_inv_def counters_ok_def\<close>)
  ultimately show ?thesis
    by (simp add: schedule_next_unblocked_task_def split: list.split)
qed

lemma deschedule_defined:
  assumes inv: "sched_inv cap s" and t: "t \<in> set (running s)"
  shows "\<exists>r. deschedule_task t (machine s, mem s) = Some r"
proof -
  let ?sm = "machine s" and ?A = "set (active s)"
  have cok: "counters_ok s" and st: "store_inv cap (arrival s) ?A (mem s)"
    and "set (running s) \<subseteq> runnable s" using inv by (auto simp: sched_inv_def)
  then have tA: "t \<in> ?A" "blocked_count (mem s) t = 0" using t by (auto simp: runnable_def)
  have pos: "0 < length (running s)" "0 < length (active s)"
    by (rule length_pos_if_in_set [OF t], rule length_pos_if_in_set [OF tA(1)])
  have tot: "unat (total_task_count ?sm) < 2 ^ 32" using unsigned_less [of "total_task_count ?sm"] by simp
  then have "card ?A < 2 ^ 32" using cok active_length [OF inv] by (simp add: counters_ok_def)
  then obtain gs st' where
    "unlock_all_contexts t (lock_contexts (tasks (mem s) t)) (unblocked_task_queue ?sm, mem s)
      = Some (unblocked_task_queue ?sm @ gs, st')"
    using unlock_store_ok [OF st _ tA] by blast
  moreover have "sc_decrement (running_task_count ?sm) = Some (running_task_count ?sm - 1)"
    "sc_decrement (active_task_count ?sm) = Some (active_task_count ?sm - 1)"
    using cok pos by (intro sc_decrement_ok; simp add: counters_ok_def)+
  moreover have "sc_increment (handled_task_count ?sm) = Some (handled_task_count ?sm + 1)"
    by (rule sc_increment_ok) (use cok pos(2) tot in \<open>simp add: counters_ok_def del: length_greater_0_conv\<close>)
  ultimately show ?thesis by (simp add: deschedule_task_def unlock_usage_queues_def)
qed



section \<open>Clean-up\<close>

lemma quiescent_queues:
  assumes "sched_reachable cap s" and "active s = []"
  shows "queues (mem s) q = usage_queue_new cap"
  using reachable_queue_ok [OF assms(1), of q] assms(2)
  by (cases cap) (auto simp: users_def queue_ok_empty_iff with_fifo_def with_priority_def)

text \<open>C6: Clean-up of the queues. Whenever no task is active, every usage queue of the store is
  again exactly the freshly created one: no usage, waiting list entry or reader count leaks.\<close>

theorem no_active_task_no_usage:
  assumes "sched_reachable cap s" and "has_no_active_task (machine s)"
  shows "queues (mem s) q = usage_queue_new cap"
proof (rule quiescent_queues [OF assms(1)])
  show "active s = []"
    using sched_inv_reachable [OF assms(1)] assms(2)
    by (simp add: sched_inv_def counters_ok_def has_no_active_task_def sc_is_zero_def)
qed

theorem no_active_task_no_usage_witness:
  "unat (handled_task_count (machine demo_done)) = 1 \<and> queues (mem demo_done) 0 = usage_queue_new FifoQueueing"
proof -
  have "has_no_active_task (machine demo_done)" "unat (handled_task_count (machine demo_done)) = 1"
    by (simp_all add: sched_eval)
  with no_active_task_no_usage [OF demo_done_reachable, of 0] show ?thesis by blast
qed

text \<open>One round of the loop of \<open>clear_and_reinitialize\<close>.\<close>

lemma clear_round:
  assumes "sched_reachable cap s" and "running s = []" and "active s \<noteq> []"
    and max: "0 < max_running_task_count (machine s)" and small: "unat (total_task_count (machine s)) < 2 ^ 31"
  obtains t sm s' where "schedule_next_unblocked_task (machine s) = Some (Some t, sm)"
    and "deschedule_task t (sm, mem s) = Some (machine s', mem s')"
    and "sched_reachable cap s'" and "running s' = []" and "length (active s) = Suc (length (active s'))"
    and "max_running_task_count (machine s') = max_running_task_count (machine s)"
    and "total_task_count (machine s') = total_task_count (machine s)"
proof -
  let ?sm = "machine s"
  note inv = sched_inv_reachable [OF assms(1)]
  have "has_unblocked_task ?sm" using active_not_stuck [OF assms(1,3)] assms(2) by simp
  then obtain t ts where ub: "unblocked_task_queue ?sm = t # ts"
    by (cases "unblocked_task_queue ?sm") (auto simp: has_unblocked_task_def)
  have "running_task_count ?sm = 0"
    using inv assms(2) by (simp add: sched_inv_def counters_ok_def unat_eq_0)
  then have run: "is_task_runnable ?sm" using max by (simp add: is_task_runnable_def)
  obtain sm where pick: "schedule_next_unblocked_task ?sm = Some (Some t, sm)"
    and sm: "max_running_task_count sm = max_running_task_count ?sm"
      "total_task_count sm = total_task_count ?sm"
    using pick_defined [OF inv small] ub run
    by (auto simp: schedule_next_unblocked_task_def bind_eq_Some_conv)
  let ?s1 = "picked s (Some t, sm)"
  have r1: "sched_reachable cap ?s1"
    by (rule sched_reachable.step [OF assms(1) sched_step.pick [OF pick]])
  have s1: "running ?s1 = [t]" "machine ?s1 = sm" "mem ?s1 = mem s" "active ?s1 = active s"
    using assms(2) by (simp_all add: picked_def)
  obtain smb st where de: "deschedule_task t (sm, mem s) = Some (smb, st)"
    using deschedule_defined [OF sched_inv_reachable [OF r1], of t] s1 by auto
  let ?s2 = "descheduled ?s1 t (smb, st)"
  have r2: "sched_reachable cap ?s2"
    by (rule sched_reachable.step [OF r1 sched_step.deschedule]) (use de s1 in simp_all)
  have "t \<in> set (active s)" using inv ub by (auto simp: sched_inv_def runnable_def)
  then have "length (active s) = Suc (length (active ?s2))"
    using s1(4) by (simp add: descheduled_def length_remove1) (metis Suc_pred length_pos_if_in_set)
  moreover have "running ?s2 = []" "machine ?s2 = smb" "mem ?s2 = st"
    using s1 by (simp_all add: descheduled_def)
  moreover have "max_running_task_count smb = max_running_task_count sm"
    "total_task_count smb = total_task_count sm"
    using de by (auto simp: deschedule_task_def unlock_usage_queues_def bind_eq_Some_conv)
  ultimately show thesis using that [of t sm ?s2] pick de r2 sm by simp
qed

lemma clear_loop_ok:
  assumes "sched_reachable cap s" and "running s = []"
    and "0 < max_running_task_count (machine s)" and "unat (total_task_count (machine s)) < 2 ^ 31"
    and "unat cnt + length (active s) < 2 ^ 32"
  shows "\<exists>s'. clear_loop cnt (machine s, mem s) = Some (cnt + of_nat (length (active s)), machine s', mem s') \<and>
    sched_reachable cap s' \<and> active s' = [] \<and> running s' = []"
  using assms
proof (induction "length (active s)" arbitrary: s cnt)
  case 0
  then have "active s = []" by simp
  moreover have "unblocked_task_queue (machine s) = []"
    using sched_inv_reachable [OF 0(2)] calculation by (simp add: sched_inv_def runnable_def)
  ultimately show ?case using 0
    by (intro exI [of _ s]) (simp add: clear_loop.simps schedule_next_unblocked_task_def)
next
  case (Suc n)
  from Suc(2) have "active s \<noteq> []" by auto
  then obtain t sm s' where step: "schedule_next_unblocked_task (machine s) = Some (Some t, sm)"
    "deschedule_task t (sm, mem s) = Some (machine s', mem s')"
    and s': "sched_reachable cap s'" "running s' = []" "length (active s) = Suc (length (active s'))"
    "max_running_task_count (machine s') = max_running_task_count (machine s)"
    "total_task_count (machine s') = total_task_count (machine s)"
    using clear_round [OF Suc(3,4) _ Suc(5,6)] by metis
  have n: "n = length (active s')" using Suc(2) s'(3) by simp
  have inc: "sc_increment cnt = Some (cnt + 1)" using Suc(7) s'(3) by (intro sc_increment_ok) simp
  have "unat (cnt + 1) + length (active s') < 2 ^ 32"
    using sc_increment_D [OF inc] Suc(7) s'(3) by simp
  from Suc(1) [OF n s'(1,2) _ _ this] Suc(5,6) s'(4,5) obtain s'' where
    "clear_loop (cnt + 1) (machine s', mem s') = Some (cnt + 1 + of_nat (length (active s')), machine s'', mem s'')"
    "sched_reachable cap s''" "active s'' = []" "running s'' = []" by metis
  with step inc s'(3) show ?case by (intro exI [of _ s'']) (simp add: clear_loop.simps algebra_simps)
qed

text \<open>C7: \<open>clear_and_reinitialize\<close> returns. When no task is running and at least one task may
  run, the loop ends without a panic, its result is the number of tasks that were still active,
  every usage queue is empty again and all counters of the state machine are zero.\<close>

theorem clear_and_reinitialize_total:
  assumes "sched_reachable cap s" and "running s = []"
    and "0 < max_running_task_count (machine s)" and "unat (total_task_count (machine s)) < 2 ^ 31"
  shows "\<exists>sm st. clear_and_reinitialize (machine s, mem s) = Some (of_nat (length (active s)), sm, st) \<and>
    (\<forall>q. queues st q = usage_queue_new cap) \<and> has_no_active_task sm \<and> unblocked_task_queue sm = [] \<and>
    running_task_count sm = 0 \<and> handled_task_count sm = 0 \<and> unblocked_task_count sm = 0 \<and> total_task_count sm = 0"
proof -
  have len: "length (active s) < 2 ^ 31"
    using sched_inv_reachable [OF assms(1)] assms(4) by (simp add: sched_inv_def counters_ok_def)
  then obtain s' where loop: "clear_loop sc_zero (machine s, mem s) = Some (of_nat (length (active s)), machine s', mem s')"
    and s': "sched_reachable cap s'" "active s' = []" "running s' = []"
    using clear_loop_ok [OF assms, of sc_zero] by (auto simp: sc_zero_def)
  have z: "active_task_count (machine s') = 0" "running_task_count (machine s') = 0"
    "unblocked_task_queue (machine s') = []"
    using sched_inv_reachable [OF s'(1)] s'(2,3)
    by (simp_all add: sched_inv_def counters_ok_def runnable_def unat_eq_0)
  have "ucast (of_nat (length (active s)) :: u32) = (of_nat (length (active s)) :: usize)"
    using len by (simp add: unsigned_of_nat take_bit_nat_eq_self)
  with loop z quiescent_queues [OF s'(1,2)] show ?thesis
    by (simp add: clear_and_reinitialize_def reinitialize_def has_no_active_task_def sc_is_zero_def
        assert_that_def)
qed

theorem clear_and_reinitialize_total_witness:
  "length (active demo_buffered) = 2 \<and>
   (\<exists>sm st. clear_and_reinitialize (machine demo_buffered, mem demo_buffered) = Some (2, sm, st))"
proof -
  have "running demo_buffered = []" "0 < max_running_task_count (machine demo_buffered)"
    "unat (total_task_count (machine demo_buffered)) < 2 ^ 31" "length (active demo_buffered) = 2"
    by (simp_all add: sched_eval)
  with clear_and_reinitialize_total [OF demo_buffered_reachable] show ?thesis by fastforce
qed

text \<open>C8: The counters tell the truth. In every reachable state the state machine's active and
  running counters are the numbers of tasks in these states, handled and active tasks add up to
  all tasks, and no more tasks run at once than the limit given at initialization.\<close>

theorem scheduler_counters:
  assumes "sched_reachable cap s"
  shows "unat (active_task_count (machine s)) = length (active s) \<and>
    unat (running_task_count (machine s)) = length (running s) \<and>
    unat (handled_task_count (machine s)) + length (active s) = unat (total_task_count (machine s)) \<and>
    length (running s) \<le> unat (max_running_task_count (machine s)) \<and>
    distinct (running s) \<and> set (running s) \<subseteq> set (active s)"
  using sched_inv_reachable [OF assms] by (auto simp: sched_inv_def counters_ok_def runnable_def)

theorem scheduler_counters_witness:
  "unat (active_task_count (machine demo_fifo)) = 3 \<and> length (active demo_fifo) = 3"
proof -
  have "length (active demo_fifo) = 3" by (simp add: sched_eval)
  with scheduler_counters [OF demo_fifo_reachable] show ?thesis by simp
qed

end
