(* ===== verification/Lock_Service.thy ===== *)
theory Lock_Service
  imports Prelude
begin

text \<open>
  The contract that both tables of account locks of the validator fulfil, the one of the accounts
  database (\<^verbatim>\<open>accounts-db/src/account_locks.rs\<close>) and the thread-aware one of the banking stage's
  schedulers (\<^verbatim>\<open>scheduling-utils/src/thread_aware_account_locks.rs\<close>). A request asks for a list
  of locks; the table counts, for every lock, how often it is held. From the laws of the contract
  follow, once for both, the properties of every history of requests and releases.
\<close>

section \<open>Histories of a lock table\<close>

text \<open>\<open>lock_run\<close> relates a table and the requests that were granted and not yet released. The
  side condition on the number of locks keeps the table's counters from overflowing.\<close>

definition lock_total :: "('r \<Rightarrow> 'l list) \<Rightarrow> 'r list \<Rightarrow> nat" where
  "lock_total locks_of rs = sum_list (map (length \<circ> locks_of) rs)"

definition lock_counts :: "('r \<Rightarrow> 'l list) \<Rightarrow> 'r list \<Rightarrow> 'l \<Rightarrow> nat" where
  "lock_counts locks_of rs l = sum_list (map (\<lambda>r. count_list (locks_of r) l) rs)"

inductive lock_run ::
  "('r \<Rightarrow> 's \<Rightarrow> 's option) \<Rightarrow> ('r \<Rightarrow> 's \<Rightarrow> 's option) \<Rightarrow> ('r \<Rightarrow> 'l list) \<Rightarrow> ('r \<Rightarrow> bool) \<Rightarrow> nat \<Rightarrow> 's \<Rightarrow> 's \<Rightarrow> 'r list \<Rightarrow> bool"
  for acquire release locks_of admissible limit init where
  start: "lock_run acquire release locks_of admissible limit init init []"
| grant: "lock_run acquire release locks_of admissible limit init s rs \<Longrightarrow> admissible r \<Longrightarrow>
     lock_total locks_of (r # rs) < limit \<Longrightarrow> acquire r s = Some s' \<Longrightarrow>
     lock_run acquire release locks_of admissible limit init s' (r # rs)"
| return: "lock_run acquire release locks_of admissible limit init s (rs @ r # rs') \<Longrightarrow> release r s = Some s' \<Longrightarrow>
     lock_run acquire release locks_of admissible limit init s' (rs @ rs')"

lemma lock_counts_simps [simp]:
  "lock_counts locks_of [] = (\<lambda>_. 0)"
  "lock_counts locks_of (r # rs) = (\<lambda>l. count_list (locks_of r) l + lock_counts locks_of rs l)"
  "lock_counts locks_of (rs @ rs') = (\<lambda>l. lock_counts locks_of rs l + lock_counts locks_of rs' l)"
  by (simp_all add: lock_counts_def fun_eq_iff)

lemma lock_total_simps [simp]:
  "lock_total locks_of [] = 0"
  "lock_total locks_of (r # rs) = length (locks_of r) + lock_total locks_of rs"
  "lock_total locks_of (rs @ rs') = lock_total locks_of rs + lock_total locks_of rs'"
  by (simp_all add: lock_total_def)

lemma lock_counts_le_total: "lock_counts locks_of rs l \<le> lock_total locks_of rs"
proof (induction rs)
  case (Cons r rs)
  have "count_list (locks_of r) l \<le> length (locks_of r)" by (rule count_le_length)
  with Cons show ?case by simp
qed simp

lemma lock_counts_pos_iff: "0 < lock_counts locks_of rs l \<longleftrightarrow> (\<exists>r \<in> set rs. l \<in> set (locks_of r))"
  by (induction rs) (auto simp: count_list_0_iff)

section \<open>The contract\<close>

locale lock_service =
  fixes init :: 's and inv :: "'s \<Rightarrow> bool" and held :: "'s \<Rightarrow> 'l \<Rightarrow> nat"
    and locks_of :: "'r \<Rightarrow> 'l list" and conflict :: "'l \<Rightarrow> 'l \<Rightarrow> bool"
    and admissible :: "'r \<Rightarrow> bool" and limit :: nat
    and acquire :: "'r \<Rightarrow> 's \<Rightarrow> 's option" and release :: "'r \<Rightarrow> 's \<Rightarrow> 's option"
  assumes init_inv: "inv init" and init_held: "held init l = 0"
    and canonical: "inv s \<Longrightarrow> inv s' \<Longrightarrow> held s = held s' \<Longrightarrow> s = s'"
    and conflict_sym: "conflict l m \<Longrightarrow> conflict m l"
    and acquire_granted:
      "inv s \<Longrightarrow> admissible r \<Longrightarrow> (\<And>l. held s l + count_list (locks_of r) l < limit) \<Longrightarrow>
       (\<And>l m. l \<in> set (locks_of r) \<Longrightarrow> 0 < held s m \<Longrightarrow> \<not> conflict l m) \<Longrightarrow>
       \<exists>s'. acquire r s = Some s' \<and> inv s' \<and> held s' = (\<lambda>l. count_list (locks_of r) l + held s l)"
    and acquire_refused:
      "inv s \<Longrightarrow> admissible r \<Longrightarrow> (\<And>l. held s l + count_list (locks_of r) l < limit) \<Longrightarrow>
       l \<in> set (locks_of r) \<Longrightarrow> 0 < held s m \<Longrightarrow> conflict l m \<Longrightarrow> acquire r s = None"
    and release_held:
      "inv s \<Longrightarrow> admissible r \<Longrightarrow> (\<And>l. count_list (locks_of r) l \<le> held s l) \<Longrightarrow>
       \<exists>s'. release r s = Some s' \<and> inv s' \<and> held s' = (\<lambda>l. held s l - count_list (locks_of r) l)"
begin

abbreviation run :: "'s \<Rightarrow> 'r list \<Rightarrow> bool" where
  "run \<equiv> lock_run acquire release locks_of admissible limit init"

definition exclusive :: "'r list \<Rightarrow> bool" where
  "exclusive rs \<longleftrightarrow> sorted_wrt (\<lambda>r r'. \<forall>l \<in> set (locks_of r). \<forall>m \<in> set (locks_of r'). \<not> conflict l m) rs"

lemma acquire_cases:
  assumes "inv s" and "admissible r" and "\<And>l. held s l + count_list (locks_of r) l < limit"
    and "acquire r s = Some s'"
  shows "inv s'" and "held s' = (\<lambda>l. count_list (locks_of r) l + held s l)"
    and "\<And>l m. l \<in> set (locks_of r) \<Longrightarrow> 0 < held s m \<Longrightarrow> \<not> conflict l m"
proof -
  show free: "\<not> conflict l m" if "l \<in> set (locks_of r)" "0 < held s m" for l m
    using acquire_refused [OF assms(1-3) that] assms(4) by auto
  then show "inv s'" "held s' = (\<lambda>l. count_list (locks_of r) l + held s l)"
    using acquire_granted [OF assms(1-3)] assms(4) by auto
qed

lemma run_invariant:
  assumes "run s rs"
  shows "inv s" and "held s = lock_counts locks_of rs" and "exclusive rs"
    and "\<forall>r \<in> set rs. admissible r" and "lock_total locks_of rs < limit \<or> rs = []"
proof -
  have "inv s \<and> held s = lock_counts locks_of rs \<and> exclusive rs \<and> (\<forall>r \<in> set rs. admissible r) \<and>
      (lock_total locks_of rs < limit \<or> rs = [])"
    using assms
  proof (induction rule: lock_run.induct)
    case start
    then show ?case using init_inv init_held by (simp add: exclusive_def fun_eq_iff)
  next
    case (grant s rs r s')
    then have h: "held s = lock_counts locks_of rs" by simp
    have "held s l + count_list (locks_of r) l < limit" for l
      using grant(3) lock_counts_le_total [of locks_of rs l] count_le_length [of "locks_of r" l]
      unfolding h by simp
    note ac = acquire_cases [OF _ grant(2) this grant(4)]
    have "\<not> conflict l m" if "l \<in> set (locks_of r)" "r' \<in> set rs" "m \<in> set (locks_of r')" for l m r'
      using ac(3) [of l m] grant(5) that lock_counts_pos_iff [of locks_of rs m] by auto
    with ac(1,2) grant(2,3,5) show ?case by (simp add: exclusive_def)
  next
    case (return s rs r rs' s')
    then have adm: "admissible r" by simp
    have "count_list (locks_of r) l \<le> held s l" for l using return(3) by simp
    from release_held [OF _ adm this] return(2,3)
    have "inv s'" "held s' = (\<lambda>l. held s l - count_list (locks_of r) l)" by auto
    moreover have "exclusive (rs @ rs')" using return(3) by (simp add: exclusive_def sorted_wrt_append)
    moreover have "lock_total locks_of (rs @ rs') < limit" using return(3) by simp
    ultimately show ?case using return(3) by (simp add: fun_eq_iff)
  qed
  then show "inv s" "held s = lock_counts locks_of rs" "exclusive rs" "\<forall>r \<in> set rs. admissible r"
    "lock_total locks_of rs < limit \<or> rs = []" by blast+
qed

lemma run_exclusive:
  assumes "run s rs" and "i < length rs" and "j < length rs" and "i \<noteq> j"
    and "l \<in> set (locks_of (rs ! i))" and "m \<in> set (locks_of (rs ! j))"
  shows "\<not> conflict l m"
proof -
  have ex: "\<not> conflict l' m'" if "a < b" "b < length rs" "l' \<in> set (locks_of (rs ! a))" "m' \<in> set (locks_of (rs ! b))"
    for a b l' m'
    using run_invariant(3) [OF assms(1)] that by (auto simp: exclusive_def sorted_wrt_iff_nth_less)
  show ?thesis
  proof (cases "i < j")
    case False
    then have "j < i" using assms(4) by simp
    then show ?thesis using ex assms(2,5,6) conflict_sym by blast
  qed (use ex assms in blast)
qed

lemma run_acquire_iff:
  assumes "run s rs" and "admissible r" and "lock_total locks_of (r # rs) < limit"
  shows "acquire r s \<noteq> None \<longleftrightarrow>
    (\<forall>r' \<in> set rs. \<forall>l \<in> set (locks_of r). \<forall>m \<in> set (locks_of r'). \<not> conflict l m)"
proof -
  note inv = run_invariant [OF assms(1)]
  have room: "held s l + count_list (locks_of r) l < limit" for l
    using assms(3) lock_counts_le_total [of locks_of rs l] count_le_length [of "locks_of r" l]
    by (simp add: inv(2))
  have pos: "0 < held s m \<longleftrightarrow> (\<exists>r' \<in> set rs. m \<in> set (locks_of r'))" for m
    by (simp add: inv(2) lock_counts_pos_iff)
  show ?thesis
  proof
    assume "acquire r s \<noteq> None"
    then obtain s' where "acquire r s = Some s'" by blast
    from acquire_cases(3) [OF inv(1) assms(2) room this] pos
    show "\<forall>r' \<in> set rs. \<forall>l \<in> set (locks_of r). \<forall>m \<in> set (locks_of r'). \<not> conflict l m" by blast
  next
    assume "\<forall>r' \<in> set rs. \<forall>l \<in> set (locks_of r). \<forall>m \<in> set (locks_of r'). \<not> conflict l m"
    with acquire_granted [OF inv(1) assms(2) room] pos show "acquire r s \<noteq> None" by blast
  qed
qed

lemma run_release:
  assumes "run s rs" and "r \<in> set rs"
  shows "\<exists>s'. release r s = Some s'"
proof -
  note inv = run_invariant [OF assms(1)]
  obtain as bs where "rs = as @ r # bs" using assms(2) by (auto dest: split_list)
  then have "count_list (locks_of r) l \<le> held s l" for l by (simp add: inv(2))
  with release_held [OF inv(1)] inv(4) assms(2) show ?thesis by blast
qed

lemma run_all_released:
  assumes "run s []"
  shows "s = init"
proof (rule canonical)
  show "inv s" "inv init" using run_invariant(1) [OF assms] init_inv .
  show "held s = held init" using run_invariant(2) [OF assms] init_held by (simp add: fun_eq_iff)
qed

text \<open>Releasing what was just granted gives the same table back.\<close>

lemma acquire_release:
  assumes "inv s" and "admissible r" and "\<And>l. held s l + count_list (locks_of r) l < limit"
    and "acquire r s = Some s'"
  shows "release r s' = Some s"
proof -
  note ac = acquire_cases [OF assms]
  from release_held [OF ac(1) assms(2)] ac(2) obtain s'' where
    "release r s' = Some s''" "inv s''" "held s'' = (\<lambda>l. held s' l - count_list (locks_of r) l)" by auto
  with ac(2) canonical [OF assms(1), of s''] show ?thesis by simp
qed

end

end
