(* ===== verification/Account_Locks.thy ===== *)
theory Account_Locks
  imports Lock_Service
begin

text \<open>
  The lock table of the accounts database, \<^verbatim>\<open>accounts-db/src/account_locks.rs\<close>, and the
  validation of a transaction's account keys. Counters of an \<open>AHashMap\<close> are values of a partial
  function. Overflow of a counter and a failed \<open>debug_assert!\<close> are \<^const>\<open>None\<close>, as in a build
  with these checks; the properties show that they do not happen.
\<close>

section \<open>Model\<close>

text \<open>The variants of the external \<open>TransactionError\<close> that this module names, and all others.\<close>

datatype 'e transaction_error =
    AccountInUse
  | TooManyAccountLocks
  | AccountLoadedTwice
  | OtherTransactionError 'e

record 'k account_locks =
  write_locks :: "'k \<Rightarrow> u64 option"
  readonly_locks :: "'k \<Rightarrow> u64 option"

definition account_locks_default :: "'k account_locks" where
  "account_locks_default = \<lparr>write_locks = (\<lambda>_. None), readonly_locks = (\<lambda>_. None)\<rparr>"

definition is_locked_readonly :: "'k \<Rightarrow> 'k account_locks \<Rightarrow> bool" where
  "is_locked_readonly key al = (case readonly_locks al key of None \<Rightarrow> False | Some n \<Rightarrow> 0 < n)"

definition is_locked_write :: "'k \<Rightarrow> 'k account_locks \<Rightarrow> bool" where
  "is_locked_write key al = (case write_locks al key of None \<Rightarrow> False | Some n \<Rightarrow> 0 < n)"

definition can_read_lock :: "'k \<Rightarrow> 'k account_locks \<Rightarrow> bool" where
  "can_read_lock key al \<longleftrightarrow> \<not> is_locked_write key al"

definition can_write_lock :: "'k \<Rightarrow> 'k account_locks \<Rightarrow> bool" where
  "can_write_lock key al \<longleftrightarrow> \<not> is_locked_readonly key al \<and> \<not> is_locked_write key al"

definition count_up :: "'k \<Rightarrow> ('k \<Rightarrow> u64 option) \<Rightarrow> ('k \<Rightarrow> u64 option) option" where
  "count_up key m = do {
     n \<leftarrow> checked_add (case m key of None \<Rightarrow> 0 | Some n \<Rightarrow> n) 1;
     Some (m(key \<mapsto> n))
   }"

definition count_down :: "'k \<Rightarrow> ('k \<Rightarrow> u64 option) \<Rightarrow> ('k \<Rightarrow> u64 option) option" where
  "count_down key m = (case m key of
       Some occupied \<Rightarrow> do {
         n \<leftarrow> checked_sub occupied 1;
         Some (if n = 0 then m(key := None) else m(key \<mapsto> n))
       }
     | None \<Rightarrow> None)"

definition lock_readonly :: "'k \<Rightarrow> 'k account_locks \<Rightarrow> 'k account_locks option" where
  "lock_readonly key al = map_option (\<lambda>m. al\<lparr>readonly_locks := m\<rparr>) (count_up key (readonly_locks al))"

definition lock_write :: "'k \<Rightarrow> 'k account_locks \<Rightarrow> 'k account_locks option" where
  "lock_write key al = map_option (\<lambda>m. al\<lparr>write_locks := m\<rparr>) (count_up key (write_locks al))"

definition unlock_readonly :: "'k \<Rightarrow> 'k account_locks \<Rightarrow> 'k account_locks option" where
  "unlock_readonly key al = map_option (\<lambda>m. al\<lparr>readonly_locks := m\<rparr>) (count_down key (readonly_locks al))"

definition unlock_write :: "'k \<Rightarrow> 'k account_locks \<Rightarrow> 'k account_locks option" where
  "unlock_write key al = map_option (\<lambda>m. al\<lparr>write_locks := m\<rparr>) (count_down key (write_locks al))"

fun can_lock_accounts :: "('k \<times> bool) list \<Rightarrow> 'k account_locks \<Rightarrow> 'e transaction_error + unit" where
  "can_lock_accounts [] al = Inr ()"
| "can_lock_accounts ((key, writable) # keys) al =
     (if writable
      then (if \<not> can_write_lock key al then Inl AccountInUse else can_lock_accounts keys al)
      else if \<not> can_read_lock key al then Inl AccountInUse
      else can_lock_accounts keys al)"

fun lock_accounts :: "('k \<times> bool) list \<Rightarrow> 'k account_locks \<Rightarrow> 'k account_locks option" where
  "lock_accounts [] al = Some al"
| "lock_accounts ((key, writable) # keys) al = do {
     al' \<leftarrow> (if writable then lock_write key al else lock_readonly key al);
     lock_accounts keys al'
   }"

fun unlock_accounts :: "('k \<times> bool) list \<Rightarrow> 'k account_locks \<Rightarrow> 'k account_locks option" where
  "unlock_accounts [] al = Some al"
| "unlock_accounts ((key, writable) # keys) al = do {
     al' \<leftarrow> (if writable then unlock_write key al else unlock_readonly key al);
     unlock_accounts keys al'
   }"

definition try_lock_accounts ::
  "('k \<times> bool) list \<Rightarrow> 'k account_locks \<Rightarrow> (('e transaction_error + unit) \<times> 'k account_locks) option" where
  "try_lock_accounts keys al =
     (case can_lock_accounts keys al of
        Inl e \<Rightarrow> Some (Inl e, al)
      | Inr _ \<Rightarrow> do {
          al' \<leftarrow> lock_accounts keys al;
          Some (Inr (), al')
        })"

text \<open>\<open>try_lock_transaction_batch\<close>: first every transaction is checked against the table as it was
  before the batch, then the ones that passed are locked.\<close>

definition check_batch_keys ::
  "'k account_locks \<Rightarrow> 'e transaction_error + ('k \<times> bool) list \<Rightarrow> 'e transaction_error + ('k \<times> bool) list" where
  "check_batch_keys al validated_keys =
     (case validated_keys of
        Inl e \<Rightarrow> Inl e
      | Inr keys \<Rightarrow> (case can_lock_accounts keys al of Inl e \<Rightarrow> Inl e | Inr _ \<Rightarrow> Inr keys))"

fun lock_batch_keys ::
  "('e transaction_error + ('k \<times> bool) list) list \<Rightarrow> 'k account_locks
     \<Rightarrow> (('e transaction_error + unit) list \<times> 'k account_locks) option" where
  "lock_batch_keys [] al = Some ([], al)"
| "lock_batch_keys (Inl e # batch) al = do {
     (results, al') \<leftarrow> lock_batch_keys batch al;
     Some (Inl e # results, al')
   }"
| "lock_batch_keys (Inr keys # batch) al = do {
     al1 \<leftarrow> lock_accounts keys al;
     (results, al') \<leftarrow> lock_batch_keys batch al1;
     Some (Inr () # results, al')
   }"

definition try_lock_transaction_batch ::
  "('e transaction_error + ('k \<times> bool) list) list \<Rightarrow> 'k account_locks
     \<Rightarrow> (('e transaction_error + unit) list \<times> 'k account_locks) option" where
  "try_lock_transaction_batch validated_batch_keys al =
     lock_batch_keys (map (check_batch_keys al) validated_batch_keys) al"

text \<open>\<open>has_duplicates\<close> for many and for few keys. The set is the thread-local buffer, which is
  handed from call to call.\<close>

definition USE_ACCOUNT_LOCK_SET_SIZE :: nat where
  "USE_ACCOUNT_LOCK_SET_SIZE = 32"

fun any_seen :: "'k set \<Rightarrow> 'k list \<Rightarrow> bool" where
  "any_seen buffer [] = False"
| "any_seen buffer (key # keys) = (if key \<in> buffer then True else any_seen (insert key buffer) keys)"

definition any_equal_pair :: "'k list \<Rightarrow> bool" where
  "any_equal_pair keys =
     list_ex (\<lambda>(idx, key). list_ex (\<lambda>jdx. key = keys ! jdx) [idx + 1..<length keys]) (List.enumerate 0 keys)"

definition has_duplicates :: "'k set \<Rightarrow> 'k list \<Rightarrow> bool \<times> 'k set" where
  "has_duplicates buffer account_keys =
     (if USE_ACCOUNT_LOCK_SET_SIZE \<le> length account_keys then (any_seen buffer account_keys, {})
      else (any_equal_pair account_keys, buffer))"

definition validate_account_locks ::
  "'k set \<Rightarrow> 'k list \<Rightarrow> usize \<Rightarrow> ('e transaction_error + unit) \<times> 'k set" where
  "validate_account_locks buffer account_keys tx_account_lock_limit =
     (if unat tx_account_lock_limit < length account_keys then (Inl TooManyAccountLocks, buffer)
      else (let (dup, buffer') = has_duplicates buffer account_keys
            in (if dup then Inl AccountLoadedTwice else Inr (), buffer')))"

section \<open>Counting\<close>

definition counts :: "('k \<Rightarrow> u64 option) \<Rightarrow> 'k \<Rightarrow> nat" where
  "counts m key = (case m key of None \<Rightarrow> 0 | Some n \<Rightarrow> unat n)"

definition no_zero :: "('k \<Rightarrow> u64 option) \<Rightarrow> bool" where
  "no_zero m \<longleftrightarrow> (\<forall>key. m key \<noteq> Some 0)"

lemma count_up_ok:
  assumes "counts m key + 1 < 2 ^ 64" and "no_zero m"
  shows "\<exists>m'. count_up key m = Some m' \<and> no_zero m' \<and> counts m' = (counts m)(key := counts m key + 1)"
proof -
  define n where "n = (case m key of None \<Rightarrow> 0 | Some n \<Rightarrow> n)"
  have n: "unat n = counts m key" by (simp add: n_def counts_def split: option.split)
  with assms(1) have s: "unat (n + 1) = counts m key + 1" using unat_add_bounded [of n 1] by simp
  then have "n + 1 \<noteq> 0" by (metis Suc_eq_plus1 nat.distinct(1) unat_0)
  with assms n s show ?thesis
    by (intro exI [of _ "m(key \<mapsto> n + 1)"])
      (auto simp: count_up_def n_def [symmetric] checked_add_def no_zero_def counts_def fun_eq_iff)
qed

lemma count_down_ok:
  assumes "0 < counts m key" and "no_zero m"
  shows "\<exists>m'. count_down key m = Some m' \<and> no_zero m' \<and> counts m' = (counts m)(key := counts m key - 1)"
proof -
  obtain n where n: "m key = Some n" "0 < unat n" using assms(1) by (auto simp: counts_def split: option.splits)
  then have "1 \<le> n" by (simp add: word_le_nat_alt)
  moreover from this have "unat (n - 1) = unat n - 1" using unat_sub_bounded [of 1 n] by simp
  ultimately show ?thesis
    using assms n
    by (intro exI [of _ "if n - 1 = 0 then m(key := None) else m(key \<mapsto> n - 1)"])
      (auto simp: count_down_def checked_sub_def no_zero_def counts_def fun_eq_iff)
qed

lemma counts_canonical:
  assumes "no_zero m" and "no_zero m'" and "counts m = counts m'"
  shows "m = m'"
proof
  fix key
  have "counts m key = counts m' key" using assms(3) by simp
  with assms(1,2) show "m key = m' key"
    by (cases "m key"; cases "m' key") (auto simp: counts_def no_zero_def unat_eq_0 intro: unsigned_word_eqI)
qed

lemma is_locked_iff:
  "is_locked_readonly key al \<longleftrightarrow> 0 < counts (readonly_locks al) key"
  "is_locked_write key al \<longleftrightarrow> 0 < counts (write_locks al) key"
  by (simp_all add: is_locked_readonly_def is_locked_write_def counts_def word_less_nat_alt split: option.split)

section \<open>The table fulfils the contract\<close>

definition al_inv :: "'k account_locks \<Rightarrow> bool" where
  "al_inv al \<longleftrightarrow> no_zero (write_locks al) \<and> no_zero (readonly_locks al)"

fun al_held :: "'k account_locks \<Rightarrow> 'k \<times> bool \<Rightarrow> nat" where
  "al_held al (key, writable) = counts (if writable then write_locks al else readonly_locks al) key"

fun al_conflict :: "'k \<times> bool \<Rightarrow> 'k \<times> bool \<Rightarrow> bool" where
  "al_conflict (key, writable) (key', writable') \<longleftrightarrow> key = key' \<and> (writable \<or> writable')"

definition al_acquire :: "('k \<times> bool) list \<Rightarrow> 'k account_locks \<Rightarrow> 'k account_locks option" where
  "al_acquire keys al =
     (case (try_lock_accounts keys al :: ((unit transaction_error + unit) \<times> 'k account_locks) option) of
        Some (Inr _, al') \<Rightarrow> Some al' | _ \<Rightarrow> None)"

lemma lock_one_ok:
  assumes "al_inv al" and "al_held al (key, writable) + 1 < 2 ^ 64"
  shows "\<exists>al'. (if writable then lock_write key al else lock_readonly key al) = Some al' \<and> al_inv al' \<and>
    al_held al' = (al_held al)((key, writable) := al_held al (key, writable) + 1)"
proof -
  let ?m = "if writable then write_locks al else readonly_locks al"
  obtain m where "count_up key ?m = Some m" "no_zero m" "counts m = (counts ?m)(key := counts ?m key + 1)"
    using count_up_ok [of ?m key] assms by (auto simp: al_inv_def split: if_splits)
  with assms(1) show ?thesis
    by (intro exI [of _ "if writable then al\<lparr>write_locks := m\<rparr> else al\<lparr>readonly_locks := m\<rparr>"])
      (auto simp: al_inv_def lock_write_def lock_readonly_def fun_eq_iff split: if_splits)
qed

lemma unlock_one_ok:
  assumes "al_inv al" and "0 < al_held al (key, writable)"
  shows "\<exists>al'. (if writable then unlock_write key al else unlock_readonly key al) = Some al' \<and> al_inv al' \<and>
    al_held al' = (al_held al)((key, writable) := al_held al (key, writable) - 1)"
proof -
  let ?m = "if writable then write_locks al else readonly_locks al"
  obtain m where "count_down key ?m = Some m" "no_zero m" "counts m = (counts ?m)(key := counts ?m key - 1)"
    using count_down_ok [of ?m key] assms by (auto simp: al_inv_def split: if_splits)
  with assms(1) show ?thesis
    by (intro exI [of _ "if writable then al\<lparr>write_locks := m\<rparr> else al\<lparr>readonly_locks := m\<rparr>"])
      (auto simp: al_inv_def unlock_write_def unlock_readonly_def fun_eq_iff split: if_splits)
qed

lemma lock_accounts_ok:
  assumes "al_inv al" and "\<And>l. al_held al l + count_list keys l < 2 ^ 64"
  shows "\<exists>al'. lock_accounts keys al = Some al' \<and> al_inv al' \<and>
    al_held al' = (\<lambda>l. count_list keys l + al_held al l)"
  using assms
proof (induction keys arbitrary: al)
  case (Cons l keys)
  obtain key writable where l: "l = (key, writable)" by (cases l)
  have "al_held al l + 1 < 2 ^ 64" using Cons.prems(2) [of l] by simp
  then obtain al1 where al1: "(if writable then lock_write key al else lock_readonly key al) = Some al1"
    "al_inv al1" "al_held al1 = (al_held al)(l := al_held al l + 1)"
    using lock_one_ok [OF Cons.prems(1)] unfolding l by blast
  have "al_held al1 m + count_list keys m < 2 ^ 64" for m
    using Cons.prems(2) [of m] al1(3) by (cases "m = l") simp_all
  from Cons.IH [OF al1(2) this] obtain al2 where al2: "lock_accounts keys al1 = Some al2" "al_inv al2"
    "al_held al2 = (\<lambda>m. count_list keys m + al_held al1 m)" by blast
  have "al_held al2 = (\<lambda>m. count_list (l # keys) m + al_held al m)"
    unfolding al2(3) al1(3) by (rule ext) simp
  moreover have "lock_accounts (l # keys) al = Some al2" using al1(1) al2(1) by (simp add: l)
  ultimately show ?case using al2(2) by blast
qed simp

lemma unlock_accounts_ok:
  assumes "al_inv al" and "\<And>l. count_list keys l \<le> al_held al l"
  shows "\<exists>al'. unlock_accounts keys al = Some al' \<and> al_inv al' \<and>
    al_held al' = (\<lambda>l. al_held al l - count_list keys l)"
  using assms
proof (induction keys arbitrary: al)
  case (Cons l keys)
  obtain key writable where l: "l = (key, writable)" by (cases l)
  have "0 < al_held al l" using Cons.prems(2) [of l] by simp
  then obtain al1 where al1: "(if writable then unlock_write key al else unlock_readonly key al) = Some al1"
    "al_inv al1" "al_held al1 = (al_held al)(l := al_held al l - 1)"
    using unlock_one_ok [OF Cons.prems(1)] unfolding l by blast
  have "count_list keys m \<le> al_held al1 m" for m
    using Cons.prems(2) [of m] al1(3) by (cases "m = l") auto
  from Cons.IH [OF al1(2) this] obtain al2 where al2: "unlock_accounts keys al1 = Some al2" "al_inv al2"
    "al_held al2 = (\<lambda>m. al_held al1 m - count_list keys m)" by blast
  have "al_held al2 = (\<lambda>m. al_held al m - count_list (l # keys) m)"
    unfolding al2(3) al1(3) by (rule ext) simp
  moreover have "unlock_accounts (l # keys) al = Some al2" using al1(1) al2(1) by (simp add: l)
  ultimately show ?case using al2(2) by blast
qed simp

lemma can_lock_accounts_iff:
  "can_lock_accounts keys al = Inr () \<longleftrightarrow>
     (\<forall>l \<in> set keys. \<forall>m. 0 < al_held al m \<longrightarrow> \<not> al_conflict l m)"
  by (induction keys al rule: can_lock_accounts.induct)
    (auto simp: can_write_lock_def can_read_lock_def is_locked_iff)

lemma can_lock_accounts_Inl: "can_lock_accounts keys al = Inl e \<Longrightarrow> e = AccountInUse"
  by (induction keys al rule: can_lock_accounts.induct) (auto split: if_splits)

lemma can_lock_accounts_eq:
  "can_lock_accounts keys al =
     (if \<exists>l \<in> set keys. \<exists>m. 0 < al_held al m \<and> al_conflict l m then Inl AccountInUse
      else Inr () :: 'e transaction_error + unit)" (is "?can = _")
proof (cases ?can)
  case (Inl e)
  then have "?can \<noteq> Inr ()" by simp
  then show ?thesis unfolding can_lock_accounts_iff using can_lock_accounts_Inl [OF Inl] Inl by auto
next
  case (Inr u)
  then have "?can = Inr ()" by simp
  then show ?thesis unfolding can_lock_accounts_iff using Inr by (auto simp del: al_held.simps)
qed

lemma try_lock_accounts_cases:
  "al_acquire keys al = (if can_lock_accounts keys al = (Inr () :: unit transaction_error + unit)
     then lock_accounts keys al else None)"
  by (cases "lock_accounts keys al") (auto simp: al_acquire_def try_lock_accounts_def split: sum.splits)

interpretation al: lock_service account_locks_default al_inv al_held "\<lambda>keys. keys" al_conflict "\<lambda>_. True" "2 ^ 64"
  al_acquire unlock_accounts
proof (unfold_locales, goal_cases)
  case 1
  show ?case by (simp add: al_inv_def no_zero_def account_locks_default_def)
next
  case (2 l)
  show ?case by (cases l) (simp add: counts_def account_locks_default_def)
next
  case (3 al al')
  have "counts (write_locks al) k = counts (write_locks al') k"
    "counts (readonly_locks al) k = counts (readonly_locks al') k" for k
    using fun_cong [OF 3(3), of "(k, True)"] fun_cong [OF 3(3), of "(k, False)"] by simp_all
  then have "write_locks al = write_locks al'" "readonly_locks al = readonly_locks al'"
    using 3(1,2) by (auto simp: al_inv_def intro!: counts_canonical)
  then show ?case by simp
next
  case (4 l m)
  then show ?case by (cases l; cases m) auto
next
  case (5 al keys)
  then have "can_lock_accounts keys al = (Inr () :: unit transaction_error + unit)"
    by (simp add: can_lock_accounts_iff)
  with lock_accounts_ok [OF 5(1,3)] show ?case by (simp add: try_lock_accounts_cases)
next
  case (6 al keys l m)
  then have "can_lock_accounts keys al \<noteq> (Inr () :: unit transaction_error + unit)"
    unfolding can_lock_accounts_iff by blast
  then show ?case by (simp add: try_lock_accounts_cases)
next
  case (7 al keys)
  then show ?case by (intro unlock_accounts_ok) simp_all
qed

section \<open>Batches\<close>

definition batch_grants :: "'k account_locks \<Rightarrow> ('e transaction_error + ('k \<times> bool) list) list \<Rightarrow> ('k \<times> bool) list list" where
  "batch_grants al batch = [keys. Inr keys \<leftarrow> map (check_batch_keys al) batch]"

lemma lock_batch_keys_ok:
  assumes "al_inv al" and "\<And>l. al_held al l + count_list (concat [keys. Inr keys \<leftarrow> batch]) l < 2 ^ 64"
  shows "\<exists>al'. lock_batch_keys batch al = Some (map (\<lambda>b. case b of Inl e \<Rightarrow> Inl e | Inr _ \<Rightarrow> Inr ()) batch, al') \<and>
    al_inv al' \<and> al_held al' = (\<lambda>l. count_list (concat [keys. Inr keys \<leftarrow> batch]) l + al_held al l)"
  using assms
proof (induction batch al rule: lock_batch_keys.induct)
  case (2 e batch al)
  then show ?case by (auto simp: bind_eq_Some_conv)
next
  case (3 keys batch al)
  let ?g = "concat [keys. Inr keys \<leftarrow> batch]"
  have b: "al_held al l + (count_list keys l + count_list ?g l) < 2 ^ 64" for l
    using 3(3) [of l] by simp
  then have "al_held al l + count_list keys l < 2 ^ 64" for l using add_lessD1 by (metis add.assoc)
  then obtain al1 where al1: "lock_accounts keys al = Some al1" "al_inv al1"
    "al_held al1 = (\<lambda>l. count_list keys l + al_held al l)"
    using lock_accounts_ok [OF 3(2)] by blast
  have "al_held al1 l + count_list ?g l < 2 ^ 64" for l using b [of l] by (simp add: al1(3))
  from 3(1) [OF al1(1,2) this] obtain al2 where al2:
    "lock_batch_keys batch al1 = Some (map (\<lambda>b. case b of Inl e \<Rightarrow> Inl e | Inr _ \<Rightarrow> Inr ()) batch, al2)"
    "al_inv al2" "al_held al2 = (\<lambda>l. count_list ?g l + al_held al1 l)" by blast
  have "al_held al2 = (\<lambda>l. count_list (concat [keys. Inr keys \<leftarrow> Inr keys # batch]) l + al_held al l)"
    unfolding al2(3) al1(3) by (rule ext) simp
  with al1(1) al2(1,2) show ?case by simp
qed simp

section \<open>Duplicate keys\<close>

lemma any_seen_iff: "any_seen buffer keys \<longleftrightarrow> \<not> distinct keys \<or> set keys \<inter> buffer \<noteq> {}"
  by (induction buffer keys rule: any_seen.induct) auto

lemma any_equal_pair_iff: "any_equal_pair keys \<longleftrightarrow> \<not> distinct keys"
proof -
  have "any_equal_pair keys \<longleftrightarrow> (\<exists>i j. i < j \<and> j < length keys \<and> keys ! i = keys ! j)"
    by (force simp: any_equal_pair_def list_ex_iff in_set_enumerate_eq Suc_le_eq)
  also have "\<dots> \<longleftrightarrow> \<not> distinct keys"
  proof
    assume "\<exists>i j. i < j \<and> j < length keys \<and> keys ! i = keys ! j"
    then obtain i j where "i < j" "j < length keys" "keys ! i = keys ! j" by blast
    then show "\<not> distinct keys" using nth_eq_iff_index_eq [of keys i j] by auto
  next
    assume "\<not> distinct keys"
    then obtain i j where "i < length keys" "j < length keys" "i \<noteq> j" "keys ! i = keys ! j"
      by (auto simp: distinct_conv_nth)
    then show "\<exists>i j. i < j \<and> j < length keys \<and> keys ! i = keys ! j"
      by (cases "i < j") (force, metis linorder_neqE_nat)
  qed
  finally show ?thesis .
qed

lemma has_duplicates_iff: "has_duplicates {} keys = (\<not> distinct keys, {})"
  by (simp add: has_duplicates_def any_seen_iff any_equal_pair_iff)

section \<open>Properties\<close>

text \<open>C9: Mutual exclusion of account locks. In every history of granted and released requests, two
  outstanding requests for the same account are both read-only.\<close>

theorem account_locks_exclusive:
  assumes "lock_run al_acquire unlock_accounts (\<lambda>keys. keys) (\<lambda>_. True) (2 ^ 64) account_locks_default al rs"
    and "i < length rs" and "j < length rs" and "i \<noteq> j"
    and "(key, writable) \<in> set (rs ! i)" and "(key, writable') \<in> set (rs ! j)"
  shows "\<not> writable \<and> \<not> writable'"
  using al.run_exclusive [OF assms] by simp

theorem account_locks_exclusive_witness:
  "lock_run al_acquire unlock_accounts (\<lambda>keys. keys) (\<lambda>_. True) (2 ^ 64) account_locks_default
     \<lparr>write_locks = (\<lambda>_. None), readonly_locks = [7 \<mapsto> 2]\<rparr> [[(7 :: nat, False)], [(7, False)]]"
proof -
  let ?al = "\<lparr>write_locks = (\<lambda>_. None), readonly_locks = [7 \<mapsto> 2]\<rparr> :: nat account_locks"
  let ?run = "lock_run al_acquire unlock_accounts (\<lambda>keys. keys) (\<lambda>_. True) (2 ^ 64) account_locks_default"
  note eval = al_acquire_def try_lock_accounts_def can_read_lock_def is_locked_write_def lock_readonly_def
    count_up_def checked_add_def account_locks_default_def
  have "?run \<lparr>write_locks = (\<lambda>_. None), readonly_locks = [7 \<mapsto> 1]\<rparr> [[(7 :: nat, False)]]"
    by (rule lock_run.grant [OF lock_run.start]) (simp_all add: eval)
  then have run: "?run ?al [[(7, False)], [(7, False)]]"
    by (rule lock_run.grant) (simp_all add: eval)
  from account_locks_exclusive [OF this, of 0 1 7 False False] run show ?thesis by simp
qed

text \<open>C10: Locking a batch. Without overflow of a counter, \<open>try_lock_transaction_batch\<close> returns one
  result per transaction: the error it came with, \<open>AccountInUse\<close> exactly if one of its keys
  conflicts with a lock held before the batch, and success otherwise. Afterwards the table holds
  exactly the old locks and those of the successful transactions, conflicts inside the batch
  included.\<close>

theorem try_lock_transaction_batch_ok:
  fixes batch :: "('e transaction_error + ('k \<times> bool) list) list"
  assumes "al_inv al" and "\<And>l. al_held al l + count_list (concat (batch_grants al batch)) l < 2 ^ 64"
  shows "\<exists>results al'. try_lock_transaction_batch batch al = Some (results, al') \<and> al_inv al' \<and>
    length results = length batch \<and>
    (\<forall>i < length batch. results ! i = (case batch ! i of Inl e \<Rightarrow> Inl e
       | Inr keys \<Rightarrow> if \<exists>l \<in> set keys. \<exists>m. 0 < al_held al m \<and> al_conflict l m then Inl AccountInUse else Inr ())) \<and>
    al_held al' = (\<lambda>l. count_list (concat (batch_grants al batch)) l + al_held al l)"
proof -
  let ?b = "map (check_batch_keys al) batch"
  let ?res = "map (\<lambda>b. case b of Inl e \<Rightarrow> Inl e | Inr _ \<Rightarrow> Inr ()) ?b"
  obtain al' where "lock_batch_keys ?b al = Some (?res, al')" "al_inv al'"
    "al_held al' = (\<lambda>l. count_list (concat (batch_grants al batch)) l + al_held al l)"
    using lock_batch_keys_ok [OF assms(1), of ?b] assms(2) unfolding batch_grants_def by blast
  moreover have "?res ! i = (case batch ! i of Inl e \<Rightarrow> Inl e
       | Inr keys \<Rightarrow> if \<exists>l \<in> set keys. \<exists>m. 0 < al_held al m \<and> al_conflict l m then Inl AccountInUse else Inr ())"
    if "i < length batch" for i
  proof (cases "batch ! i")
    case (Inr keys)
    with that show ?thesis
      by (simp add: check_batch_keys_def can_lock_accounts_eq del: al_held.simps al_conflict.simps)
  qed (use that in \<open>simp add: check_batch_keys_def\<close>)
  ultimately show ?thesis by (simp add: try_lock_transaction_batch_def)
qed

theorem try_lock_transaction_batch_ok_witness:
  "\<exists>al'. try_lock_transaction_batch [Inr [(7, True)], Inr [(7, True)], Inl (OtherTransactionError ())]
     (account_locks_default :: nat account_locks)
   = Some ([Inr (), Inr (), Inl (OtherTransactionError ())], al') \<and> al_held al' (7, True) = 2"
proof -
  let ?al = "account_locks_default :: nat account_locks"
  let ?b = "[Inr [(7, True)], Inr [(7, True)], Inl (OtherTransactionError ())]
    :: (unit transaction_error + (nat \<times> bool) list) list"
  have g: "batch_grants ?al ?b = [[(7, True)], [(7, True)]]"
    by (simp add: batch_grants_def check_batch_keys_def can_write_lock_def is_locked_readonly_def
        is_locked_write_def account_locks_default_def)
  have "al_held ?al l + count_list (concat (batch_grants ?al ?b)) l < 2 ^ 64" for l
    using al.init_held [of l] by (simp add: g)
  from try_lock_transaction_batch_ok [OF al.init_inv this] obtain results al' where
    r: "try_lock_transaction_batch ?b ?al = Some (results, al')" "length results = 3"
      "\<forall>i < 3. results ! i = (case ?b ! i of Inl e \<Rightarrow> Inl e
       | Inr keys \<Rightarrow> if \<exists>l \<in> set keys. \<exists>m. 0 < al_held ?al m \<and> al_conflict l m then Inl AccountInUse else Inr ())"
      "al_held al' = (\<lambda>l. count_list (concat (batch_grants ?al ?b)) l + al_held ?al l)"
    by auto
  have "results = [Inr (), Inr (), Inl (OtherTransactionError ())]"
  proof (rule nth_equalityI)
    fix i assume "i < length results"
    then have "i = 0 \<or> i = 1 \<or> i = 2" using r(2) by auto
    then show "results ! i = [Inr (), Inr (), Inl (OtherTransactionError ())] ! i"
      using r(3) al.init_held by (auto simp del: al_held.simps)
  qed (use r(2) in simp)
  moreover have "al_held al' (7, True) = 2" using al.init_held by (simp add: r(4) g del: al_held.simps)
  ultimately show ?thesis using r(1) by blast
qed

text \<open>C11: Validation of a transaction's account keys. Started with an empty buffer, the check for
  few keys (all pairs) and the check for many keys (a hash set) both decide whether a key occurs
  twice and leave the buffer empty; \<open>validate_account_locks\<close> refuses exactly the key lists that are
  too long or have a duplicate, length first.\<close>

theorem validate_account_locks_ok:
  "validate_account_locks {} keys limit =
     (if unat limit < length keys then Inl TooManyAccountLocks
      else if \<not> distinct keys then Inl AccountLoadedTwice else Inr (), {})"
  by (simp add: validate_account_locks_def has_duplicates_iff)

text \<open>C12: Unlocking undoes locking. If a request is granted, unlocking the same keys gives back
  exactly the table as it was before, entries whose count fell to zero removed.\<close>

theorem try_lock_unlock_accounts:
  assumes "al_inv al" and "\<And>l. al_held al l + count_list keys l < 2 ^ 64"
    and "try_lock_accounts keys al = Some (Inr () :: unit transaction_error + unit, al')"
  shows "unlock_accounts keys al' = Some al"
  by (rule al.acquire_release [OF assms(1) _ assms(2)]) (simp_all add: al_acquire_def assms(3))

theorem try_lock_unlock_accounts_witness:
  "unlock_accounts [(7, True)] \<lparr>write_locks = [7 \<mapsto> 1], readonly_locks = (\<lambda>_. None)\<rparr>
     = Some (account_locks_default :: nat account_locks)"
proof (rule try_lock_unlock_accounts)
  show "al_inv account_locks_default" by (rule al.init_inv)
  show "al_held account_locks_default l + count_list [(7 :: nat, True)] l < 2 ^ 64" for l
    using al.init_held [of l] by simp
  show "try_lock_accounts [(7 :: nat, True)] account_locks_default
      = Some (Inr () :: unit transaction_error + unit, \<lparr>write_locks = [7 \<mapsto> 1], readonly_locks = (\<lambda>_. None)\<rparr>)"
    by (simp add: try_lock_accounts_def can_write_lock_def is_locked_readonly_def is_locked_write_def
        lock_write_def count_up_def checked_add_def account_locks_default_def)
qed

end
