(* ===== verification/Set_Service.thy ===== *)
theory Set_Service
  imports Prelude
begin

text \<open>
  The contract of the validator's compact integer sets: the bit set of threads
  (\<^verbatim>\<open>scheduling-utils/src/thread_aware_account_locks.rs\<close>) and the rolling bit field of slots
  (\<^verbatim>\<open>accounts-db/src/rolling_bit_field.rs\<close>). A representation with an invariant denotes a finite
  set; membership, insertion and removal act on the denoted set. Clients that build sets from
  lists of elements are verified once, here.
\<close>

locale int_set =
  fixes inv :: "'s \<Rightarrow> bool" and \<alpha> :: "'s \<Rightarrow> 'a set" and storable :: "'s \<Rightarrow> 'a \<Rightarrow> bool"
    and member :: "'s \<Rightarrow> 'a \<Rightarrow> bool" and add :: "'a \<Rightarrow> 's \<Rightarrow> 's option"
  assumes finite_\<alpha>: "inv s \<Longrightarrow> finite (\<alpha> s)"
    and member_\<alpha>: "inv s \<Longrightarrow> storable s x \<Longrightarrow> member s x \<longleftrightarrow> x \<in> \<alpha> s"
    and add_\<alpha>: "inv s \<Longrightarrow> storable s x \<Longrightarrow>
      \<exists>s'. add x s = Some s' \<and> inv s' \<and> \<alpha> s' = insert x (\<alpha> s) \<and> (\<forall>y. storable s y \<longrightarrow> storable s' y)"
begin

lemma member_add:
  assumes "inv s" and "storable s x" and "storable s y"
  shows "\<exists>s'. add x s = Some s' \<and> (member s' y \<longleftrightarrow> y = x \<or> member s y)"
  using add_\<alpha> [OF assms(1,2)] assms member_\<alpha> by fastforce

lemma add_all:
  assumes "inv s" and "\<forall>x \<in> set xs. storable s x"
  shows "\<exists>s'. run_list add xs s = Some s' \<and> inv s' \<and> \<alpha> s' = \<alpha> s \<union> set xs \<and> (\<forall>y. storable s y \<longrightarrow> storable s' y)"
  using assms
proof (induction xs arbitrary: s)
  case (Cons x xs)
  then obtain s1 where s1: "add x s = Some s1" "inv s1" "\<alpha> s1 = insert x (\<alpha> s)" "\<forall>y. storable s y \<longrightarrow> storable s1 y"
    using add_\<alpha> [OF Cons.prems(1), of x] by auto
  with Cons.prems(2) have "\<forall>y \<in> set xs. storable s1 y" by simp
  from Cons.IH [OF s1(2) this] obtain s2 where
    "run_list add xs s1 = Some s2" "inv s2" "\<alpha> s2 = \<alpha> s1 \<union> set xs" "\<forall>y. storable s1 y \<longrightarrow> storable s2 y" by blast
  with s1 show ?case by auto
qed simp

lemma member_add_all:
  assumes "inv s" and "\<forall>x \<in> set xs. storable s x" and "storable s y"
  shows "\<exists>s'. run_list add xs s = Some s' \<and> (member s' y \<longleftrightarrow> y \<in> set xs \<or> member s y)"
  using add_all [OF assms(1,2)] assms member_\<alpha> by fastforce

end

locale int_set_del = int_set +
  fixes del :: "'a \<Rightarrow> 's \<Rightarrow> 's"
  assumes del_\<alpha>: "inv s \<Longrightarrow> storable s x \<Longrightarrow>
      inv (del x s) \<and> \<alpha> (del x s) = \<alpha> s - {x} \<and> (\<forall>y. storable s y \<longrightarrow> storable (del x s) y)"
begin

lemma member_del:
  "inv s \<Longrightarrow> storable s x \<Longrightarrow> storable s y \<Longrightarrow> member (del x s) y \<longleftrightarrow> y \<noteq> x \<and> member s y"
  using del_\<alpha> [of s x] member_\<alpha> by auto

end

end
