(* ===== verification/Thread_Set.thy ===== *)
theory Thread_Set
  imports Set_Service
begin

unbundle bit_operations_syntax

text \<open>
  The bit set of threads of \<^verbatim>\<open>scheduling-utils/src/thread_aware_account_locks.rs\<close> and its iterator.
  A shift by 64 or more is masked, as in a build without overflow checks; all callers pass
  thread numbers below 64.
\<close>

section \<open>Model\<close>

type_synonym thread_id = nat
type_synonym thread_set = u64

definition MAX_THREADS :: nat where
  "MAX_THREADS = 64"

text \<open>\<open>u64::count_ones\<close> and \<open>u64::trailing_zeros\<close>.\<close>

definition count_ones :: "u64 \<Rightarrow> nat" where
  "count_ones w = length (filter (bit w) [0..<64])"

definition trailing_zeros :: "u64 \<Rightarrow> nat" where
  "trailing_zeros w = length (takeWhile (\<lambda>i. \<not> bit w i) [0..<64])"

definition as_flag :: "thread_id \<Rightarrow> u64" where
  "as_flag thread_id = push_bit (thread_id mod 64) 1"

definition ts_none :: thread_set where
  "ts_none = 0"

definition ts_any :: "nat \<Rightarrow> thread_set" where
  "ts_any num_threads = (if num_threads = MAX_THREADS then - 1 else as_flag num_threads - 1)"

definition ts_only :: "thread_id \<Rightarrow> thread_set" where
  "ts_only thread_id = as_flag thread_id"

definition ts_num_threads :: "thread_set \<Rightarrow> nat" where
  "ts_num_threads s = count_ones s"

definition only_one_contained :: "thread_set \<Rightarrow> thread_id option" where
  "only_one_contained s = (if ts_num_threads s = 1 then Some (trailing_zeros s) else None)"

definition ts_is_empty :: "thread_set \<Rightarrow> bool" where
  "ts_is_empty s \<longleftrightarrow> s = ts_none"

definition ts_contains :: "thread_set \<Rightarrow> thread_id \<Rightarrow> bool" where
  "ts_contains s thread_id \<longleftrightarrow> s AND as_flag thread_id \<noteq> 0"

definition ts_insert :: "thread_id \<Rightarrow> thread_set \<Rightarrow> thread_set" where
  "ts_insert thread_id s = s OR as_flag thread_id"

definition ts_remove :: "thread_id \<Rightarrow> thread_set \<Rightarrow> thread_set" where
  "ts_remove thread_id s = s AND NOT (as_flag thread_id)"

definition ts_bitand :: "thread_set \<Rightarrow> thread_set \<Rightarrow> thread_set" where
  "ts_bitand s s' = s AND s'"

definition ts_sub :: "thread_set \<Rightarrow> thread_set \<Rightarrow> thread_set" where
  "ts_sub s s' = s AND NOT s'"

definition thread_set_next :: "u64 \<Rightarrow> (thread_id \<times> u64) option" where
  "thread_set_next w = (if w = 0 then None else Some (trailing_zeros w, w AND (w - 1)))"

section \<open>Bits\<close>

definition bits :: "u64 \<Rightarrow> nat set" where
  "bits w = {i. bit w i}"

lemma bits_less: "i \<in> bits w \<Longrightarrow> i < 64"
  using bit_imp_le_length [of w i] by (auto simp: bits_def)

lemma finite_bits: "finite (bits w)"
  by (rule finite_subset [of _ "{..<64}"]) (auto dest: bits_less)

lemma bits_eqI: "bits w = bits v \<Longrightarrow> w = v"
  by (rule bit_eqI) (auto simp: bits_def set_eq_iff)

lemma bits_empty_iff: "bits w = {} \<longleftrightarrow> w = 0"
  using bits_eqI [of w 0] by (auto simp: bits_def)

lemma bit_as_flag: "t < 64 \<Longrightarrow> bit (as_flag t) i \<longleftrightarrow> i = t"
  by (auto simp: as_flag_def bit_exp_iff)

lemma bits_simps:
  "bits (v AND w) = bits v \<inter> bits w"
  "bits (v OR w) = bits v \<union> bits w"
  "bits (NOT w) = {..<64} - bits w"
  "bits 0 = {}"
  "t < 64 \<Longrightarrow> bits (as_flag t) = {t}"
  using bits_less
  by (auto simp: bits_def bit_and_iff bit_or_iff bit_not_iff bit_as_flag)

lemma count_ones_eq: "count_ones w = card (bits w)"
proof -
  have "bits w = set (filter (bit w) [0..<64])" by (auto simp: bits_def dest: bit_imp_le_length)
  moreover have "distinct (filter (bit w) [0..<64])" by simp
  ultimately show ?thesis unfolding count_ones_def by (simp only: distinct_card)
qed

lemma trailing_zeros_least:
  assumes "w \<noteq> 0"
  shows "bit w (trailing_zeros w)" and "\<And>i. bit w i \<Longrightarrow> trailing_zeros w \<le> i" and "trailing_zeros w < 64"
proof -
  let ?P = "\<lambda>i. \<not> bit w i"
  let ?tw = "takeWhile ?P [0..<64]"
  obtain i where i: "bit w i" using assms bit_eqI [of w 0] by auto
  then have "i < 64" using bit_imp_le_length [OF i] by simp
  with i have "\<exists>x \<in> set [0..<64]. \<not> ?P x" by auto
  then have len: "trailing_zeros w < 64"
    unfolding trailing_zeros_def using takeWhile_eq_all_conv [of ?P "[0..<64]"] length_takeWhile_le [of ?P "[0..<64]"]
    by (metis (no_types, lifting) diff_zero length_upt linorder_not_less nat_less_le takeWhile_eq_take take_all_iff)
  then show "trailing_zeros w < 64" .
  show "bit w (trailing_zeros w)"
    using nth_length_takeWhile [of ?P "[0..<64]"] len by (simp add: trailing_zeros_def)
  show "trailing_zeros w \<le> i" if "bit w i" for i
  proof (rule ccontr)
    assume "\<not> trailing_zeros w \<le> i"
    then have "i < length ?tw" by (simp add: trailing_zeros_def)
    then have "?tw ! i \<in> set ?tw" by (rule nth_mem)
    moreover have "?tw ! i = i"
      using \<open>i < length ?tw\<close> len by (simp add: takeWhile_nth trailing_zeros_def)
    ultimately show False using that set_takeWhileD by metis
  qed
qed

lemma trailing_zeros_Min: "w \<noteq> 0 \<Longrightarrow> trailing_zeros w = Min (bits w)"
  by (rule Min_eqI [symmetric]) (auto simp: finite_bits bits_def trailing_zeros_least)

text \<open>Subtracting one and masking clears the lowest set bit.\<close>

lemma clear_lowest_bit:
  assumes "w \<noteq> 0"
  shows "w AND (w - 1) = unset_bit (trailing_zeros w) w"
proof -
  let ?k = "trailing_zeros w"
  let ?v = "unset_bit ?k w"
  note tz = trailing_zeros_least [OF assms]
  have low: "\<not> bit ?v i" if "i \<le> ?k" for i
    using that tz(2) [of i] by (auto simp: bit_unset_bit_iff)
  have "w = ?v OR 2 ^ ?k"
    using tz(1,3) by (intro bit_eqI) (auto simp: bit_or_iff bit_unset_bit_iff bit_exp_iff)
  also have "\<dots> = ?v + 2 ^ ?k"
    by (rule disjunctive_add [symmetric]) (use low in \<open>auto simp: bit_exp_iff\<close>)
  finally have "w - 1 = ?v + mask ?k" by (simp add: mask_eq_exp_minus_1)
  also have "\<dots> = ?v OR mask ?k"
    by (rule disjunctive_add) (use low in \<open>auto simp: bit_mask_iff\<close>)
  finally have "w - 1 = ?v OR mask ?k" .
  then show ?thesis
    using tz(2) by (intro bit_eqI) (auto simp: bit_and_iff bit_or_iff bit_unset_bit_iff bit_mask_iff)
qed

lemma bits_thread_set_next:
  "thread_set_next w = Some (t, w') \<Longrightarrow> t \<in> bits w \<and> bits w' = bits w - {t} \<and> t = Min (bits w)"
  using trailing_zeros_least [of w] trailing_zeros_Min [of w]
  by (auto simp: thread_set_next_def bits_def clear_lowest_bit bit_unset_bit_iff split: if_splits)

function contained_threads :: "u64 \<Rightarrow> thread_id list" where
  "contained_threads w = (case thread_set_next w of None \<Rightarrow> [] | Some (t, w') \<Rightarrow> t # contained_threads w')"
  by auto
termination
proof (relation "measure (\<lambda>w. card (bits w))", goal_cases)
  case (2 w p t w')
  then show ?case using bits_thread_set_next [of w t w'] finite_bits [of w]
    by (auto intro: card_Diff1_less)
qed simp

declare contained_threads.simps [simp del]

lemma contained_threads_eq: "contained_threads w = sorted_list_of_set (bits w)"
proof (induction w rule: contained_threads.induct)
  case (1 w)
  show ?case
  proof (cases "thread_set_next w")
    case None
    then have "w = 0" by (simp add: thread_set_next_def split: if_splits)
    with None show ?thesis by (subst contained_threads.simps) (simp add: bits_simps)
  next
    case (Some p)
    obtain t w' where p: "p = (t, w')" by (cases p)
    have n: "t \<in> bits w" "bits w' = bits w - {t}" "t = Min (bits w)"
      using bits_thread_set_next [of w t w'] Some p by auto
    have "contained_threads w = t # sorted_list_of_set (bits w - {t})"
      using 1 [OF Some] Some p n(2) by (simp add: contained_threads.simps [of w])
    also have "\<dots> = sorted_list_of_set (bits w)"
      unfolding n(3) by (rule sorted_list_of_set_nonempty [OF finite_bits, symmetric]) (use n(1) in blast)
    finally show ?thesis .
  qed
qed

section \<open>Sets of threads\<close>

lemma bits_any: "n \<le> 64 \<Longrightarrow> bits (ts_any n) = {..<n}"
proof (cases "n = 64")
  case False
  assume "n \<le> 64"
  with False have "ts_any n = mask n" by (simp add: ts_any_def MAX_THREADS_def as_flag_def mask_eq_exp_minus_1)
  with \<open>n \<le> 64\<close> show ?thesis by (auto simp: bits_def bit_mask_iff)
qed (auto simp: ts_any_def MAX_THREADS_def bits_def bit_minus_1_iff)

lemma only_one_contained_iff: "only_one_contained w = Some t \<longleftrightarrow> bits w = {t}"
proof
  assume "only_one_contained w = Some t"
  then have c: "card (bits w) = 1" and t: "t = trailing_zeros w"
    by (auto simp: only_one_contained_def ts_num_threads_def count_ones_eq split: if_splits)
  from c obtain u where u: "bits w = {u}" by (auto simp: card_1_singleton_iff)
  then have "w \<noteq> 0" using bits_empty_iff by blast
  then show "bits w = {t}" using trailing_zeros_Min u t by simp
next
  assume b: "bits w = {t}"
  then have "w \<noteq> 0" using bits_empty_iff by blast
  with b show "only_one_contained w = Some t"
    using trailing_zeros_Min by (simp add: only_one_contained_def ts_num_threads_def count_ones_eq)
qed

lemma only_one_contained_None_iff: "only_one_contained w = None \<longleftrightarrow> card (bits w) \<noteq> 1"
  by (simp add: only_one_contained_def ts_num_threads_def count_ones_eq)

lemma bits_ops [simp]:
  "bits (ts_bitand v w) = bits v \<inter> bits w"
  "bits (ts_sub v w) = bits v - bits w"
  "bits ts_none = {}"
  "t < 64 \<Longrightarrow> bits (ts_only t) = {t}"
  "t < 64 \<Longrightarrow> bits (ts_insert t w) = insert t (bits w)"
  "t < 64 \<Longrightarrow> bits (ts_remove t w) = bits w - {t}"
  by (auto simp: ts_bitand_def ts_sub_def ts_none_def ts_only_def ts_insert_def ts_remove_def bits_simps
      dest: bits_less)

lemma ts_contains_iff: "t < 64 \<Longrightarrow> ts_contains w t \<longleftrightarrow> t \<in> bits w"
  unfolding ts_contains_def bits_empty_iff [symmetric] by (auto simp: bits_simps)

lemma ts_is_empty_iff: "ts_is_empty w \<longleftrightarrow> bits w = {}"
  by (simp add: ts_is_empty_def ts_none_def bits_empty_iff)

interpretation ts: int_set_del "\<lambda>_. True" bits "\<lambda>_ t. t < 64" ts_contains "\<lambda>t s. Some (ts_insert t s)" ts_remove
  by unfold_locales (simp_all add: finite_bits ts_contains_iff)

end
