(* ===== verification/Thread_Aware_Locks.thy ===== *)
theory Thread_Aware_Locks
  imports Thread_Set Lock_Service
begin

text \<open>
  The account locks of the banking stage's schedulers,
  \<^verbatim>\<open>scheduling-utils/src/thread_aware_account_locks.rs\<close>: a thread may take a lock beside its own
  locks, so transactions can be queued behind each other on one thread. The lock counters wrap,
  as in the code; a failed assertion or \<open>unreachable!\<close> is \<^const>\<open>None\<close>.
\<close>

section \<open>Model\<close>

type_synonym lock_count = u32

record account_write_locks =
  wl_thread_id :: thread_id
  wl_lock_count :: lock_count

record account_read_locks =
  rl_thread_set :: thread_set
  rl_lock_counts :: "lock_count list"

record thread_account_locks =
  ta_write_locks :: "account_write_locks option"
  ta_read_locks :: "account_read_locks option"

datatype try_lock_error = MultipleConflicts | ThreadNotAllowed

record 'k thread_aware_account_locks =
  ta_num_threads :: nat
  ta_locks :: "'k \<Rightarrow> thread_account_locks option"

definition thread_account_locks_default :: thread_account_locks where
  "thread_account_locks_default = \<lparr>ta_write_locks = None, ta_read_locks = None\<rparr>"

definition ta_new :: "nat \<Rightarrow> 'k thread_aware_account_locks option" where
  "ta_new num_threads = do {
     assert_that (num_threads > 0);
     assert_that (num_threads \<le> MAX_THREADS);
     Some \<lparr>ta_num_threads = num_threads, ta_locks = (\<lambda>_. None)\<rparr>
   }"

definition schedulable_threads :: "bool \<Rightarrow> 'k \<Rightarrow> 'k thread_aware_account_locks \<Rightarrow> thread_set option" where
  "schedulable_threads WRITE account self =
     (case ta_locks self account of
        None \<Rightarrow> Some (ts_any (ta_num_threads self))
      | Some entry \<Rightarrow>
          (case (ta_write_locks entry, ta_read_locks entry) of
             (None, Some read_locks) \<Rightarrow>
               Some (if WRITE
                     then (case only_one_contained (rl_thread_set read_locks) of
                             Some t \<Rightarrow> ts_only t | None \<Rightarrow> ts_none)
                     else ts_any (ta_num_threads self))
           | (Some write_locks, None) \<Rightarrow> Some (ts_only (wl_thread_id write_locks))
           | (Some write_locks, Some read_locks) \<Rightarrow> do {
               assert_that (only_one_contained (rl_thread_set read_locks) = Some (wl_thread_id write_locks));
               Some (rl_thread_set read_locks)
             }
           | (None, None) \<Rightarrow> None))"

definition read_schedulable_threads :: "'k \<Rightarrow> 'k thread_aware_account_locks \<Rightarrow> thread_set option" where
  "read_schedulable_threads account self = schedulable_threads False account self"

definition write_schedulable_threads :: "'k \<Rightarrow> 'k thread_aware_account_locks \<Rightarrow> thread_set option" where
  "write_schedulable_threads account self = schedulable_threads True account self"

text \<open>The two loops of \<open>accounts_schedulable_threads\<close>; the inner option is its early return.\<close>

fun narrow_threads :: "('k \<Rightarrow> thread_set option) \<Rightarrow> 'k list \<Rightarrow> thread_set \<Rightarrow> thread_set option option" where
  "narrow_threads threads_of [] s = Some (Some s)"
| "narrow_threads threads_of (account # accounts) s = do {
     t \<leftarrow> threads_of account;
     let s' = ts_bitand s t;
     (if ts_is_empty s' then Some None else narrow_threads threads_of accounts s')
   }"

definition accounts_schedulable_threads ::
  "'k list \<Rightarrow> 'k list \<Rightarrow> 'k thread_aware_account_locks \<Rightarrow> thread_set option option" where
  "accounts_schedulable_threads write_account_locks read_account_locks self = do {
     r \<leftarrow> narrow_threads (\<lambda>a. write_schedulable_threads a self) write_account_locks (ts_any (ta_num_threads self));
     (case r of
        None \<Rightarrow> Some None
      | Some s \<Rightarrow> narrow_threads (\<lambda>a. read_schedulable_threads a self) read_account_locks s)
   }"

definition ta_entry :: "'k \<Rightarrow> 'k thread_aware_account_locks \<Rightarrow> thread_account_locks" where
  "ta_entry account self =
     (case ta_locks self account of None \<Rightarrow> thread_account_locks_default | Some e \<Rightarrow> e)"

definition write_lock_account ::
  "'k \<Rightarrow> thread_id \<Rightarrow> 'k thread_aware_account_locks \<Rightarrow> 'k thread_aware_account_locks option" where
  "write_lock_account account thread_id self = do {
     let entry = ta_entry account self;
     (case ta_read_locks entry of
        Some read_locks \<Rightarrow> assert_that (only_one_contained (rl_thread_set read_locks) = Some thread_id)
      | None \<Rightarrow> Some ());
     w \<leftarrow> (case ta_write_locks entry of
        Some write_locks \<Rightarrow> do {
          assert_that (wl_thread_id write_locks = thread_id);
          Some (write_locks\<lparr>wl_lock_count := wl_lock_count write_locks + 1\<rparr>)
        }
      | None \<Rightarrow> Some \<lparr>wl_thread_id = thread_id, wl_lock_count = 1\<rparr>);
     Some (self\<lparr>ta_locks := (ta_locks self)(account \<mapsto> entry\<lparr>ta_write_locks := Some w\<rparr>)\<rparr>)
   }"

definition write_unlock_account ::
  "'k \<Rightarrow> thread_id \<Rightarrow> 'k thread_aware_account_locks \<Rightarrow> 'k thread_aware_account_locks option" where
  "write_unlock_account account thread_id self = do {
     entry \<leftarrow> ta_locks self account;
     write_locks \<leftarrow> ta_write_locks entry;
     assert_that (wl_thread_id write_locks = thread_id);
     let n = wl_lock_count write_locks - 1;
     Some (self\<lparr>ta_locks := (ta_locks self)(account :=
       (if n = 0
        then (if ta_read_locks entry = None then None else Some (entry\<lparr>ta_write_locks := None\<rparr>))
        else Some (entry\<lparr>ta_write_locks := Some (write_locks\<lparr>wl_lock_count := n\<rparr>)\<rparr>)))\<rparr>)
   }"

definition read_lock_account ::
  "'k \<Rightarrow> thread_id \<Rightarrow> 'k thread_aware_account_locks \<Rightarrow> 'k thread_aware_account_locks option" where
  "read_lock_account account thread_id self = do {
     let entry = ta_entry account self;
     (case ta_write_locks entry of
        Some write_locks \<Rightarrow> assert_that (wl_thread_id write_locks = thread_id)
      | None \<Rightarrow> Some ());
     r \<leftarrow> (case ta_read_locks entry of
        Some read_locks \<Rightarrow> do {
          assert_that (thread_id < length (rl_lock_counts read_locks));
          Some \<lparr>rl_thread_set = ts_insert thread_id (rl_thread_set read_locks),
                rl_lock_counts = (rl_lock_counts read_locks)[thread_id := rl_lock_counts read_locks ! thread_id + 1]\<rparr>
        }
      | None \<Rightarrow> do {
          assert_that (thread_id < MAX_THREADS);
          Some \<lparr>rl_thread_set = ts_only thread_id,
                rl_lock_counts = (replicate MAX_THREADS 0)[thread_id := 1]\<rparr>
        });
     Some (self\<lparr>ta_locks := (ta_locks self)(account \<mapsto> entry\<lparr>ta_read_locks := Some r\<rparr>)\<rparr>)
   }"

definition read_unlock_account ::
  "'k \<Rightarrow> thread_id \<Rightarrow> 'k thread_aware_account_locks \<Rightarrow> 'k thread_aware_account_locks option" where
  "read_unlock_account account thread_id self = do {
     entry \<leftarrow> ta_locks self account;
     read_locks \<leftarrow> ta_read_locks entry;
     assert_that (ts_contains (rl_thread_set read_locks) thread_id);
     assert_that (thread_id < length (rl_lock_counts read_locks));
     let n = rl_lock_counts read_locks ! thread_id - 1;
     let counts = (rl_lock_counts read_locks)[thread_id := n];
     let s = ts_remove thread_id (rl_thread_set read_locks);
     Some (self\<lparr>ta_locks := (ta_locks self)(account :=
       (if n = 0
        then (if ts_is_empty s
              then (if ta_write_locks entry = None then None else Some (entry\<lparr>ta_read_locks := None\<rparr>))
              else Some (entry\<lparr>ta_read_locks := Some \<lparr>rl_thread_set = s, rl_lock_counts = counts\<rparr>\<rparr>))
        else Some (entry\<lparr>ta_read_locks := Some (read_locks\<lparr>rl_lock_counts := counts\<rparr>)\<rparr>)))\<rparr>)
   }"

fun for_accounts ::
  "('k \<Rightarrow> thread_id \<Rightarrow> 'k thread_aware_account_locks \<Rightarrow> 'k thread_aware_account_locks option) \<Rightarrow> thread_id
     \<Rightarrow> 'k list \<Rightarrow> 'k thread_aware_account_locks \<Rightarrow> 'k thread_aware_account_locks option" where
  "for_accounts f thread_id [] self = Some self"
| "for_accounts f thread_id (account # accounts) self = do {
     self' \<leftarrow> f account thread_id self;
     for_accounts f thread_id accounts self'
   }"

definition ta_lock_accounts ::
  "'k list \<Rightarrow> 'k list \<Rightarrow> thread_id \<Rightarrow> 'k thread_aware_account_locks \<Rightarrow> 'k thread_aware_account_locks option" where
  "ta_lock_accounts write_account_locks read_account_locks thread_id self = do {
     assert_that (thread_id < ta_num_threads self);
     self1 \<leftarrow> for_accounts write_lock_account thread_id write_account_locks self;
     for_accounts read_lock_account thread_id read_account_locks self1
   }"

definition ta_unlock_accounts ::
  "'k list \<Rightarrow> 'k list \<Rightarrow> thread_id \<Rightarrow> 'k thread_aware_account_locks \<Rightarrow> 'k thread_aware_account_locks option" where
  "ta_unlock_accounts write_account_locks read_account_locks thread_id self = do {
     self1 \<leftarrow> for_accounts write_unlock_account thread_id write_account_locks self;
     for_accounts read_unlock_account thread_id read_account_locks self1
   }"

text \<open>\<open>thread_selector\<close> is the caller's closure.\<close>

definition ta_try_lock_accounts ::
  "'k list \<Rightarrow> 'k list \<Rightarrow> thread_set \<Rightarrow> (thread_set \<Rightarrow> thread_id) \<Rightarrow> 'k thread_aware_account_locks
     \<Rightarrow> ((try_lock_error + thread_id) \<times> 'k thread_aware_account_locks) option" where
  "ta_try_lock_accounts write_account_locks read_account_locks allowed_threads thread_selector self = do {
     r \<leftarrow> accounts_schedulable_threads write_account_locks read_account_locks self;
     (case r of
        None \<Rightarrow> Some (Inl MultipleConflicts, self)
      | Some s \<Rightarrow>
          (let s' = ts_bitand s allowed_threads
           in if ts_is_empty s' then Some (Inl ThreadNotAllowed, self)
              else do {
                let thread_id = thread_selector s';
                self' \<leftarrow> ta_lock_accounts write_account_locks read_account_locks thread_id self;
                Some (Inr thread_id, self')
              }))
   }"

section \<open>One account\<close>

definition write_ok :: "nat \<Rightarrow> account_write_locks \<Rightarrow> bool" where
  "write_ok n w \<longleftrightarrow> wl_thread_id w < n \<and> wl_lock_count w \<noteq> 0"

definition read_ok :: "nat \<Rightarrow> account_read_locks \<Rightarrow> bool" where
  "read_ok n r \<longleftrightarrow> length (rl_lock_counts r) = 64 \<and> bits (rl_thread_set r) \<noteq> {} \<and>
     bits (rl_thread_set r) \<subseteq> {..<n} \<and> (\<forall>t < 64. rl_lock_counts r ! t \<noteq> 0 \<longleftrightarrow> t \<in> bits (rl_thread_set r))"

definition entry_ok :: "nat \<Rightarrow> thread_account_locks \<Rightarrow> bool" where
  "entry_ok n e \<longleftrightarrow> pred_option (write_ok n) (ta_write_locks e) \<and> pred_option (read_ok n) (ta_read_locks e) \<and>
     (\<forall>w r. ta_write_locks e = Some w \<longrightarrow> ta_read_locks e = Some r \<longrightarrow> bits (rl_thread_set r) = {wl_thread_id w})"

fun entry_held :: "thread_account_locks \<Rightarrow> bool \<Rightarrow> thread_id \<Rightarrow> nat" where
  "entry_held e True t = (case ta_write_locks e of None \<Rightarrow> 0
     | Some w \<Rightarrow> if wl_thread_id w = t then unat (wl_lock_count w) else 0)"
| "entry_held e False t = (case ta_read_locks e of None \<Rightarrow> 0
     | Some r \<Rightarrow> if t < 64 then unat (rl_lock_counts r ! t) else 0)"

lemma default_held [simp]: "entry_held thread_account_locks_default w t = 0"
  by (cases w) (simp_all add: thread_account_locks_default_def)

lemma default_ok [simp]: "entry_ok n thread_account_locks_default"
  by (simp add: entry_ok_def thread_account_locks_default_def)

lemma default_iff: "e = thread_account_locks_default \<longleftrightarrow> ta_write_locks e = None \<and> ta_read_locks e = None"
  by (cases e) (simp add: thread_account_locks_default_def)

lemma unat_word_pos_iff: "0 < unat (x :: 'a::len word) \<longleftrightarrow> x \<noteq> 0"
  by (simp add: unat_gt_0)

lemma held_read_iff:
  assumes "entry_ok n e" and "ta_read_locks e = Some r" and "n \<le> 64"
  shows "0 < entry_held e False t \<longleftrightarrow> t \<in> bits (rl_thread_set r)"
  using assms bits_less [of t] by (auto simp: entry_ok_def read_ok_def unat_word_pos_iff)

lemma held_write_iff:
  assumes "entry_ok n e"
  shows "0 < entry_held e True t \<longleftrightarrow> (\<exists>w. ta_write_locks e = Some w \<and> wl_thread_id w = t)"
  using assms by (auto simp: entry_ok_def write_ok_def unat_word_pos_iff split: option.splits)

lemma held_less: "entry_ok n e \<Longrightarrow> n \<le> 64 \<Longrightarrow> 0 < entry_held e w t \<Longrightarrow> t < n"
proof (cases w)
  case False
  assume "entry_ok n e" "n \<le> 64" "0 < entry_held e w t"
  with False show ?thesis
    using held_read_iff [of n e _ t] by (cases "ta_read_locks e") (auto simp: entry_ok_def read_ok_def)
qed (auto simp: entry_ok_def write_ok_def split: option.splits if_splits)

lemma write_locks_canonical:
  assumes "entry_ok n e" and "entry_ok n e'" and "\<And>t. entry_held e True t = entry_held e' True t"
  shows "ta_write_locks e = ta_write_locks e'"
proof (cases "ta_write_locks e")
  case None
  then have "\<not> 0 < entry_held e' True t" for t using assms(3) [of t] by simp
  with held_write_iff [OF assms(2)] None show ?thesis by (cases "ta_write_locks e'") auto
next
  case (Some w)
  then have "0 < entry_held e' True (wl_thread_id w)"
    using held_write_iff [OF assms(1)] assms(3) by metis
  then obtain w' where w': "ta_write_locks e' = Some w'" "wl_thread_id w' = wl_thread_id w"
    using held_write_iff [OF assms(2)] by blast
  then have "unat (wl_lock_count w) = unat (wl_lock_count w')"
    using assms(3) [of "wl_thread_id w"] Some by simp
  then have "w = w'" using w'(2) by (cases w; cases w') (auto intro: unsigned_word_eqI)
  with Some w'(1) show ?thesis by simp
qed

lemma read_locks_canonical:
  assumes "entry_ok n e" and "entry_ok n e'" and "n \<le> 64" and "\<And>t. entry_held e False t = entry_held e' False t"
  shows "ta_read_locks e = ta_read_locks e'"
proof -
  have some: "ta_read_locks a = ta_read_locks b"
    if ab: "entry_ok n a" "entry_ok n b" "ta_read_locks a = Some r" "\<And>t. entry_held a False t = entry_held b False t"
    for a b r
  proof -
    obtain t where "t \<in> bits (rl_thread_set r)" using ab(1,3) by (auto simp: entry_ok_def read_ok_def)
    then have "0 < entry_held b False t" using held_read_iff [OF ab(1,3) assms(3)] ab(4) by simp
    then obtain r' where r': "ta_read_locks b = Some r'" by (cases "ta_read_locks b") auto
    have "bits (rl_thread_set r) = bits (rl_thread_set r')"
      using held_read_iff [OF ab(1,3) assms(3)] held_read_iff [OF ab(2) r' assms(3)] ab(4) by auto
    moreover have "rl_lock_counts r = rl_lock_counts r'"
    proof (rule nth_equalityI)
      fix i assume "i < length (rl_lock_counts r)"
      then have "i < 64" using ab(1,3) by (simp add: entry_ok_def read_ok_def)
      then show "rl_lock_counts r ! i = rl_lock_counts r' ! i"
        using ab(4) [of i] ab(3) r' by (auto intro: unsigned_word_eqI)
    qed (use ab r' in \<open>simp add: entry_ok_def read_ok_def\<close>)
    ultimately have "r = r'" using bits_eqI by (cases r; cases r') auto
    then show ?thesis using ab(3) r' by simp
  qed
  show ?thesis
  proof (cases "ta_read_locks e")
    case None
    show ?thesis
    proof (cases "ta_read_locks e'")
      case (Some r)
      show ?thesis by (rule some [OF assms(2,1) Some assms(4) [symmetric], symmetric])
    qed (use None in simp)
  next
    case (Some r)
    show ?thesis by (rule some [OF assms(1,2) Some assms(4)])
  qed
qed

declare entry_held.simps [simp del]

section \<open>The table\<close>

definition ta_inv :: "nat \<Rightarrow> 'k thread_aware_account_locks \<Rightarrow> bool" where
  "ta_inv n s \<longleftrightarrow> ta_num_threads s = n \<and> (\<forall>k. entry_ok n (ta_entry k s)) \<and>
     (\<forall>k. ta_locks s k \<noteq> Some thread_account_locks_default)"

fun ta_held :: "'k thread_aware_account_locks \<Rightarrow> 'k \<times> bool \<times> thread_id \<Rightarrow> nat" where
  "ta_held s (k, w, t) = entry_held (ta_entry k s) w t"

definition set_entry ::
  "'k \<Rightarrow> thread_account_locks \<Rightarrow> 'k thread_aware_account_locks \<Rightarrow> 'k thread_aware_account_locks" where
  "set_entry k e s = s\<lparr>ta_locks := (ta_locks s)(k := if e = thread_account_locks_default then None else Some e)\<rparr>"

lemma ta_entry_set [simp]: "ta_entry k' (set_entry k e s) = (if k' = k then e else ta_entry k' s)"
  by (simp add: ta_entry_def set_entry_def)

lemma ta_inv_set: "ta_inv n s \<Longrightarrow> entry_ok n e \<Longrightarrow> ta_inv n (set_entry k e s)"
  by (auto simp: ta_inv_def) (auto simp: set_entry_def split: if_splits)

lemma ta_held_set:
  assumes "\<And>w' t'. entry_held e w' t' = (if w' = w \<and> t' = t then f (ta_held s (k, w, t)) else entry_held (ta_entry k s) w' t')"
  shows "ta_held (set_entry k e s) = (ta_held s)((k, w, t) := f (ta_held s (k, w, t)))"
proof
  fix l :: "'a \<times> bool \<times> thread_id"
  obtain k' w' t' where l: "l = (k', w', t')" by (cases l)
  show "ta_held (set_entry k e s) l = ((ta_held s)((k, w, t) := f (ta_held s (k, w, t)))) l"
    using assms [of w' t'] unfolding l by (cases "k' = k") auto
qed

lemma ta_locks_entry:
  "ta_inv n s \<Longrightarrow> ta_locks s k = (if ta_entry k s = thread_account_locks_default then None else Some (ta_entry k s))"
  by (auto simp: ta_inv_def ta_entry_def split: option.splits)

definition ta_conflict :: "'k \<times> bool \<times> thread_id \<Rightarrow> 'k \<times> bool \<times> thread_id \<Rightarrow> bool" where
  "ta_conflict l m \<longleftrightarrow> fst l = fst m \<and> (fst (snd l) \<or> fst (snd m)) \<and> snd (snd l) \<noteq> snd (snd m)"

text \<open>The effect of the four operations on the entry of an account.\<close>

lemma write_lock_account_ok:
  assumes inv: "ta_inv n s" and n: "n \<le> 64" and t: "t < n" and room: "ta_held s (k, True, t) + 1 < 2 ^ 32"
    and free: "\<And>w t'. 0 < ta_held s (k, w, t') \<Longrightarrow> t' = t"
  shows "\<exists>s'. write_lock_account k t s = Some s' \<and> ta_inv n s' \<and>
    ta_held s' = (ta_held s)((k, True, t) := ta_held s (k, True, t) + 1)"
proof -
  let ?e = "ta_entry k s"
  have ok: "entry_ok n ?e" using inv by (simp add: ta_inv_def)
  have rd: "bits (rl_thread_set r) = {t}" if "ta_read_locks ?e = Some r" for r
  proof -
    have "bits (rl_thread_set r) \<noteq> {}" using ok that by (simp add: entry_ok_def read_ok_def)
    moreover have "x = t" if "x \<in> bits (rl_thread_set r)" for x
      using free [of False x] held_read_iff [OF ok _ n] that \<open>ta_read_locks ?e = Some r\<close> by simp
    ultimately show ?thesis by blast
  qed
  have wr: "wl_thread_id w = t" if "ta_write_locks ?e = Some w" for w
    using free [of True "wl_thread_id w"] held_write_iff [OF ok] that by simp
  define w' where "w' = (case ta_write_locks ?e of None \<Rightarrow> \<lparr>wl_thread_id = t, wl_lock_count = 1\<rparr>
    | Some w \<Rightarrow> w\<lparr>wl_lock_count := wl_lock_count w + 1\<rparr>)"
  let ?e' = "?e\<lparr>ta_write_locks := Some w'\<rparr>"
  have w': "wl_thread_id w' = t \<and> unat (wl_lock_count w') = ta_held s (k, True, t) + 1"
  proof (cases "ta_write_locks ?e")
    case (Some w)
    then show ?thesis
      using wr [OF Some] room unat_add_bounded [of "wl_lock_count w" 1] by (simp add: w'_def entry_held.simps)
  qed (simp add: w'_def entry_held.simps)
  have "write_ok n w'" using w' t by (simp add: write_ok_def) (metis Suc_eq_plus1 nat.distinct(1) unat_0)
  then have ok': "entry_ok n ?e'" using ok rd w' by (auto simp: entry_ok_def)
  have "write_lock_account k t s = Some (set_entry k ?e' s)"
    using rd wr by (auto simp: write_lock_account_def Let_def set_entry_def default_iff w'_def
        only_one_contained_iff split: option.splits)
  moreover have "entry_held ?e' w t' = (if w = True \<and> t' = t then ta_held s (k, True, t) + 1 else entry_held ?e w t')"
    for w t'
    using w' wr by (cases w) (auto simp: entry_held.simps split: option.splits)
  then have "ta_held (set_entry k ?e' s) = (ta_held s)((k, True, t) := ta_held s (k, True, t) + 1)"
    by (rule ta_held_set)
  ultimately show ?thesis using ta_inv_set [OF inv ok'] by blast
qed

lemma write_lock_account_refused:
  assumes inv: "ta_inv n s" and n: "n \<le> 64" and held: "0 < ta_held s (k, w, t')" and ne: "t' \<noteq> t"
  shows "write_lock_account k t s = None"
proof -
  have ok: "entry_ok n (ta_entry k s)" using inv by (simp add: ta_inv_def)
  show ?thesis
  proof (cases w)
    case True
    then obtain w' where "ta_write_locks (ta_entry k s) = Some w'" "wl_thread_id w' = t'"
      using held held_write_iff [OF ok] by auto
    with ne show ?thesis by (auto simp: write_lock_account_def Let_def split: option.splits)
  next
    case False
    then obtain r where r: "ta_read_locks (ta_entry k s) = Some r"
      using held by (cases "ta_read_locks (ta_entry k s)") (auto simp: entry_held.simps)
    then have "t' \<in> bits (rl_thread_set r)" using held held_read_iff [OF ok r n] False by simp
    with ne have "only_one_contained (rl_thread_set r) \<noteq> Some t" by (auto simp: only_one_contained_iff)
    with r show ?thesis by (simp add: write_lock_account_def Let_def assert_that_def)
  qed
qed

lemma read_lock_account_ok:
  assumes inv: "ta_inv n s" and n: "n \<le> 64" and t: "t < n" and room: "ta_held s (k, False, t) + 1 < 2 ^ 32"
    and free: "\<And>t'. 0 < ta_held s (k, True, t') \<Longrightarrow> t' = t"
  shows "\<exists>s'. read_lock_account k t s = Some s' \<and> ta_inv n s' \<and>
    ta_held s' = (ta_held s)((k, False, t) := ta_held s (k, False, t) + 1)"
proof -
  let ?e = "ta_entry k s"
  have ok: "entry_ok n ?e" using inv by (simp add: ta_inv_def)
  have t64: "t < 64" using t n by simp
  have wr: "wl_thread_id w = t" if "ta_write_locks ?e = Some w" for w
    using free [of "wl_thread_id w"] held_write_iff [OF ok] that by simp
  define r' where "r' = (case ta_read_locks ?e of
      None \<Rightarrow> \<lparr>rl_thread_set = ts_only t, rl_lock_counts = (replicate MAX_THREADS 0)[t := 1]\<rparr>
    | Some r \<Rightarrow> \<lparr>rl_thread_set = ts_insert t (rl_thread_set r),
                rl_lock_counts = (rl_lock_counts r)[t := rl_lock_counts r ! t + 1]\<rparr>)"
  let ?e' = "?e\<lparr>ta_read_locks := Some r'\<rparr>"
  have len: "length (rl_lock_counts r) = 64" if "ta_read_locks ?e = Some r" for r
    using ok that by (simp add: entry_ok_def read_ok_def)
  have cnt: "unat (rl_lock_counts r' ! x) = (if x = t then entry_held ?e False t + 1 else entry_held ?e False x)"
    if "x < 64" for x
  proof (cases "ta_read_locks ?e")
    case (Some r)
    then show ?thesis
      using that t64 room len [OF Some] unat_add_bounded [of "rl_lock_counts r ! t" 1]
      by (simp add: r'_def entry_held.simps nth_list_update)
  qed (use that t64 in \<open>simp add: r'_def entry_held.simps nth_list_update MAX_THREADS_def\<close>)
  have set: "bits (rl_thread_set r') = insert t (case ta_read_locks ?e of None \<Rightarrow> {} | Some r \<Rightarrow> bits (rl_thread_set r))"
    using t64 by (simp add: r'_def split: option.split)
  have nz: "rl_lock_counts r' ! x \<noteq> 0 \<longleftrightarrow> x \<in> bits (rl_thread_set r')" if "x < 64" for x
  proof -
    have "rl_lock_counts r' ! x \<noteq> 0 \<longleftrightarrow> x = t \<or> 0 < entry_held ?e False x"
      unfolding unat_word_pos_iff [symmetric] cnt [OF that] by simp
    also have "\<dots> \<longleftrightarrow> x \<in> bits (rl_thread_set r')"
      using held_read_iff [OF ok _ n, of _ x] unfolding set
      by (cases "ta_read_locks ?e") (auto simp: entry_held.simps)
    finally show ?thesis .
  qed
  have "length (rl_lock_counts r') = 64" using len by (simp add: r'_def MAX_THREADS_def split: option.split)
  moreover have "bits (rl_thread_set r') \<subseteq> {..<n}"
    using t ok unfolding set by (auto simp: entry_ok_def read_ok_def split: option.splits)
  ultimately have "read_ok n r'" using nz set by (auto simp: read_ok_def)
  moreover have "bits (rl_thread_set r') = {wl_thread_id w}" if "ta_write_locks ?e = Some w" for w
    using ok wr [OF that] that unfolding set by (auto simp: entry_ok_def split: option.splits)
  ultimately have ok': "entry_ok n ?e'" using ok by (auto simp: entry_ok_def)
  have "read_lock_account k t s = Some (set_entry k ?e' s)"
    using wr len t64
    by (auto simp: read_lock_account_def Let_def set_entry_def default_iff r'_def MAX_THREADS_def split: option.splits)
  moreover have "entry_held ?e' w t' = (if w = False \<and> t' = t then ta_held s (k, False, t) + 1 else entry_held ?e w t')"
    for w t'
  proof (cases w)
    case False
    show ?thesis
    proof (cases "t' < 64")
      case True
      with False cnt [OF True] show ?thesis by (simp add: entry_held.simps(2) [of ?e'])
    next
      case False
      with \<open>\<not> w\<close> t64 show ?thesis by (auto simp: entry_held.simps split: option.split)
    qed
  qed (simp add: entry_held.simps)
  then have "ta_held (set_entry k ?e' s) = (ta_held s)((k, False, t) := ta_held s (k, False, t) + 1)"
    by (rule ta_held_set)
  ultimately show ?thesis using ta_inv_set [OF inv ok'] by blast
qed

lemma read_lock_account_refused:
  assumes inv: "ta_inv n s" and held: "0 < ta_held s (k, True, t')" and ne: "t' \<noteq> t"
  shows "read_lock_account k t s = None"
proof -
  have ok: "entry_ok n (ta_entry k s)" using inv by (simp add: ta_inv_def)
  obtain w where "ta_write_locks (ta_entry k s) = Some w" "wl_thread_id w = t'"
    using held held_write_iff [OF ok] by auto
  with ne show ?thesis by (auto simp: read_lock_account_def Let_def)
qed

lemma write_unlock_account_ok:
  assumes inv: "ta_inv n s" and held: "0 < ta_held s (k, True, t)"
  shows "\<exists>s'. write_unlock_account k t s = Some s' \<and> ta_inv n s' \<and>
    ta_held s' = (ta_held s)((k, True, t) := ta_held s (k, True, t) - 1)"
proof -
  let ?e = "ta_entry k s"
  have ok: "entry_ok n ?e" using inv by (simp add: ta_inv_def)
  obtain w where w: "ta_write_locks ?e = Some w" "wl_thread_id w = t"
    using held held_write_iff [OF ok] by auto
  then have "?e \<noteq> thread_account_locks_default" by (simp add: default_iff)
  then have lk: "ta_locks s k = Some ?e" using ta_locks_entry [OF inv] by simp
  let ?n = "wl_lock_count w - 1"
  have un: "unat ?n = entry_held ?e True t - 1"
    using held w unat_sub_bounded [of 1 "wl_lock_count w"]
    by (simp add: entry_held.simps word_le_nat_alt)
  define e' where "e' = (if ?n = 0 then ?e\<lparr>ta_write_locks := None\<rparr>
    else ?e\<lparr>ta_write_locks := Some (w\<lparr>wl_lock_count := ?n\<rparr>)\<rparr>)"
  have ok': "entry_ok n e'" using ok w by (auto simp: e'_def entry_ok_def write_ok_def)
  have "write_unlock_account k t s = Some (set_entry k e' s)"
    using w lk by (auto simp: write_unlock_account_def Let_def set_entry_def default_iff e'_def)
  moreover have "entry_held e' w' t' = (if w' = True \<and> t' = t then ta_held s (k, True, t) - 1 else entry_held ?e w' t')"
    for w' t'
    using w un by (cases w') (auto simp: e'_def entry_held.simps)
  then have "ta_held (set_entry k e' s) = (ta_held s)((k, True, t) := ta_held s (k, True, t) - 1)"
    by (rule ta_held_set)
  ultimately show ?thesis using ta_inv_set [OF inv ok'] by blast
qed

lemma read_unlock_account_ok:
  assumes inv: "ta_inv n s" and n: "n \<le> 64" and held: "0 < ta_held s (k, False, t)"
  shows "\<exists>s'. read_unlock_account k t s = Some s' \<and> ta_inv n s' \<and>
    ta_held s' = (ta_held s)((k, False, t) := ta_held s (k, False, t) - 1)"
proof -
  let ?e = "ta_entry k s"
  have ok: "entry_ok n ?e" using inv by (simp add: ta_inv_def)
  obtain r where r: "ta_read_locks ?e = Some r"
    using held by (cases "ta_read_locks ?e") (auto simp: entry_held.simps)
  have mem: "t \<in> bits (rl_thread_set r)" using held held_read_iff [OF ok r n] by simp
  then have t64: "t < 64" by (rule bits_less)
  have ro: "read_ok n r" using ok r by (simp add: entry_ok_def)
  then have len: "length (rl_lock_counts r) = 64" by (simp add: read_ok_def)
  have "?e \<noteq> thread_account_locks_default" using r by (simp add: default_iff)
  then have lk: "ta_locks s k = Some ?e" using ta_locks_entry [OF inv] by simp
  let ?n = "rl_lock_counts r ! t - 1"
  let ?c = "(rl_lock_counts r)[t := ?n]"
  let ?s = "ts_remove t (rl_thread_set r)"
  have un: "unat ?n = entry_held ?e False t - 1"
    using held r t64 unat_sub_bounded [of 1 "rl_lock_counts r ! t"]
    by (simp add: entry_held.simps word_le_nat_alt)
  define e' where "e' = (if ?n = 0
    then (if bits ?s = {} then ?e\<lparr>ta_read_locks := None\<rparr>
          else ?e\<lparr>ta_read_locks := Some \<lparr>rl_thread_set = ?s, rl_lock_counts = ?c\<rparr>\<rparr>)
    else ?e\<lparr>ta_read_locks := Some (r\<lparr>rl_lock_counts := ?c\<rparr>)\<rparr>)"
  have "read_ok n \<lparr>rl_thread_set = ?s, rl_lock_counts = ?c\<rparr>" if "?n = 0" "bits ?s \<noteq> {}"
    using ro that t64 by (auto simp: read_ok_def nth_list_update)
  moreover have "read_ok n (r\<lparr>rl_lock_counts := ?c\<rparr>)" if "?n \<noteq> 0"
    using ro that mem t64 by (auto simp: read_ok_def nth_list_update)
  moreover have "bits ?s = {}" if "ta_write_locks ?e = Some w" for w
    using ok r that mem t64 by (auto simp: entry_ok_def)
  ultimately have ok': "entry_ok n e'" using ok r by (auto simp: e'_def entry_ok_def)
  have "read_unlock_account k t s = Some (set_entry k e' s)"
    using r lk mem t64 len
    by (auto simp: read_unlock_account_def Let_def set_entry_def default_iff e'_def ts_contains_iff ts_is_empty_iff)
  moreover have "entry_held e' w' t' = (if w' = False \<and> t' = t then ta_held s (k, False, t) - 1 else entry_held ?e w' t')"
    for w' t'
  proof (cases w')
    case False
    show ?thesis
    proof (cases "?n = 0 \<and> bits ?s = {}")
      case True
      then have "bits (rl_thread_set r) = {t}" using mem t64 by auto
      then have "entry_held ?e False t' = 0" if "t' \<noteq> t" using held_read_iff [OF ok r n, of t'] that by simp
      with True False un show ?thesis by (auto simp: e'_def entry_held.simps(2) [of "ta_read_locks_update _ _"])
    next
      case ne: False
      have "unat (?c ! t') = (if t' = t then unat ?n else unat (rl_lock_counts r ! t'))" if "t' < 64"
        using that len by (simp add: nth_list_update)
      with ne False un r t64 show ?thesis by (auto simp: e'_def entry_held.simps)
    qed
  qed (simp add: e'_def entry_held.simps)
  then have "ta_held (set_entry k e' s) = (ta_held s)((k, False, t) := ta_held s (k, False, t) - 1)"
    by (rule ta_held_set)
  ultimately show ?thesis using ta_inv_set [OF inv ok'] by blast
qed

section \<open>Lists of locks\<close>

type_synonym 'k lock_request = "'k list \<times> 'k list \<times> thread_id"

fun ta_locks_of :: "'k lock_request \<Rightarrow> ('k \<times> bool \<times> thread_id) list" where
  "ta_locks_of (ws, rs, t) = map (\<lambda>k. (k, True, t)) ws @ map (\<lambda>k. (k, False, t)) rs"

fun lock_one :: "'k \<times> bool \<times> thread_id \<Rightarrow> 'k thread_aware_account_locks \<Rightarrow> 'k thread_aware_account_locks option" where
  "lock_one (k, w, t) s = (if w then write_lock_account k t s else read_lock_account k t s)"

fun unlock_one :: "'k \<times> bool \<times> thread_id \<Rightarrow> 'k thread_aware_account_locks \<Rightarrow> 'k thread_aware_account_locks option" where
  "unlock_one (k, w, t) s = (if w then write_unlock_account k t s else read_unlock_account k t s)"

lemma for_accounts_run_list:
  "for_accounts write_lock_account t ks s = run_list lock_one (map (\<lambda>k. (k, True, t)) ks) s"
  "for_accounts read_lock_account t ks s = run_list lock_one (map (\<lambda>k. (k, False, t)) ks) s"
  "for_accounts write_unlock_account t ks s = run_list unlock_one (map (\<lambda>k. (k, True, t)) ks) s"
  "for_accounts read_unlock_account t ks s = run_list unlock_one (map (\<lambda>k. (k, False, t)) ks) s"
  by (induction ks arbitrary: s) (simp_all split: option.split bind_split)

lemma ta_lock_accounts_run_list:
  "ta_lock_accounts ws rs t s = (if t < ta_num_threads s then run_list lock_one (ta_locks_of (ws, rs, t)) s else None)"
  by (simp add: ta_lock_accounts_def for_accounts_run_list run_list_append assert_that_def)

lemma ta_unlock_accounts_run_list:
  "ta_unlock_accounts ws rs t s = run_list unlock_one (ta_locks_of (ws, rs, t)) s"
  by (simp add: ta_unlock_accounts_def for_accounts_run_list run_list_append)

lemma ta_lock_one_ok:
  assumes "ta_inv n s" and "n \<le> 64" and "t < n" and "ta_held s (k, w, t) + 1 < 2 ^ 32"
    and "\<And>m. 0 < ta_held s m \<Longrightarrow> \<not> ta_conflict (k, w, t) m"
  shows "\<exists>s'. lock_one (k, w, t) s = Some s' \<and> ta_inv n s' \<and>
    ta_held s' = (ta_held s)((k, w, t) := ta_held s (k, w, t) + 1)"
proof -
  have free: "t' = t" if "0 < ta_held s (k, w', t')" "w \<or> w'" for w' t'
    using assms(5) [OF that(1)] that(2) by (auto simp: ta_conflict_def)
  show ?thesis
  proof (cases w)
    case True
    with write_lock_account_ok [OF assms(1-3)] assms(4) free show ?thesis by fastforce
  next
    case False
    with read_lock_account_ok [OF assms(1-3)] assms(4) free show ?thesis by fastforce
  qed
qed

lemma lock_list_ok:
  assumes "ta_inv n s" and "n \<le> 64" and "t < n" and "\<forall>l \<in> set ls. snd (snd l) = t"
    and "\<And>l. ta_held s l + count_list ls l < 2 ^ 32"
    and "\<And>l m. l \<in> set ls \<Longrightarrow> 0 < ta_held s m \<Longrightarrow> \<not> ta_conflict l m"
  shows "\<exists>s'. run_list lock_one ls s = Some s' \<and> ta_inv n s' \<and> ta_held s' = (\<lambda>l. count_list ls l + ta_held s l)"
  using assms(1,4-)
proof (induction ls arbitrary: s)
  case (Cons l ls)
  obtain k w where l: "l = (k, w, t)" using Cons.prems(2) by (cases l) auto
  have "ta_held s (k, w, t) + 1 < 2 ^ 32" using Cons.prems(3) [of l] l by simp
  moreover have "\<not> ta_conflict (k, w, t) m" if "0 < ta_held s m" for m
    using Cons.prems(4) [of l m] that l by simp
  ultimately obtain s1 where s1: "lock_one l s = Some s1" "ta_inv n s1" "ta_held s1 = (ta_held s)(l := ta_held s l + 1)"
    using ta_lock_one_ok [OF Cons.prems(1) assms(2,3)] unfolding l by blast
  have room: "ta_held s1 m + count_list ls m < 2 ^ 32" for m
    using Cons.prems(3) [of m] s1(3) by (cases "m = l") simp_all
  have "\<not> ta_conflict l' m" if "l' \<in> set ls" "0 < ta_held s1 m" for l' m
  proof (cases "m = l")
    case True
    then show ?thesis using that(1) Cons.prems(2) by (simp add: ta_conflict_def l)
  next
    case False
    then show ?thesis using that Cons.prems(4) [of l' m] s1(3) by simp
  qed
  from Cons.IH [OF s1(2) _ room this] Cons.prems(2) obtain s2 where s2: "run_list lock_one ls s1 = Some s2"
    "ta_inv n s2" "ta_held s2 = (\<lambda>m. count_list ls m + ta_held s1 m)" by auto
  have "ta_held s2 = (\<lambda>m. count_list (l # ls) m + ta_held s m)"
    unfolding s2(3) s1(3) by (rule ext) simp
  with s1(1) s2(1,2) show ?case by (simp del: lock_one.simps)
qed simp

lemma lock_one_refused:
  assumes "ta_inv n s" and "n \<le> 64" and "0 < ta_held s m" and "ta_conflict l m"
  shows "lock_one l s = None"
proof -
  obtain k w t k' w' t' where "l = (k, w, t)" "m = (k', w', t')" by (cases l; cases m)
  with assms write_lock_account_refused [OF assms(1,2), of k w' t' t] read_lock_account_refused [OF assms(1), of k t' t]
  show ?thesis by (cases w) (auto simp: ta_conflict_def simp del: ta_held.simps)
qed

lemma lock_list_refused:
  assumes "ta_inv n s" and "n \<le> 64" and "t < n" and "\<forall>l \<in> set ls. snd (snd l) = t"
    and "\<And>l. ta_held s l + count_list ls l < 2 ^ 32"
    and "l \<in> set ls" and "0 < ta_held s m" and "ta_conflict l m"
  shows "run_list lock_one ls s = None"
  using assms(1,4-7)
proof (induction ls arbitrary: s)
  case (Cons l0 ls)
  show ?case
  proof (cases "lock_one l0 s")
    case (Some s1)
    then have free: "\<not> ta_conflict l0 m'" if "0 < ta_held s m'" for m'
      using lock_one_refused [OF Cons.prems(1) assms(2) that] by fastforce
    have "l \<noteq> l0" using free [OF Cons.prems(5)] assms(8) by blast
    then have mem: "l \<in> set ls" using Cons.prems(4) by simp
    obtain k w where l0: "l0 = (k, w, t)" using Cons.prems(2) by (cases l0) auto
    have "ta_held s (k, w, t) + 1 < 2 ^ 32" using Cons.prems(3) [of l0] l0 by simp
    with ta_lock_one_ok [OF Cons.prems(1) assms(2,3), of k w] free Some l0
    have s1: "ta_inv n s1" "ta_held s1 = (ta_held s)(l0 := ta_held s l0 + 1)" by auto
    have "ta_held s1 m' + count_list ls m' < 2 ^ 32" for m'
      using Cons.prems(3) [of m'] s1(2) by (cases "m' = l0") simp_all
    moreover have "0 < ta_held s1 m" using Cons.prems(5) s1(2) by simp
    ultimately show ?thesis using Cons.IH [OF s1(1)] Cons.prems(2) mem Some by simp
  qed simp
qed simp

lemma ta_unlock_one_ok:
  assumes "ta_inv n s" and "n \<le> 64" and "0 < ta_held s l"
  shows "\<exists>s'. unlock_one l s = Some s' \<and> ta_inv n s' \<and> ta_held s' = (ta_held s)(l := ta_held s l - 1)"
proof -
  obtain k w t where l: "l = (k, w, t)" by (cases l)
  show ?thesis
    using write_unlock_account_ok [OF assms(1), of k t] read_unlock_account_ok [OF assms(1,2), of k t] assms(3)
    unfolding l by (cases w) (simp_all del: ta_held.simps)
qed

lemma unlock_list_ok:
  assumes "ta_inv n s" and "n \<le> 64" and "\<And>l. count_list ls l \<le> ta_held s l"
  shows "\<exists>s'. run_list unlock_one ls s = Some s' \<and> ta_inv n s' \<and> ta_held s' = (\<lambda>l. ta_held s l - count_list ls l)"
  using assms(1,3)
proof (induction ls arbitrary: s)
  case (Cons l ls)
  have "0 < ta_held s l" using Cons.prems(2) [of l] by simp
  then obtain s1 where s1: "unlock_one l s = Some s1" "ta_inv n s1" "ta_held s1 = (ta_held s)(l := ta_held s l - 1)"
    using ta_unlock_one_ok [OF Cons.prems(1) assms(2)] by blast
  have "count_list ls m \<le> ta_held s1 m" for m
    using Cons.prems(2) [of m] s1(3) by (cases "m = l") auto
  from Cons.IH [OF s1(2) this] obtain s2 where s2: "run_list unlock_one ls s1 = Some s2"
    "ta_inv n s2" "ta_held s2 = (\<lambda>m. ta_held s1 m - count_list ls m)" by blast
  have "ta_held s2 = (\<lambda>m. ta_held s m - count_list (l # ls) m)"
    unfolding s2(3) s1(3) by (rule ext) simp
  with s1(1) s2(1,2) show ?case by (simp del: unlock_one.simps)
qed simp

section \<open>The table fulfils the contract\<close>

locale thread_count =
  fixes n :: nat
  assumes n_pos: "0 < n" and n_le: "n \<le> MAX_THREADS"

sublocale thread_count \<subseteq> ta: lock_service "\<lparr>ta_num_threads = n, ta_locks = (\<lambda>_. None)\<rparr>" "ta_inv n" ta_held ta_locks_of
  ta_conflict "\<lambda>(ws, rs, t). t < n" "2 ^ 32"
  "\<lambda>(ws, rs, t). ta_lock_accounts ws rs t" "\<lambda>(ws, rs, t). ta_unlock_accounts ws rs t"
proof (unfold_locales, goal_cases)
  case 1
  show ?case by (simp add: ta_inv_def ta_entry_def)
next
  case (2 l)
  show ?case by (cases l) (simp add: ta_entry_def)
next
  case (3 s s')
  have n: "n \<le> 64" using n_le by (simp add: MAX_THREADS_def)
  have "ta_entry k s = ta_entry k s'" for k
  proof -
    have ok: "entry_ok n (ta_entry k s)" "entry_ok n (ta_entry k s')" using 3(1,2) by (simp_all add: ta_inv_def)
    have "entry_held (ta_entry k s) w t = entry_held (ta_entry k s') w t" for w t
      using fun_cong [OF 3(3), of "(k, w, t)"] by simp
    with write_locks_canonical [OF ok] read_locks_canonical [OF ok n] show ?thesis by simp
  qed
  then have "ta_locks s = ta_locks s'" using ta_locks_entry [OF 3(1)] ta_locks_entry [OF 3(2)] by (auto simp: fun_eq_iff)
  moreover have "ta_num_threads s = ta_num_threads s'" using 3(1,2) by (simp add: ta_inv_def)
  ultimately show ?case by simp
next
  case (4 l m)
  then show ?case by (auto simp: ta_conflict_def)
next
  case (5 s r)
  obtain ws rs t where r: "r = (ws, rs, t)" by (cases r)
  have t: "t < n" "\<forall>l \<in> set (ta_locks_of r). snd (snd l) = t" "ta_num_threads s = n"
    using 5(1,2) by (auto simp: r ta_inv_def)
  have n: "n \<le> 64" using n_le by (simp add: MAX_THREADS_def)
  from lock_list_ok [OF 5(1) n t(1,2) 5(3,4)] t show ?case
    by (simp add: r ta_lock_accounts_run_list)
next
  case (6 s r l m)
  obtain ws rs t where r: "r = (ws, rs, t)" by (cases r)
  have t: "t < n" "\<forall>l \<in> set (ta_locks_of r). snd (snd l) = t" using 6(2) by (auto simp: r)
  have n: "n \<le> 64" using n_le by (simp add: MAX_THREADS_def)
  from lock_list_refused [OF 6(1) n t 6(3-6)] show ?case by (simp add: r ta_lock_accounts_run_list)
next
  case (7 s r)
  obtain ws rs t where r: "r = (ws, rs, t)" by (cases r)
  show ?case
    using unlock_list_ok [OF 7(1) _ 7(3)] n_le
    by (auto simp: r ta_unlock_accounts_run_list MAX_THREADS_def)
qed

context thread_count
begin

lemmas exclusive = ta.run_exclusive

end

interpretation all_threads: thread_count MAX_THREADS
  by unfold_locales (simp_all add: MAX_THREADS_def)

section \<open>Which threads can take the locks\<close>

definition free_threads :: "'k thread_aware_account_locks \<Rightarrow> 'k \<Rightarrow> bool \<Rightarrow> thread_id set" where
  "free_threads s k w = {t. \<forall>m. 0 < ta_held s m \<longrightarrow> \<not> ta_conflict (k, w, t) m}"

lemma free_threads_iff:
  "t \<in> free_threads s k w \<longleftrightarrow> (\<forall>t'. 0 < entry_held (ta_entry k s) True t' \<longrightarrow> t' = t) \<and>
     (w \<longrightarrow> (\<forall>t'. 0 < entry_held (ta_entry k s) False t' \<longrightarrow> t' = t))"
proof -
  have "t \<in> free_threads s k w \<longleftrightarrow> (\<forall>w' t'. 0 < entry_held (ta_entry k s) w' t' \<longrightarrow> w \<or> w' \<longrightarrow> t = t')"
    by (auto simp: free_threads_def ta_conflict_def)
  then show ?thesis by (auto simp: all_bool_eq)
qed

lemma schedulable_threads_ok:
  assumes inv: "ta_inv n s" and n: "n \<le> 64"
  shows "\<exists>ts. schedulable_threads WRITE k s = Some ts \<and> bits ts = {..<n} \<inter> free_threads s k WRITE"
proof -
  let ?e = "ta_entry k s"
  have ok: "entry_ok n ?e" and num: "ta_num_threads s = n" using inv by (auto simp: ta_inv_def)
  have lk: "ta_locks s k = (if ?e = thread_account_locks_default then None else Some ?e)"
    by (rule ta_locks_entry [OF inv])
  note wr = held_write_iff [OF ok] and rd = held_read_iff [OF ok _ n]
  have no_read: "\<not> 0 < entry_held ?e False t" if "ta_read_locks ?e = None" for t
    using that by (simp add: entry_held.simps)
  consider (none) "ta_write_locks ?e = None" "ta_read_locks ?e = None"
    | (reads) r where "ta_write_locks ?e = None" "ta_read_locks ?e = Some r"
    | (written) w where "ta_write_locks ?e = Some w" "ta_read_locks ?e = None"
    | (both) w r where "ta_write_locks ?e = Some w" "ta_read_locks ?e = Some r"
    by (cases "ta_write_locks ?e"; cases "ta_read_locks ?e") auto
  then show ?thesis
  proof cases
    case none
    then have "free_threads s k WRITE = UNIV" using wr no_read by (simp add: set_eq_iff free_threads_iff)
    moreover have "?e = thread_account_locks_default" using none by (simp add: default_iff)
    ultimately show ?thesis using lk n num by (simp add: schedulable_threads_def bits_any)
  next
    case reads
    have B: "bits (rl_thread_set r) \<noteq> {}" "bits (rl_thread_set r) \<subseteq> {..<n}"
      using ok reads by (auto simp: entry_ok_def read_ok_def)
    have free: "t \<in> free_threads s k WRITE \<longleftrightarrow> (WRITE \<longrightarrow> bits (rl_thread_set r) \<subseteq> {t})" for t
      unfolding free_threads_iff wr rd [OF reads(2)] using reads(1) by auto
    have "?e \<noteq> thread_account_locks_default" using reads by (simp add: default_iff)
    then have sch: "schedulable_threads WRITE k s = Some (if WRITE
        then (case only_one_contained (rl_thread_set r) of Some t \<Rightarrow> ts_only t | None \<Rightarrow> ts_none) else ts_any n)"
      using lk reads num by (simp add: schedulable_threads_def)
    show ?thesis
    proof (cases WRITE)
      case True
      show ?thesis
      proof (cases "only_one_contained (rl_thread_set r)")
        case None
        then have "card (bits (rl_thread_set r)) \<noteq> 1" by (simp add: only_one_contained_None_iff)
        then have "\<not> bits (rl_thread_set r) \<subseteq> {t}" for t using B(1) by (auto simp: subset_singleton_iff)
        with sch True None free show ?thesis by auto
      next
        case (Some t)
        then have "bits (rl_thread_set r) = {t}" by (simp add: only_one_contained_iff)
        with sch True Some free B(2) n show ?thesis by auto
      qed
    qed (use sch free n in \<open>auto simp: bits_any\<close>)
  next
    case written
    have "?e \<noteq> thread_account_locks_default" using written by (simp add: default_iff)
    moreover have "wl_thread_id w < n" using ok written by (simp add: entry_ok_def write_ok_def)
    moreover have "free_threads s k WRITE = {wl_thread_id w}"
      using no_read written by (auto simp: set_eq_iff free_threads_iff wr)
    ultimately show ?thesis using lk written n by (simp add: schedulable_threads_def)
  next
    case both
    have "?e \<noteq> thread_account_locks_default" using both by (simp add: default_iff)
    moreover have "wl_thread_id w < n" "bits (rl_thread_set r) = {wl_thread_id w}"
      using ok both by (simp_all add: entry_ok_def write_ok_def)
    moreover have "free_threads s k WRITE = {wl_thread_id w}"
      using both(1) calculation(3) by (auto simp: set_eq_iff free_threads_iff wr rd [OF both(2)])
    ultimately show ?thesis
      using lk both by (simp add: schedulable_threads_def only_one_contained_iff)
  qed
qed

lemma narrow_threads_ok:
  assumes "\<And>a. \<exists>ts. threads_of a = Some ts \<and> bits ts = F a" and "bits s \<noteq> {}"
  shows "\<exists>r. narrow_threads threads_of as s = Some r \<and>
    (case r of None \<Rightarrow> bits s \<inter> (\<Inter>a \<in> set as. F a) = {}
     | Some s' \<Rightarrow> bits s' = bits s \<inter> (\<Inter>a \<in> set as. F a) \<and> bits s' \<noteq> {})"
  using assms(2)
proof (induction as arbitrary: s)
  case (Cons a as)
  obtain ts where ts: "threads_of a = Some ts" "bits ts = F a" using assms(1) by blast
  show ?case
  proof (cases "bits s \<inter> F a = {}")
    case True
    with ts show ?thesis by (auto simp: Let_def ts_is_empty_iff)
  next
    case False
    have eq: "bits (ts_bitand s ts) \<inter> (\<Inter>a \<in> set as. F a) = bits s \<inter> (\<Inter>a \<in> set (a # as). F a)"
      using ts(2) by auto
    have "narrow_threads threads_of (a # as) s = narrow_threads threads_of as (ts_bitand s ts)"
      using ts False by (simp add: Let_def ts_is_empty_iff)
    with Cons.IH [of "ts_bitand s ts"] ts(2) False show ?thesis unfolding eq by simp
  qed
qed simp

definition request_threads :: "nat \<Rightarrow> 'k thread_aware_account_locks \<Rightarrow> 'k list \<Rightarrow> 'k list \<Rightarrow> thread_id set" where
  "request_threads n s ws rs =
     {t. t < n \<and> (\<forall>l \<in> set (ta_locks_of (ws, rs, t)). \<forall>m. 0 < ta_held s m \<longrightarrow> \<not> ta_conflict l m)}"

lemma request_threads_eq:
  "request_threads n s ws rs =
     {..<n} \<inter> (\<Inter>k \<in> set ws. free_threads s k True) \<inter> (\<Inter>k \<in> set rs. free_threads s k False)"
  by (auto simp: request_threads_def free_threads_def simp del: ta_held.simps)

lemma accounts_schedulable_threads_ok:
  fixes n s ws rs
  assumes inv: "ta_inv n s" and n: "0 < n" "n \<le> 64"
  defines "T \<equiv> request_threads n s ws rs"
  shows "\<exists>r. accounts_schedulable_threads ws rs s = Some r \<and>
    (case r of None \<Rightarrow> T = {} | Some ts \<Rightarrow> bits ts = T \<and> T \<noteq> {})"
proof -
  have num: "ta_num_threads s = n" using inv by (simp add: ta_inv_def)
  have any: "bits (ts_any n) = {..<n}" "bits (ts_any n) \<noteq> {}" using n by (auto simp: bits_any)
  have w: "\<exists>ts. write_schedulable_threads a s = Some ts \<and> bits ts = {..<n} \<inter> free_threads s a True" for a
    unfolding write_schedulable_threads_def by (rule schedulable_threads_ok [OF inv n(2)])
  have r: "\<exists>ts. read_schedulable_threads a s = Some ts \<and> bits ts = {..<n} \<inter> free_threads s a False" for a
    unfolding read_schedulable_threads_def by (rule schedulable_threads_ok [OF inv n(2)])
  obtain q where q: "narrow_threads (\<lambda>a. write_schedulable_threads a s) ws (ts_any n) = Some q"
    "case q of None \<Rightarrow> bits (ts_any n) \<inter> (\<Inter>a \<in> set ws. {..<n} \<inter> free_threads s a True) = {}
     | Some s' \<Rightarrow> bits s' = bits (ts_any n) \<inter> (\<Inter>a \<in> set ws. {..<n} \<inter> free_threads s a True) \<and> bits s' \<noteq> {}"
    using narrow_threads_ok [where F = "\<lambda>a. {..<n} \<inter> free_threads s a True", OF w any(2), of ws] by blast
  have W: "bits (ts_any n) \<inter> (\<Inter>a \<in> set ws. {..<n} \<inter> free_threads s a True)
      = {..<n} \<inter> (\<Inter>a \<in> set ws. free_threads s a True)" using any(1) by auto
  show ?thesis
  proof (cases q)
    case None
    with q W show ?thesis by (auto simp: accounts_schedulable_threads_def num T_def request_threads_eq)
  next
    case (Some s')
    then have s': "bits s' = {..<n} \<inter> (\<Inter>a \<in> set ws. free_threads s a True)" "bits s' \<noteq> {}" using q(2) W by auto
    have R: "bits s' \<inter> (\<Inter>a \<in> set rs. {..<n} \<inter> free_threads s a False) = T"
      unfolding s'(1) T_def request_threads_eq by auto
    obtain p where "narrow_threads (\<lambda>a. read_schedulable_threads a s) rs s' = Some p"
      "case p of None \<Rightarrow> bits s' \<inter> (\<Inter>a \<in> set rs. {..<n} \<inter> free_threads s a False) = {}
       | Some s'' \<Rightarrow> bits s'' = bits s' \<inter> (\<Inter>a \<in> set rs. {..<n} \<inter> free_threads s a False) \<and> bits s'' \<noteq> {}"
      using narrow_threads_ok [where F = "\<lambda>a. {..<n} \<inter> free_threads s a False", OF r s'(2), of rs] by blast
    with q(1) Some R show ?thesis by (auto simp: accounts_schedulable_threads_def num split: option.splits)
  qed
qed

section \<open>Properties\<close>

text \<open>C13: The verdict of \<open>try_lock_accounts\<close>. Let the free threads be those below the number of
  threads for which no wanted lock conflicts with a held one. Without a free thread the result is
  \<open>MultipleConflicts\<close>, without a free thread that is allowed \<open>ThreadNotAllowed\<close>, both with the
  table unchanged. Otherwise the selector is asked with exactly the free allowed threads, and when
  it answers with one of them, all locks are taken for it: no assertion fails.\<close>

theorem ta_try_lock_accounts_verdict:
  assumes "ta_inv n s" and "0 < n" and "n \<le> MAX_THREADS"
    and "\<And>l t. ta_held s l + count_list (ta_locks_of (ws, rs, t)) l < 2 ^ 32"
    and "\<And>ts. bits ts \<noteq> {} \<Longrightarrow> selector ts \<in> bits ts"
  shows "(request_threads n s ws rs = {} \<longrightarrow>
       ta_try_lock_accounts ws rs allowed selector s = Some (Inl MultipleConflicts, s)) \<and>
     (request_threads n s ws rs \<noteq> {} \<and> request_threads n s ws rs \<inter> bits allowed = {} \<longrightarrow>
       ta_try_lock_accounts ws rs allowed selector s = Some (Inl ThreadNotAllowed, s)) \<and>
     (request_threads n s ws rs \<inter> bits allowed \<noteq> {} \<longrightarrow>
       (\<exists>ts s'. bits ts = request_threads n s ws rs \<inter> bits allowed \<and>
          ta_try_lock_accounts ws rs allowed selector s = Some (Inr (selector ts), s') \<and> ta_inv n s' \<and>
          ta_held s' = (\<lambda>l. count_list (ta_locks_of (ws, rs, selector ts)) l + ta_held s l)))"
proof -
  let ?T = "request_threads n s ws rs"
  have n: "n \<le> 64" and num: "ta_num_threads s = n" using assms(1,3) by (auto simp: MAX_THREADS_def ta_inv_def)
  obtain r where r: "accounts_schedulable_threads ws rs s = Some r"
    "case r of None \<Rightarrow> ?T = {} | Some ts \<Rightarrow> bits ts = ?T \<and> ?T \<noteq> {}"
    using accounts_schedulable_threads_ok [OF assms(1,2) n] by blast
  show ?thesis
  proof (cases r)
    case None
    with r show ?thesis by (simp add: ta_try_lock_accounts_def)
  next
    case (Some ts)
    let ?ts = "ts_bitand ts allowed"
    have b: "bits ?ts = ?T \<inter> bits allowed" "?T \<noteq> {}" using r(2) Some by auto
    have "\<exists>s'. ta_lock_accounts ws rs (selector ?ts) s = Some s' \<and> ta_inv n s' \<and>
        ta_held s' = (\<lambda>l. count_list (ta_locks_of (ws, rs, selector ?ts)) l + ta_held s l)"
      if "?T \<inter> bits allowed \<noteq> {}"
    proof -
      have "selector ?ts \<in> ?T" using assms(5) [of ?ts] b(1) that by auto
      then have t: "selector ?ts < n"
        and free: "\<And>l m. l \<in> set (ta_locks_of (ws, rs, selector ?ts)) \<Longrightarrow> 0 < ta_held s m \<Longrightarrow> \<not> ta_conflict l m"
        unfolding request_threads_def by blast+
      have one: "\<forall>l \<in> set (ta_locks_of (ws, rs, selector ?ts)). snd (snd l) = selector ?ts" by auto
      from lock_list_ok [OF assms(1) n t one assms(4) free] show ?thesis
        using num t by (simp only: ta_lock_accounts_run_list if_True)
    qed
    note locked = this
    show ?thesis
    proof (cases "?T \<inter> bits allowed = {}")
      case True
      with r(1) Some b show ?thesis by (simp add: ta_try_lock_accounts_def Let_def ts_is_empty_iff)
    next
      case False
      from locked [OF this] obtain s' where "ta_lock_accounts ws rs (selector ?ts) s = Some s'" "ta_inv n s'"
        "ta_held s' = (\<lambda>l. count_list (ta_locks_of (ws, rs, selector ?ts)) l + ta_held s l)" by blast
      moreover from this(1) have "ta_try_lock_accounts ws rs allowed selector s = Some (Inr (selector ?ts), s')"
        using r(1) Some b False by (simp add: ta_try_lock_accounts_def Let_def ts_is_empty_iff)
      ultimately show ?thesis using b False by blast
    qed
  qed
qed

theorem ta_try_lock_accounts_verdict_witness:
  "\<exists>s'. ta_try_lock_accounts [7 :: nat] [8] (ts_only 2) trailing_zeros \<lparr>ta_num_threads = 4, ta_locks = (\<lambda>_. None)\<rparr>
     = Some (Inr 2, s') \<and> ta_held s' (7, True, 2) = 1"
proof -
  let ?s = "\<lparr>ta_num_threads = 4, ta_locks = (\<lambda>_. None)\<rparr> :: nat thread_aware_account_locks"
  have inv: "ta_inv 4 ?s" by (simp add: ta_inv_def ta_entry_def)
  have held: "ta_held ?s l = 0" for l by (cases l) (simp add: ta_entry_def)
  have T: "request_threads 4 ?s [7] [8] = {..<4}" by (auto simp: request_threads_def held simp del: ta_held.simps)
  have sel: "trailing_zeros ts \<in> bits ts" if "bits ts \<noteq> {}" for ts
    using trailing_zeros_least(1) that bits_empty_iff by (auto simp: bits_def)
  have room: "ta_held ?s l + count_list (ta_locks_of ([7], [8], t)) l < 2 ^ 32" for l t by (simp add: held)
  have ne: "request_threads 4 ?s [7] [8] \<inter> bits (ts_only 2) \<noteq> {}" by (simp add: T)
  have "0 < (4 :: nat)" "(4 :: nat) \<le> MAX_THREADS" by (simp_all add: MAX_THREADS_def)
  from ta_try_lock_accounts_verdict [OF inv this room sel] ne obtain ts s' where
    r: "bits ts = request_threads 4 ?s [7] [8] \<inter> bits (ts_only 2)"
      "ta_try_lock_accounts [7] [8] (ts_only 2) trailing_zeros ?s = Some (Inr (trailing_zeros ts), s')"
      "ta_held s' = (\<lambda>l. count_list (ta_locks_of ([7], [8], trailing_zeros ts)) l + ta_held ?s l)"
    by blast
  have "bits ts = {2}" using r(1) by (auto simp: T)
  then have "trailing_zeros ts = 2" using sel [of ts] by simp
  with r(2,3) held show ?thesis by (auto simp del: ta_held.simps)
qed

text \<open>C14: Conflicting locks stay on one thread. In every history of lock and unlock requests, two
  outstanding requests for the same account, one of them for writing, run on the same thread.\<close>

theorem ta_conflicts_on_one_thread:
  assumes "0 < n" and "n \<le> MAX_THREADS"
    and "lock_run (\<lambda>(ws, rs, t). ta_lock_accounts ws rs t) (\<lambda>(ws, rs, t). ta_unlock_accounts ws rs t) ta_locks_of
      (\<lambda>(ws, rs, t). t < n) (2 ^ 32) \<lparr>ta_num_threads = n, ta_locks = (\<lambda>_. None)\<rparr> s reqs"
    and "i < length reqs" and "j < length reqs" and "i \<noteq> j"
    and "(k, w, t) \<in> set (ta_locks_of (reqs ! i))" and "(k, w', t') \<in> set (ta_locks_of (reqs ! j))" and "w \<or> w'"
  shows "t = t'"
  using thread_count.exclusive [OF thread_count.intro [OF assms(1,2)] assms(3-8)] assms(9)
  by (simp add: ta_conflict_def)

theorem ta_conflicts_on_one_thread_witness:
  "\<exists>s. lock_run (\<lambda>(ws, rs, t). ta_lock_accounts ws rs t) (\<lambda>(ws, rs, t). ta_unlock_accounts ws rs t) ta_locks_of
     (\<lambda>(ws, rs, t). t < 4) (2 ^ 32) \<lparr>ta_num_threads = 4, ta_locks = (\<lambda>_. None)\<rparr> s [([7 :: nat], [], 1), ([7], [], 1)]"
proof -
  let ?s0 = "\<lparr>ta_num_threads = 4, ta_locks = (\<lambda>_. None)\<rparr> :: nat thread_aware_account_locks"
  let ?run = "lock_run (\<lambda>(ws, rs, t). ta_lock_accounts ws rs t) (\<lambda>(ws, rs, t). ta_unlock_accounts ws rs t) ta_locks_of
     (\<lambda>(ws, rs, t). t < 4) (2 ^ 32) ?s0"
  note eval = ta_lock_accounts_def write_lock_account_def ta_entry_def thread_account_locks_default_def Let_def
  have "\<exists>s. ?run s [([7], [], 1)] \<and> ta_lock_accounts [7] [] 1 s \<noteq> None"
    by (intro exI [of _ "?s0\<lparr>ta_locks := [7 \<mapsto> \<lparr>ta_write_locks = Some \<lparr>wl_thread_id = 1, wl_lock_count = 1\<rparr>, ta_read_locks = None\<rparr>]\<rparr>"]
        conjI lock_run.grant [OF lock_run.start]) (simp_all add: eval)
  then obtain s s' where s: "?run s [([7], [], 1)]" "ta_lock_accounts [7] [] 1 s = Some s'" by auto
  then have run: "?run s' [([7], [], 1), ([7], [], 1)]" by (intro lock_run.grant [OF s(1)]) simp_all
  have "(1 :: nat) = 1"
    by (rule ta_conflicts_on_one_thread [OF _ _ run, of 0 1 7 True 1 True 1]) (simp_all add: MAX_THREADS_def)
  with run show ?thesis by blast
qed

text \<open>C15: The iterator over a thread set yields exactly the contained threads, each once and in
  ascending order, and ends.\<close>

theorem contained_threads_sorted:
  "contained_threads w = sorted_list_of_set {t. bit w t} \<and> length (contained_threads w) = ts_num_threads w"
  by (simp add: contained_threads_eq bits_def [symmetric] ts_num_threads_def count_ones_eq finite_bits)

end
