(* ===== verification/Task_Creation.thy ===== *)
theory Task_Creation
  imports Scheduler_Runs Account_Locks
begin

text \<open>
  From a validated transaction to a schedulable task: the loader of usage queues
  (\<open>UsageQueueLoaderInner\<close> of \<^verbatim>\<open>unified-scheduler-pool/src/lib.rs\<close>), the creation of tasks
  (\<open>do_create_task\<close> of \<^verbatim>\<open>unified-scheduler-logic/src/lib.rs\<close>) and the validation of account keys
  (\<^verbatim>\<open>accounts-db/src/account_locks.rs\<close>) compose to what the state machine demands of a task.
\<close>

section \<open>The loader of usage queues\<close>

text \<open>\<open>ql_next\<close> is the address of the next \<open>UsageQueue\<close> to be allocated.\<close>

record 'pubkey usage_queue_loader =
  ql_capability :: capability
  usage_queues :: "'pubkey \<Rightarrow> queue_ref option"
  ql_next :: queue_ref

definition ql_new :: "capability \<Rightarrow> 'pubkey usage_queue_loader" where
  "ql_new cap = \<lparr>ql_capability = cap, usage_queues = (\<lambda>_. None), ql_next = 0\<rparr>"

definition ql_load :: "'pubkey usage_queue_loader \<Rightarrow> 'pubkey \<Rightarrow> queue_ref \<times> 'pubkey usage_queue_loader" where
  "ql_load l address =
     (case usage_queues l address of
        Some q \<Rightarrow> (q, l)
      | None \<Rightarrow> (ql_next l, l\<lparr>usage_queues := (usage_queues l)(address \<mapsto> ql_next l), ql_next := Suc (ql_next l)\<rparr>))"

section \<open>The contract of a loader\<close>

text \<open>What \<open>create_task\<close> needs of the loader it is given: an account is bound to one queue for
  good, and no two accounts share a queue.\<close>

locale queue_loader =
  fixes ok :: "'l \<Rightarrow> bool" and bound :: "'l \<Rightarrow> 'pubkey \<Rightarrow> queue_ref option"
    and load :: "'l \<Rightarrow> 'pubkey \<Rightarrow> queue_ref \<times> 'l"
  assumes load_ok: "ok l \<Longrightarrow> ok (snd (load l k))"
    and load_bound: "ok l \<Longrightarrow> bound (snd (load l k)) k = Some (fst (load l k))"
    and load_stable: "ok l \<Longrightarrow> bound l j = Some q \<Longrightarrow> bound (snd (load l k)) j = Some q"
    and bound_inj: "ok l \<Longrightarrow> bound l j = Some q \<Longrightarrow> bound l k = Some q \<Longrightarrow> j = k"
begin

lemma load_lock_contexts_ok:
  assumes "ok l" and "load_lock_contexts writable load i keys l = (cxs, l')"
  shows "ok l'" and "\<And>j q. bound l j = Some q \<Longrightarrow> bound l' j = Some q" and "length cxs = length keys"
    and "\<And>j. j < length keys \<Longrightarrow> bound l' (keys ! j) = Some (lc_usage_queue (cxs ! j)) \<and>
      lc_requested_usage (cxs ! j) = (if writable (i + j) then Req_Writable else Req_Readonly)"
proof -
  have "ok l' \<and> (\<forall>j q. bound l j = Some q \<longrightarrow> bound l' j = Some q) \<and> length cxs = length keys \<and>
    (\<forall>j < length keys. bound l' (keys ! j) = Some (lc_usage_queue (cxs ! j)) \<and>
      lc_requested_usage (cxs ! j) = (if writable (i + j) then Req_Writable else Req_Readonly))"
    using assms
  proof (induction keys arbitrary: i l cxs l')
    case (Cons k keys)
    obtain q l1 where ld: "load l k = (q, l1)" by (cases "load l k")
    obtain cxs' where cxs: "cxs = \<lparr>lc_usage_queue = q,
          lc_requested_usage = (if writable i then Req_Writable else Req_Readonly)\<rparr> # cxs'"
      and rest: "load_lock_contexts writable load (Suc i) keys l1 = (cxs', l')"
      using Cons.prems(2) ld by (auto split: prod.splits)
    have l1: "ok l1" "bound l1 k = Some q" "\<And>j q. bound l j = Some q \<Longrightarrow> bound l1 j = Some q"
      using load_ok [OF Cons.prems(1), of k] load_bound [OF Cons.prems(1), of k]
        load_stable [OF Cons.prems(1), of _ _ k] ld by auto
    note IH = Cons.IH [OF l1(1) rest]
    have "bound l' ((k # keys) ! j) = Some (lc_usage_queue (cxs ! j)) \<and>
        lc_requested_usage (cxs ! j) = (if writable (i + j) then Req_Writable else Req_Readonly)"
      if "j < length (k # keys)" for j
      using that IH l1(2) cxs by (cases j) auto
    with IH l1(3) cxs show ?case by auto
  qed simp
  then show "ok l'" "\<And>j q. bound l j = Some q \<Longrightarrow> bound l' j = Some q" "length cxs = length keys"
    "\<And>j. j < length keys \<Longrightarrow> bound l' (keys ! j) = Some (lc_usage_queue (cxs ! j)) \<and>
      lc_requested_usage (cxs ! j) = (if writable (i + j) then Req_Writable else Req_Readonly)"
    by blast+
qed

lemma load_lock_contexts_distinct:
  assumes "ok l" and "load_lock_contexts writable load i keys l = (cxs, l')" and "distinct keys"
  shows "distinct (map lc_usage_queue cxs)"
proof -
  note ctx = load_lock_contexts_ok [OF assms(1,2)]
  have "a = b" if "a < length keys" "b < length keys" "lc_usage_queue (cxs ! a) = lc_usage_queue (cxs ! b)" for a b
  proof -
    have "keys ! a = keys ! b"
      using bound_inj [OF ctx(1), of "keys ! a" "lc_usage_queue (cxs ! a)" "keys ! b"] ctx(4) that by metis
    then show ?thesis using assms(3) that(1,2) by (simp add: nth_eq_iff_index_eq)
  qed
  then show ?thesis by (auto simp: distinct_conv_nth ctx(3))
qed

end

definition loader_ok :: "'pubkey usage_queue_loader \<Rightarrow> bool" where
  "loader_ok l \<longleftrightarrow> (\<forall>k q. usage_queues l k = Some q \<longrightarrow> q < ql_next l) \<and>
     (\<forall>j k q. usage_queues l j = Some q \<longrightarrow> usage_queues l k = Some q \<longrightarrow> j = k)"

interpretation ql: queue_loader loader_ok usage_queues ql_load
proof (unfold_locales, goal_cases)
  case (1 l k)
  then show ?case by (auto simp: loader_ok_def ql_load_def less_Suc_eq split: option.splits if_splits dest: less_imp_neq)
next
  case (3 l j q k)
  then show ?case by (auto simp: ql_load_def split: option.splits)
qed (auto simp: loader_ok_def ql_load_def split: option.splits)

section \<open>Created tasks can be scheduled\<close>

text \<open>C16: A created task satisfies what the state machine demands. For a transaction whose account
  keys passed \<open>validate_account_locks\<close> (with a limit below the range of the counters), the task
  that \<open>create_task\<close> builds with the loader has one lock context per key, in the same order, with
  the writability of the message; the contexts name pairwise different usage queues, the one
  bound to each key; its blocked usage count is zero. So it can be scheduled in every state where
  its address is not in use.\<close>

theorem created_task_schedulable:
  assumes "loader_ok l" and "validate_account_locks {} (account_keys tx) limit = (Inr () :: unit transaction_error + unit, buffer)"
    and "unat limit + 1 < 2 ^ 32"
    and "create_task account_keys is_writable ql_load tx i l = (task, l')" and "t \<notin> set (active s)"
  shows "loader_ok l' \<and> length (lock_contexts task) = length (account_keys tx) \<and>
    (\<forall>j < length (account_keys tx).
       usage_queues l' (account_keys tx ! j) = Some (lc_usage_queue (lock_contexts task ! j)) \<and>
       lc_requested_usage (lock_contexts task ! j) = (if is_writable tx j then Req_Writable else Req_Readonly)) \<and>
    schedulable FifoQueueing (s\<lparr>mem := (mem s)\<lparr>tasks := (tasks (mem s))(t := task)\<rparr>\<rparr>) t"
proof -
  have keys: "length (account_keys tx) \<le> unat limit" "distinct (account_keys tx)"
    using assms(2) by (auto simp: validate_account_locks_def has_duplicates_iff split: if_splits)
  obtain cxs where ld: "load_lock_contexts (is_writable tx) ql_load 0 (account_keys tx) l = (cxs, l')"
    and task: "lock_contexts task = cxs" "blocked_usage_count task = 0"
    using assms(4) by (auto simp: create_task_def do_create_task_def sc_zero_def split: prod.splits)
  note ctx = ql.load_lock_contexts_ok [OF assms(1) ld]
  have "distinct (map lc_usage_queue cxs)" by (rule ql.load_lock_contexts_distinct [OF assms(1) ld keys(2)])
  then have "task_ok task" using keys(1) assms(3) ctx(3) by (simp add: task_ok_def task(1))
  with ctx task assms(5) show ?thesis by (simp add: schedulable_def)
qed

theorem created_task_schedulable_witness:
  "schedulable FifoQueueing
     (demo_fifo\<lparr>mem := (mem demo_fifo)\<lparr>tasks := (tasks (mem demo_fifo))
        (9 := fst (create_task (\<lambda>_. [''a'', ''b'']) (\<lambda>_ i. i = 0) ql_load () 5 (ql_new FifoQueueing)))\<rparr>\<rparr>) 9"
proof -
  let ?c = "create_task (\<lambda>_. [''a'', ''b'']) (\<lambda>_ i. i = 0) ql_load () 5 (ql_new FifoQueueing)"
  have "loader_ok (ql_new FifoQueueing)" by (simp add: loader_ok_def ql_new_def)
  moreover have "validate_account_locks {} [''a'', ''b''] 64 = (Inr () :: unit transaction_error + unit, {})"
    by (simp add: validate_account_locks_def has_duplicates_iff)
  moreover have "unat (64 :: usize) + 1 < 2 ^ 32" by simp
  moreover have "?c = (fst ?c, snd ?c)" by simp
  moreover have "9 \<notin> set (active demo_fifo)" by (simp add: sched_eval)
  ultimately show ?thesis
    using created_task_schedulable [of "ql_new FifoQueueing" "\<lambda>_. [''a'', ''b'']" "()" 64 "{}"
        "\<lambda>_ i. i = 0" 5 "fst ?c" "snd ?c" 9 demo_fifo] by blast
qed

end
