(* ===== verification/Rolling_Bit_Field.thy ===== *)
theory Rolling_Bit_Field
  imports Set_Service
begin

text \<open>
  The rolling bit field of slots, \<^verbatim>\<open>accounts-db/src/rolling_bit_field.rs\<close> with its iterator, and the
  set of ancestor slots built on it, \<^verbatim>\<open>accounts-db/src/ancestors.rs\<close>. Keys are the values of
  \<open>u64\<close>, as natural numbers with every sum checked; the hash set of excess keys is a list without
  duplicates, in the order in which its iterator yields them.
\<close>

section \<open>Model\<close>

record rolling_bit_field =
  max_width :: nat
  rb_min :: nat
  max_exclusive :: nat
  rb_bits :: "bool list"
  rb_count :: nat
  excess :: "nat list"

definition rbf_new :: "nat \<Rightarrow> rolling_bit_field option" where
  "rbf_new width = do {
     assert_that (width > 0);
     assert_that (width \<in> (\<lambda>i. 2 ^ i) ` {..<64});
     Some \<lparr>max_width = width, rb_min = 0, max_exclusive = 0, rb_bits = replicate width False,
           rb_count = 0, excess = []\<rparr>
   }"

definition get_address :: "nat \<Rightarrow> rolling_bit_field \<Rightarrow> nat" where
  "get_address key s = key mod max_width s"

definition range_width :: "rolling_bit_field \<Rightarrow> nat option" where
  "range_width s = sub64 (max_exclusive s) (rb_min s)"

definition all_items_in_excess :: "rolling_bit_field \<Rightarrow> bool" where
  "all_items_in_excess s \<longleftrightarrow> length (excess s) = rb_count s"

definition contains_assume_in_range :: "rolling_bit_field \<Rightarrow> nat \<Rightarrow> bool" where
  "contains_assume_in_range s key = rb_bits s ! get_address key s"

definition rbf_contains :: "rolling_bit_field \<Rightarrow> nat \<Rightarrow> bool" where
  "rbf_contains s key =
     (if key < max_exclusive s
      then (if rb_min s \<le> key then contains_assume_in_range s key else key \<in> set (excess s))
      else False)"

definition rbf_len :: "rolling_bit_field \<Rightarrow> nat" where
  "rbf_len s = rb_count s"

definition rbf_is_empty :: "rolling_bit_field \<Rightarrow> bool" where
  "rbf_is_empty s \<longleftrightarrow> rbf_len s = 0"

definition max_inclusive :: "rolling_bit_field \<Rightarrow> nat" where
  "max_inclusive s = max_exclusive s - 1"

definition rbf_min :: "rolling_bit_field \<Rightarrow> nat option" where
  "rbf_min s =
     (if rbf_is_empty s then None
      else if excess s = [] then Some (rb_min s)
      else (let excess_min = (if excess s = [] then None else Some (Min (set (excess s)))) in
        if all_items_in_excess s then excess_min
        else Some (min (rb_min s) (case excess_min of None \<Rightarrow> 2 ^ 64 - 1 | Some m \<Rightarrow> m))))"

definition purge :: "nat \<Rightarrow> rolling_bit_field \<Rightarrow> rolling_bit_field option" where
  "purge key s =
     (if rb_count s > 0 \<and> \<not> all_items_in_excess s
      then (if key = rb_min s
            then do {
              start \<leftarrow> add64 (rb_min s) 1;
              Some (case find (contains_assume_in_range s) [start..<max_exclusive s] of
                      None \<Rightarrow> s | Some key' \<Rightarrow> s\<lparr>rb_min := key'\<rparr>)
            }
            else Some s)
      else Some (s\<lparr>rb_min := max_exclusive s\<rparr>))"

text \<open>The loop of \<open>insert\<close> that makes room for a key beyond the range. Its result says whether the
  bits became empty.\<close>

partial_function (option) make_room :: "nat \<Rightarrow> rolling_bit_field \<Rightarrow> (bool \<times> rolling_bit_field) option" where
  "make_room new_max s =
     (if new_max - rb_min s \<le> max_width s then Some (False, s)
      else if rb_min s \<in> set (excess s) then None
      else (case purge (rb_min s)
              (s\<lparr>excess := rb_min s # excess s,
                 rb_bits := (rb_bits s)[get_address (rb_min s) s := False]\<rparr>) of
              None \<Rightarrow> None
            | Some s' \<Rightarrow> if all_items_in_excess s' then Some (True, s') else make_room new_max s'))"

definition set_bit_for :: "bool \<Rightarrow> nat \<Rightarrow> rolling_bit_field \<Rightarrow> rolling_bit_field option" where
  "set_bit_for bits_empty key s =
     (if \<not> rb_bits s ! get_address key s
      then do {
        let bs = (rb_bits s)[get_address key s := True];
        next \<leftarrow> add64 key 1;
        (mn, mx) \<leftarrow>
          (if bits_empty then Some (key, next)
           else do {
             let mn = min (rb_min s) key;
             let mx = max (max_exclusive s) next;
             limit \<leftarrow> add64 mn (max_width s);
             assert_that (mx \<le> limit);
             Some (mn, mx)
           });
        n \<leftarrow> add64 (rb_count s) 1;
        Some (s\<lparr>rb_bits := bs, rb_min := mn, max_exclusive := mx, rb_count := n\<rparr>)
      }
      else Some s)"

definition rbf_insert :: "nat \<Rightarrow> rolling_bit_field \<Rightarrow> rolling_bit_field option" where
  "rbf_insert key s =
     (if rb_count s = 0 \<or> all_items_in_excess s then set_bit_for True key s
      else if key < rb_min s
      then (if key \<in> set (excess s) then Some s
            else do {
              n \<leftarrow> add64 (rb_count s) 1;
              Some (s\<lparr>excess := key # excess s, rb_count := n\<rparr>)
            })
      else if key < max_exclusive s then set_bit_for False key s
      else do {
        new_max \<leftarrow> add64 key 1;
        (bits_empty, s') \<leftarrow> make_room new_max s;
        set_bit_for bits_empty key s'
      })"

definition rbf_remove :: "nat \<Rightarrow> rolling_bit_field \<Rightarrow> (bool \<times> rolling_bit_field) option" where
  "rbf_remove key s =
     (if rb_min s \<le> key
      then (if key < max_exclusive s
            then (if rb_bits s ! get_address key s
                  then do {
                    n \<leftarrow> sub64 (rb_count s) 1;
                    s' \<leftarrow> purge key (s\<lparr>rb_count := n, rb_bits := (rb_bits s)[get_address key s := False]\<rparr>);
                    Some (True, s')
                  }
                  else Some (False, s))
            else Some (False, s))
      else if key \<in> set (excess s)
      then do {
        n \<leftarrow> sub64 (rb_count s) 1;
        Some (True, s\<lparr>excess := remove1 key (excess s), rb_count := n\<rparr>)
      }
      else Some (False, s))"

definition get_all :: "rolling_bit_field \<Rightarrow> nat list" where
  "get_all s = excess s @ filter (contains_assume_in_range s) [rb_min s..<max_exclusive s]"

definition get_all_less_than :: "nat \<Rightarrow> rolling_bit_field \<Rightarrow> nat list" where
  "get_all_less_than max_slot_exclusive s =
     filter (\<lambda>slot. slot < max_slot_exclusive) (excess s) @
     filter (contains_assume_in_range s)
       (takeWhile (\<lambda>key. \<not> max_slot_exclusive \<le> key) [rb_min s..<max_exclusive s])"

function get_prior_loop :: "rolling_bit_field \<Rightarrow> nat \<Rightarrow> nat \<Rightarrow> nat option" where
  "get_prior_loop s mn slot =
     (if rbf_contains s slot then Some slot
      else let slot' = slot - 1 in
        if slot' = 0 \<or> slot' < mn then None else get_prior_loop s mn slot')"
  by auto
termination
  by (relation "measure (\<lambda>(s, mn, slot). slot)") auto

declare get_prior_loop.simps [simp del]

definition get_prior :: "nat \<Rightarrow> rolling_bit_field \<Rightarrow> nat option" where
  "get_prior max_slot_exclusive s =
     (case rbf_min s of None \<Rightarrow> None | Some mn \<Rightarrow> get_prior_loop s mn (max_slot_exclusive - 1))"

definition rbf_eq :: "rolling_bit_field \<Rightarrow> rolling_bit_field \<Rightarrow> bool" where
  "rbf_eq s other \<longleftrightarrow> rbf_len s = rbf_len other \<and> list_all (rbf_contains other) (get_all s)"

text \<open>The iterator: the excess keys that are still to come and the rest of the range.\<close>

record ones_iter =
  excess_iter :: "nat list"
  bit_range :: "nat list"

definition iter_ones :: "rolling_bit_field \<Rightarrow> ones_iter" where
  "iter_ones s = \<lparr>excess_iter = excess s, bit_range = [rb_min s..<max_exclusive s]\<rparr>"

fun next_one :: "rolling_bit_field \<Rightarrow> nat list \<Rightarrow> (nat \<times> nat list) option" where
  "next_one s [] = None"
| "next_one s (b # bs) = (if contains_assume_in_range s b then Some (b, bs) else next_one s bs)"

definition ones_next :: "rolling_bit_field \<Rightarrow> ones_iter \<Rightarrow> (nat \<times> ones_iter) option" where
  "ones_next s it =
     (case excess_iter it of
        e # es \<Rightarrow> Some (e, it\<lparr>excess_iter := es\<rparr>)
      | [] \<Rightarrow> (case next_one s (bit_range it) of
                None \<Rightarrow> None
              | Some (b, bs) \<Rightarrow> Some (b, it\<lparr>bit_range := bs\<rparr>)))"

section \<open>Ancestors\<close>

definition ANCESTORS_HASH_MAP_SIZE :: nat where
  "ANCESTORS_HASH_MAP_SIZE = 8192"

definition ancestors_default :: "rolling_bit_field option" where
  "ancestors_default = rbf_new ANCESTORS_HASH_MAP_SIZE"

definition ancestors_from :: "nat list \<Rightarrow> rolling_bit_field option" where
  "ancestors_from source = do {
     result \<leftarrow> ancestors_default;
     run_list rbf_insert (sort source) result
   }"

definition ancestors_keys :: "rolling_bit_field \<Rightarrow> nat list" where
  "ancestors_keys s = get_all s"

definition ancestors_remove :: "nat \<Rightarrow> rolling_bit_field \<Rightarrow> rolling_bit_field option" where
  "ancestors_remove slot s = map_option snd (rbf_remove slot s)"

definition contains_key :: "rolling_bit_field \<Rightarrow> nat \<Rightarrow> bool" where
  "contains_key s slot = rbf_contains s slot"

definition ancestors_len :: "rolling_bit_field \<Rightarrow> nat" where
  "ancestors_len s = rbf_len s"

definition min_slot :: "rolling_bit_field \<Rightarrow> nat" where
  "min_slot s = (case rbf_min s of None \<Rightarrow> 0 | Some m \<Rightarrow> m)"

definition max_slot :: "rolling_bit_field \<Rightarrow> nat" where
  "max_slot s = max_exclusive s - 1"

text \<open>\<open>From\<close> between \<open>Ancestors\<close> and the map form used for serialization, a map as a list of its
  pairs.\<close>

definition ancestors_from_map :: "(nat \<times> nat) list \<Rightarrow> rolling_bit_field option" where
  "ancestors_from_map source = ancestors_from (map fst source)"

definition map_from_ancestors :: "rolling_bit_field \<Rightarrow> (nat \<times> nat) list" where
  "map_from_ancestors s = map (\<lambda>slot. (slot, 0)) (ancestors_keys s)"

section \<open>Invariant and denoted set\<close>

definition ones :: "rolling_bit_field \<Rightarrow> nat set" where
  "ones s = {k. rb_min s \<le> k \<and> k < max_exclusive s \<and> contains_assume_in_range s k}"

definition rbf_set :: "rolling_bit_field \<Rightarrow> nat set" where
  "rbf_set s = set (excess s) \<union> ones s"

definition rbf_inv :: "rolling_bit_field \<Rightarrow> bool" where
  "rbf_inv s \<longleftrightarrow> 0 < max_width s \<and> length (rb_bits s) = max_width s \<and> rb_min s \<le> max_exclusive s \<and>
     max_exclusive s \<le> rb_min s + max_width s \<and> max_exclusive s < 2 ^ 64 \<and>
     distinct (excess s) \<and> (\<forall>e \<in> set (excess s). e < rb_min s) \<and>
     (\<forall>a < max_width s. rb_bits s ! a \<longrightarrow> (\<exists>k \<in> ones s. k mod max_width s = a)) \<and>
     rb_count s = length (excess s) + card (ones s) \<and>
     (if ones s = {} then rb_min s = max_exclusive s else rb_min s \<in> ones s)"

lemma rbf_invD:
  assumes "rbf_inv s"
  shows "0 < max_width s" and "length (rb_bits s) = max_width s" and "rb_min s \<le> max_exclusive s"
    and "max_exclusive s \<le> rb_min s + max_width s" and "max_exclusive s < 2 ^ 64"
    and "distinct (excess s)" and "\<And>e. e \<in> set (excess s) \<Longrightarrow> e < rb_min s"
    and "\<And>a. a < max_width s \<Longrightarrow> rb_bits s ! a \<Longrightarrow> \<exists>k \<in> ones s. k mod max_width s = a"
    and "rb_count s = length (excess s) + card (ones s)"
    and "ones s = {} \<Longrightarrow> rb_min s = max_exclusive s" and "ones s \<noteq> {} \<Longrightarrow> rb_min s \<in> ones s"
  using assms unfolding rbf_inv_def by (auto split: if_splits)

lemma finite_ones: "finite (ones s)"
  by (rule finite_subset [of _ "{..<max_exclusive s}"]) (auto simp: ones_def)

lemma ones_range: "k \<in> ones s \<Longrightarrow> rb_min s \<le> k \<and> k < max_exclusive s"
  by (simp add: ones_def)

lemma window_mod_inj:
  fixes k j w m :: nat
  assumes "m \<le> k" "k < m + w" "m \<le> j" "j < m + w" "k mod w = j mod w"
  shows "k = j"
proof (cases "k \<le> j")
  case True
  then have "w dvd j - k" using assms(5) by (metis mod_eq_dvd_iff_nat)
  moreover have "j - k < w" using assms by linarith
  ultimately show ?thesis using True by (auto dest: dvd_imp_le)
next
  case False
  then have "w dvd k - j" using assms(5) by (metis mod_eq_dvd_iff_nat nat_le_linear)
  moreover have "k - j < w" using assms by linarith
  ultimately show ?thesis using False by (auto dest: dvd_imp_le)
qed

lemma excess_iff:
  assumes "rbf_inv s"
  shows "all_items_in_excess s \<longleftrightarrow> ones s = {}" and "rb_count s = 0 \<longleftrightarrow> rbf_set s = {}"
  using rbf_invD(9) [OF assms] finite_ones [of s] by (auto simp: all_items_in_excess_def rbf_set_def)

lemma rbf_set_finite_card:
  assumes "rbf_inv s"
  shows "finite (rbf_set s)" and "card (rbf_set s) = rb_count s"
proof -
  have "set (excess s) \<inter> ones s = {}" using rbf_invD(7) [OF assms] ones_range by fastforce
  then show "card (rbf_set s) = rb_count s"
    using rbf_invD(6,9) [OF assms] finite_ones by (simp add: rbf_set_def card_Un_disjoint distinct_card)
  show "finite (rbf_set s)" by (simp add: rbf_set_def finite_ones)
qed

lemma rbf_contains_iff:
  assumes "rbf_inv s"
  shows "rbf_contains s key \<longleftrightarrow> key \<in> rbf_set s"
proof -
  have "key \<in> set (excess s) \<Longrightarrow> key < rb_min s" "rb_min s \<le> max_exclusive s"
    using rbf_invD(3,7) [OF assms] by auto
  then show ?thesis by (auto simp: rbf_contains_def rbf_set_def ones_def)
qed

lemma rbf_new_ok:
  assumes "rbf_new width = Some s"
  shows "rbf_inv s" and "rbf_set s = {}" and "max_width s = width"
  using assms
  by (auto simp: rbf_new_def assert_that_def rbf_inv_def rbf_set_def ones_def split: if_splits)

text \<open>Clearing the bit of one key of the range.\<close>

lemma clear_bit_iff:
  assumes inv: "rbf_inv s" and x: "x \<in> ones s" and j: "rb_min s \<le> j" "j < max_exclusive s"
  shows "(rb_bits s)[get_address x s := False] ! (j mod max_width s) \<longleftrightarrow> j \<in> ones s \<and> j \<noteq> x"
proof -
  note D = rbf_invD [OF inv]
  have "x mod max_width s = j mod max_width s \<longleftrightarrow> x = j"
    using window_mod_inj [of "rb_min s" x "max_width s" j] ones_range [OF x] j D(4) by auto
  moreover have "j mod max_width s < length (rb_bits s)" using D(1,2) by simp
  ultimately show ?thesis
    using j by (auto simp: nth_list_update get_address_def ones_def contains_assume_in_range_def)
qed

lemma find_first_one:
  assumes inv: "rbf_inv s" and ne: "ones s \<noteq> {}" and rest: "ones s - {rb_min s} \<noteq> {}"
    and eq: "rb_bits s' = (rb_bits s)[get_address (rb_min s) s := False]" "max_width s' = max_width s"
  shows "find (contains_assume_in_range s') [rb_min s + 1..<max_exclusive s] = Some (Min (ones s - {rb_min s}))"
proof -
  let ?m = "Min (ones s - {rb_min s})"
  note D = rbf_invD [OF inv]
  have x: "rb_min s \<in> ones s" by (rule D(11) [OF ne])
  have m: "?m \<in> ones s" "?m \<noteq> rb_min s" using Min_in [OF _ rest] finite_ones by auto
  have bit: "contains_assume_in_range s' j \<longleftrightarrow> j \<in> ones s \<and> j \<noteq> rb_min s"
    if "rb_min s \<le> j" "j < max_exclusive s" for j
    using clear_bit_iff [OF inv x that] eq by (simp add: contains_assume_in_range_def get_address_def)
  have r: "rb_min s + 1 \<le> ?m" "?m < max_exclusive s" using m ones_range [of ?m s] by auto
  let ?i = "?m - (rb_min s + 1)"
  have "[rb_min s + 1..<max_exclusive s] ! ?i = ?m" "?i < length [rb_min s + 1..<max_exclusive s]" using r by auto
  moreover have "contains_assume_in_range s' ?m" using bit [of ?m] m ones_range by auto
  moreover have "\<not> contains_assume_in_range s' ([rb_min s + 1..<max_exclusive s] ! j)" if "j < ?i" for j
  proof -
    have "rb_min s + 1 + j < ?m" using that by simp
    then have "rb_min s + 1 + j \<notin> ones s - {rb_min s}"
      using Min_le [of "ones s - {rb_min s}" "rb_min s + 1 + j"] finite_ones by fastforce
    then show ?thesis using bit [of "rb_min s + 1 + j"] that r by auto
  qed
  ultimately show ?thesis by (auto simp: find_Some_iff intro!: exI [of _ ?i])
qed

text \<open>Taking the least key out of the bits: \<open>purge\<close> re-establishes the invariant.\<close>

lemma purge_min_ok:
  assumes inv: "rbf_inv s" and ne: "ones s \<noteq> {}"
    and bits: "rb_bits s' = (rb_bits s)[get_address (rb_min s) s := False]"
    and same: "max_width s' = max_width s" "rb_min s' = rb_min s" "max_exclusive s' = max_exclusive s"
    and ex: "distinct (excess s')" "\<And>e. e \<in> set (excess s') \<Longrightarrow> e \<le> rb_min s"
    and cnt: "rb_count s' = length (excess s') + card (ones s - {rb_min s})"
  shows "\<exists>t. purge (rb_min s) s' = Some t \<and> rbf_inv t \<and> ones t = ones s - {rb_min s} \<and> excess t = excess s' \<and>
    max_exclusive t = max_exclusive s \<and> max_width t = max_width s"
proof -
  let ?x = "rb_min s" and ?O = "ones s - {rb_min s}"
  note D = rbf_invD [OF inv]
  have x: "?x \<in> ones s" by (rule D(11) [OF ne])
  have bit: "contains_assume_in_range t j \<longleftrightarrow> j \<in> ones s \<and> j \<noteq> ?x"
    if "rb_min s \<le> j" "j < max_exclusive s" "rb_bits t = rb_bits s'" "max_width t = max_width s" for j t
    using clear_bit_iff [OF inv x that(1,2)] bits that(3,4) by (simp add: contains_assume_in_range_def get_address_def)
  have onesI: "ones t = ?O"
    if t: "rb_bits t = rb_bits s'" "max_width t = max_width s" "max_exclusive t = max_exclusive s"
      "rb_min s \<le> rb_min t" "\<forall>j \<in> ?O. rb_min t \<le> j" for t
    using bit [OF _ _ t(1,2)] t(3-5) ones_range [of _ s] unfolding ones_def [of t] by auto
  have covered: "\<exists>k \<in> ?O. k mod max_width s = a" if "a < max_width s" "rb_bits s' ! a" for a
  proof -
    have "rb_bits s ! a" "a \<noteq> ?x mod max_width s"
      using that D(2) unfolding bits get_address_def by (auto simp: nth_list_update split: if_splits)
    then show ?thesis using D(8) [OF that(1)] by auto
  qed
  have emp: "all_items_in_excess s' \<longleftrightarrow> ?O = {}"
    using cnt finite_ones [of s] by (simp add: all_items_in_excess_def)
  show ?thesis
  proof (cases "?O = {}")
    case True
    let ?t = "s'\<lparr>rb_min := max_exclusive s\<rparr>"
    have "purge ?x s' = Some ?t" using emp True same(3) by (simp add: purge_def)
    moreover have o: "ones ?t = ?O" using True D(3) by (intro onesI) (auto simp: same)
    moreover have "e < max_exclusive s" if "e \<in> set (excess s')" for e
      using ex(2) [OF that] ones_range [OF x] by linarith
    then have "rbf_inv ?t"
      unfolding rbf_inv_def o using D(1-5) True ex(1) same cnt bits covered by simp
    ultimately show ?thesis using same by auto
  next
    case False
    let ?m = "Min ?O"
    let ?t = "s'\<lparr>rb_min := ?m\<rparr>"
    have m: "?m \<in> ?O" using Min_in [OF _ False] finite_ones by auto
    have mr: "rb_min s < ?m" "?m < max_exclusive s" using m ones_range [of ?m s] by auto
    have "rb_min s + 1 < 2 ^ 64" using mr D(5) by simp
    moreover have "0 < rb_count s'" using False cnt finite_ones [of s] by (simp add: card_gt_0_iff)
    ultimately have "purge ?x s' = Some ?t"
      using emp False find_first_one [OF inv ne False bits same(1)] same by (simp add: purge_def add64_def)
    moreover have o: "ones ?t = ?O"
      using mr finite_ones by (intro onesI) (simp_all add: same Min_le)
    moreover have "e < ?m" if "e \<in> set (excess s')" for e using ex(2) [OF that] mr by linarith
    then have "rbf_inv ?t"
      unfolding rbf_inv_def o using D(1-5) False ex(1) same cnt bits m mr covered by simp
    ultimately show ?thesis using same by auto
  qed
qed

lemma make_room_ok:
  assumes "rbf_inv s" and "ones s \<noteq> {}"
  shows "\<exists>be t. make_room new_max s = Some (be, t) \<and> rbf_inv t \<and> rbf_set t = rbf_set s \<and>
    max_width t = max_width s \<and> max_exclusive t = max_exclusive s \<and> (be \<longleftrightarrow> ones t = {}) \<and>
    (\<not> be \<longrightarrow> new_max - rb_min t \<le> max_width s)"
  using assms
proof (induction "card (ones s)" arbitrary: s rule: less_induct)
  case less
  note D = rbf_invD [OF less.prems(1)]
  have x: "rb_min s \<in> ones s" by (rule D(11) [OF less.prems(2)])
  show ?case
  proof (cases "new_max - rb_min s \<le> max_width s")
    case True
    with less.prems show ?thesis by (subst make_room.simps) (auto intro!: exI [of _ False])
  next
    case False
    let ?s' = "s\<lparr>excess := rb_min s # excess s, rb_bits := (rb_bits s)[get_address (rb_min s) s := False]\<rparr>"
    have nin: "rb_min s \<notin> set (excess s)" using D(7) by blast
    have "card (ones s) = Suc (card (ones s - {rb_min s}))"
      using x finite_ones [of s] card_Suc_Diff1 by metis
    then obtain t where t: "purge (rb_min s) ?s' = Some t" "rbf_inv t" "ones t = ones s - {rb_min s}"
      "excess t = rb_min s # excess s" "max_exclusive t = max_exclusive s" "max_width t = max_width s"
      using purge_min_ok [OF less.prems, of ?s'] D(6,7,9) nin by fastforce
    have set: "rbf_set t = rbf_set s" using t(3,4) x by (auto simp: rbf_set_def)
    have unf: "make_room new_max s = (if all_items_in_excess t then Some (True, t) else make_room new_max t)"
      by (subst make_room.simps) (simp add: False nin t(1))
    show ?thesis
    proof (cases "ones t = {}")
      case True
      then show ?thesis using unf t set excess_iff(1) [OF t(2)] by auto
    next
      case ne: False
      have "card (ones t) < card (ones s)" using t(3) x finite_ones by (metis card_Diff1_less)
      from less.hyps [OF this t(2) ne] show ?thesis
        using unf t set excess_iff(1) [OF t(2)] ne by auto
    qed
  qed
qed

section \<open>Insertion and removal\<close>

lemma set_bit_iff:
  assumes "length (rb_bits s) = max_width s" and "0 < max_width s"
    and "m \<le> j" "j < m + max_width s" "m \<le> key" "key < m + max_width s"
  shows "(rb_bits s)[get_address key s := True] ! (j mod max_width s) \<longleftrightarrow> j = key \<or> rb_bits s ! (j mod max_width s)"
proof -
  have "key mod max_width s = j mod max_width s \<longleftrightarrow> key = j"
    using window_mod_inj [of m key "max_width s" j] assms(3-) by auto
  then show ?thesis using assms(1,2) by (auto simp: nth_list_update get_address_def)
qed

lemma set_bit_empty_ok:
  assumes inv: "rbf_inv s" and emp: "ones s = {}" and key: "key + 1 < 2 ^ 64"
    and cnt: "key \<notin> rbf_set s \<Longrightarrow> rb_count s + 1 < 2 ^ 64"
    and above: "\<And>e. e \<in> set (excess s) \<Longrightarrow> e < key"
  shows "\<exists>t. set_bit_for True key s = Some t \<and> rbf_inv t \<and> rbf_set t = insert key (rbf_set s) \<and>
    ones t = {key} \<and> max_width t = max_width s"
proof -
  note D = rbf_invD [OF inv]
  let ?t = "s\<lparr>rb_bits := (rb_bits s)[get_address key s := True], rb_min := key, max_exclusive := key + 1,
    rb_count := rb_count s + 1\<rparr>"
  have clear: "\<not> rb_bits s ! a" if "a < max_width s" for a using D(8) [OF that] emp by auto
  have a: "get_address key s < max_width s" using D(1) by (simp add: get_address_def)
  have "key \<notin> rbf_set s" using above emp by (auto simp: rbf_set_def)
  then have "set_bit_for True key s = Some ?t"
    using clear [OF a] key cnt by (simp add: set_bit_for_def Let_def add64_def)
  moreover have o: "ones ?t = {key}"
    using D(1,2) by (auto simp: ones_def contains_assume_in_range_def get_address_def)
  moreover have "rbf_inv ?t"
    unfolding rbf_inv_def o
    using D(1,2,6,9) above key emp clear by (auto simp: nth_list_update get_address_def split: if_splits)
  ultimately show ?thesis using emp by (auto simp: rbf_set_def)
qed

lemma set_bit_range_ok:
  assumes inv: "rbf_inv s" and ne: "ones s \<noteq> {}" and key: "rb_min s \<le> key" "key + 1 \<le> rb_min s + max_width s"
    and ov: "rb_min s + max_width s < 2 ^ 64" and cnt: "key \<notin> rbf_set s \<Longrightarrow> rb_count s + 1 < 2 ^ 64"
  shows "\<exists>t. set_bit_for False key s = Some t \<and> rbf_inv t \<and> rbf_set t = insert key (rbf_set s) \<and>
    ones t \<noteq> {} \<and> max_width t = max_width s"
proof -
  note D = rbf_invD [OF inv]
  let ?mx = "max (max_exclusive s) (key + 1)"
  have val: "rb_bits s ! (key mod max_width s) \<longleftrightarrow> key \<in> ones s"
  proof
    assume "rb_bits s ! (key mod max_width s)"
    then obtain k where k: "k \<in> ones s" "k mod max_width s = key mod max_width s"
      using D(8) [of "key mod max_width s"] D(1) by auto
    then have "k = key" using window_mod_inj [of "rb_min s" k "max_width s" key] ones_range [OF k(1)] key D(4) by auto
    with k show "key \<in> ones s" by simp
  qed (simp add: ones_def contains_assume_in_range_def get_address_def)
  show ?thesis
  proof (cases "key \<in> ones s")
    case True
    then have "set_bit_for False key s = Some s" using val by (simp add: set_bit_for_def get_address_def)
    with inv ne True show ?thesis by (auto simp: rbf_set_def)
  next
    case False
    let ?t = "s\<lparr>rb_bits := (rb_bits s)[get_address key s := True], rb_min := rb_min s, max_exclusive := ?mx,
      rb_count := rb_count s + 1\<rparr>"
    have "key \<notin> rbf_set s" using False key(1) D(7) by (fastforce simp: rbf_set_def)
    then have "set_bit_for False key s = Some ?t"
      using False val key ov cnt D(4) by (simp add: set_bit_for_def Let_def add64_def get_address_def min_absorb1)
    moreover have o: "ones ?t = insert key (ones s)"
    proof -
      have bit: "contains_assume_in_range ?t j \<longleftrightarrow> j = key \<or> rb_bits s ! (j mod max_width s)"
        if "rb_min s \<le> j" "j < rb_min s + max_width s" for j
        using set_bit_iff [OF D(2,1) that, of key] key
        by (simp add: contains_assume_in_range_def get_address_def)
      have old: "j \<in> ones s" if j: "rb_min s \<le> j" "j < rb_min s + max_width s" "rb_bits s ! (j mod max_width s)" for j
      proof -
        obtain k where k: "k \<in> ones s" "k mod max_width s = j mod max_width s"
          using D(8) [of "j mod max_width s"] D(1) j(3) by auto
        then have "k = j" using window_mod_inj [of "rb_min s" k "max_width s" j] ones_range [OF k(1)] j D(4) by auto
        with k show ?thesis by simp
      qed
      have "j \<in> ones ?t \<longleftrightarrow> j = key \<or> j \<in> ones s" for j
      proof
        assume "j \<in> ones ?t"
        then have "rb_min s \<le> j" "j < rb_min s + max_width s" "contains_assume_in_range ?t j"
          using key D(4) by (auto simp: ones_def)
        then show "j = key \<or> j \<in> ones s" using bit old by blast
      next
        assume "j = key \<or> j \<in> ones s"
        moreover have "rb_bits s ! (j mod max_width s)" if "j \<in> ones s"
          using that by (simp add: ones_def contains_assume_in_range_def get_address_def)
        ultimately have "rb_min s \<le> j" "j < ?mx" "contains_assume_in_range ?t j"
          using key ones_range [of j s] bit [of j] D(4) by auto
        then show "j \<in> ones ?t" by (simp add: ones_def)
      qed
      then show ?thesis by blast
    qed
    moreover have "rbf_inv ?t"
    proof -
      have "\<exists>k \<in> ones ?t. k mod max_width s = a" if "a < max_width s" "(rb_bits s)[get_address key s := True] ! a" for a
        using that D(2,8) unfolding o by (auto simp: nth_list_update get_address_def split: if_splits)
      moreover have "card (ones ?t) = Suc (card (ones s))" unfolding o using False finite_ones [of s] by simp
      moreover have "rb_min s \<in> ones ?t" "ones ?t \<noteq> {}" using D(11) [OF ne] unfolding o by auto
      ultimately show ?thesis
        unfolding rbf_inv_def using D(1-7,9) key ov by auto
    qed
    ultimately show ?thesis by (auto simp: rbf_set_def)
  qed
qed

definition rbf_storable :: "rolling_bit_field \<Rightarrow> nat \<Rightarrow> bool" where
  "rbf_storable s key \<longleftrightarrow> key + max_width s < 2 ^ 64 \<and> (ones s = {} \<longrightarrow> (\<forall>e \<in> set (excess s). e < key))"

lemma count_room:
  assumes "rbf_inv s" and "key + 1 < 2 ^ 64" and "key \<notin> rbf_set s"
  shows "rb_count s + 1 < 2 ^ 64"
proof -
  note D = rbf_invD [OF assms(1)]
  have "insert key (rbf_set s) \<subseteq> {..<2 ^ 64 - 1}"
    using assms(2) D(3,5,7) ones_range [of _ s] by (fastforce simp: rbf_set_def)
  then have "card (insert key (rbf_set s)) \<le> 2 ^ 64 - 1" using card_mono [of "{..<2 ^ 64 - 1 :: nat}"] by simp
  then show ?thesis using rbf_set_finite_card [OF assms(1)] assms(3) by simp
qed

lemma rbf_insert_ok:
  assumes inv: "rbf_inv s" and st: "rbf_storable s key"
  shows "\<exists>t. rbf_insert key s = Some t \<and> rbf_inv t \<and> rbf_set t = insert key (rbf_set s) \<and>
    ones t \<noteq> {} \<and> max_width t = max_width s"
proof -
  note D = rbf_invD [OF inv] and E = excess_iff [OF inv]
  have k1: "key + 1 < 2 ^ 64" using st D(1) by (simp add: rbf_storable_def)
  note room = count_room [OF _ k1]
  show ?thesis
  proof (cases "ones s = {}")
    case True
    then have "rbf_insert key s = set_bit_for True key s" using E by (simp add: rbf_insert_def)
    moreover have "\<And>e. e \<in> set (excess s) \<Longrightarrow> e < key" using st True by (simp add: rbf_storable_def)
    ultimately show ?thesis using set_bit_empty_ok [OF inv True k1 room [OF inv]] by auto
  next
    case ne: False
    then have be: "\<not> (rb_count s = 0 \<or> all_items_in_excess s)" using E by (auto simp: rbf_set_def)
    have mw: "rb_min s \<le> key \<Longrightarrow> rb_min s + max_width s < 2 ^ 64" using st by (simp add: rbf_storable_def)
    consider (below) "key < rb_min s" | (inside) "rb_min s \<le> key" "key < max_exclusive s"
      | (beyond) "max_exclusive s \<le> key" by linarith
    then show ?thesis
    proof cases
      case below
      show ?thesis
      proof (cases "key \<in> set (excess s)")
        case True
        then show ?thesis using be below inv ne by (auto simp: rbf_insert_def rbf_set_def)
      next
        case False
        let ?t = "s\<lparr>excess := key # excess s, rb_count := rb_count s + 1\<rparr>"
        have "key \<notin> rbf_set s" using False below ones_range by (fastforce simp: rbf_set_def)
        then have "rbf_insert key s = Some ?t"
          using be below False room [OF inv] by (simp add: rbf_insert_def add64_def)
        moreover have o: "ones ?t = ones s" by (simp add: ones_def contains_assume_in_range_def get_address_def)
        moreover have "rbf_inv ?t" unfolding rbf_inv_def o using D ne False below by auto
        ultimately show ?thesis using ne by (auto simp: rbf_set_def)
      qed
    next
      case inside
      then have "rbf_insert key s = set_bit_for False key s" using be by (simp add: rbf_insert_def)
      with set_bit_range_ok [OF inv ne inside(1) _ mw [OF inside(1)] room [OF inv]] inside D(4) show ?thesis by auto
    next
      case beyond
      obtain b t where t: "make_room (key + 1) s = Some (b, t)" "rbf_inv t" "rbf_set t = rbf_set s"
        "max_width t = max_width s" "max_exclusive t = max_exclusive s" "b \<longleftrightarrow> ones t = {}"
        "\<not> b \<longrightarrow> key + 1 - rb_min t \<le> max_width s"
        using make_room_ok [OF inv ne] by blast
      have ins: "rbf_insert key s = set_bit_for b key t"
        using be beyond D(3) k1 t(1) by (simp add: rbf_insert_def add64_def)
      have min: "rb_min t \<le> key" using rbf_invD(3) [OF t(2)] t(5) beyond by simp
      show ?thesis
      proof (cases b)
        case True
        have "e < key" if "e \<in> set (excess t)" for e
          using rbf_invD(7) [OF t(2) that] min by simp
        with set_bit_empty_ok [OF t(2) _ k1 room [OF t(2)]] True t(3,4,6) ins show ?thesis by auto
      next
        case False
        have "rb_min t + max_width t < 2 ^ 64" using st min t(4) by (simp add: rbf_storable_def)
        moreover have "key + 1 \<le> rb_min t + max_width t" using t(4,7) False min by simp
        ultimately show ?thesis
          using set_bit_range_ok [OF t(2) _ min _ _ room [OF t(2)]] False t(3,4,6) ins by auto
      qed
    qed
  qed
qed

lemma rbf_remove_ok:
  assumes inv: "rbf_inv s"
  shows "\<exists>t. rbf_remove key s = Some (key \<in> rbf_set s, t) \<and> rbf_inv t \<and> rbf_set t = rbf_set s - {key} \<and>
    max_width t = max_width s"
proof -
  note D = rbf_invD [OF inv]
  have ex: "key \<notin> set (excess s)" if "rb_min s \<le> key" using that D(7) by fastforce
  have bit: "rb_bits s ! get_address key s \<longleftrightarrow> key \<in> ones s" if "rb_min s \<le> key" "key < max_exclusive s"
    using that by (simp add: ones_def contains_assume_in_range_def)
  consider (one) "key \<in> ones s" | (low) "key < rb_min s" "key \<in> set (excess s)" | (none) "key \<notin> rbf_set s"
    using ex by (auto simp: rbf_set_def not_le [symmetric])
  then show ?thesis
  proof cases
    case one
    let ?s' = "s\<lparr>rb_count := rb_count s - 1, rb_bits := (rb_bits s)[get_address key s := False]\<rparr>"
    have r: "rb_min s \<le> key" "key < max_exclusive s" using ones_range [OF one] by auto
    have "card (ones s) = Suc (card (ones s - {key}))" using one finite_ones [of s] card_Suc_Diff1 by metis
    then have c: "rb_count s - 1 = length (excess s) + card (ones s - {key})" "1 \<le> rb_count s" using D(9) by auto
    have rem: "rbf_remove key s = purge key ?s' \<bind> (\<lambda>t. Some (True, t))"
      using r bit one c(2) by (simp add: rbf_remove_def sub64_def)
    have "\<exists>t. purge key ?s' = Some t \<and> rbf_inv t \<and> ones t = ones s - {key} \<and> excess t = excess s \<and> max_width t = max_width s"
    proof (cases "key = rb_min s")
      case True
      with purge_min_ok [OF inv, of ?s'] one D(6,7) c(1) show ?thesis by fastforce
    next
      case False
      have min: "rb_min s \<in> ones s - {key}" using D(11) one False by blast
      have o: "ones ?s' = ones s - {key}"
        using clear_bit_iff [OF inv one] by (auto simp: ones_def contains_assume_in_range_def get_address_def)
      have "\<not> all_items_in_excess ?s'"
        using c(1) min finite_ones [of s] card_gt_0_iff [of "ones s - {key}"] by (auto simp: all_items_in_excess_def)
      moreover have "0 < rb_count s - 1" using c(1) min finite_ones [of s] card_gt_0_iff [of "ones s - {key}"] by auto
      ultimately have "purge key ?s' = Some ?s'" using False by (simp add: purge_def)
      moreover have "\<exists>k \<in> ones ?s'. k mod max_width s = a" if "a < max_width s" "rb_bits ?s' ! a" for a
        using that D(2,8) unfolding o by (fastforce simp: nth_list_update get_address_def split: if_splits)
      then have "rbf_inv ?s'" unfolding rbf_inv_def o using D(1-7) c(1) min by auto
      ultimately show ?thesis using o by simp
    qed
    then show ?thesis using rem one ex [OF r(1)] by (auto simp: rbf_set_def)
  next
    case low
    let ?t = "s\<lparr>excess := remove1 key (excess s), rb_count := rb_count s - 1\<rparr>"
    have o: "ones ?t = ones s" by (simp add: ones_def contains_assume_in_range_def get_address_def)
    have pos: "0 < length (excess s)" using low(2) by (rule length_pos_if_in_set)
    then have c1: "1 \<le> rb_count s" using D(9) by linarith
    then have "rbf_remove key s = Some (True, ?t)" using low by (simp add: rbf_remove_def sub64_def)
    moreover have "rbf_inv ?t"
    proof -
      have "rb_count s - 1 = length (remove1 key (excess s)) + card (ones s)"
        using D(9) pos length_remove1 [of key "excess s"] low(2) by (simp del: length_greater_0_conv)
      moreover have "\<forall>e \<in> set (remove1 key (excess s)). e < rb_min s"
        using D(7) set_remove1_subset by fastforce
      ultimately show ?thesis
        using inv D(6) distinct_remove1 [of "excess s" key] unfolding rbf_inv_def o by simp
    qed
    moreover have "rbf_set ?t = rbf_set s - {key}"
      using low D(6) ones_range [of key s] unfolding rbf_set_def o by (auto simp: set_remove1_eq)
    ultimately show ?thesis using low by (auto simp: rbf_set_def)
  next
    case none
    then have "rbf_remove key s = Some (False, s)" using bit by (auto simp: rbf_remove_def rbf_set_def)
    with none inv show ?thesis by auto
  qed
qed

interpretation rbf: int_set rbf_inv rbf_set rbf_storable rbf_contains rbf_insert
proof (unfold_locales, goal_cases)
  case (3 s x)
  then show ?case using rbf_insert_ok [of s x] by (auto simp: rbf_storable_def)
qed (simp_all add: rbf_set_finite_card rbf_contains_iff)

section \<open>Queries\<close>

lemma filter_range_ones: "set (filter (contains_assume_in_range s) [rb_min s..<max_exclusive s]) = ones s"
  by (auto simp: ones_def)

lemma get_all_ok:
  assumes "rbf_inv s"
  shows "distinct (get_all s)" and "set (get_all s) = rbf_set s"
proof -
  show "set (get_all s) = rbf_set s" by (simp add: get_all_def rbf_set_def filter_range_ones del: set_filter)
  have "set (excess s) \<inter> ones s = {}" using rbf_invD(7) [OF assms] ones_range by fastforce
  then show "distinct (get_all s)"
    using rbf_invD(6) [OF assms] by (simp add: get_all_def filter_range_ones del: set_filter)
qed

lemma takeWhile_less_upt: "takeWhile (\<lambda>k. \<not> m \<le> k) [a..<b] = filter (\<lambda>k. k < m) [a..<b]"
  by (induction b) (auto simp: takeWhile_append not_le)

lemma get_all_less_than_eq: "get_all_less_than m s = filter (\<lambda>k. k < m) (get_all s)"
  by (simp add: get_all_less_than_def get_all_def takeWhile_less_upt filter_filter conj_commute)

lemma rbf_min_ok:
  assumes "rbf_inv s"
  shows "rbf_min s = (if rbf_set s = {} then None else Some (Min (rbf_set s)))"
proof -
  note D = rbf_invD [OF assms] and E = excess_iff [OF assms]
  have Mo: "Min (ones s) = rb_min s" if "ones s \<noteq> {}"
    by (rule Min_eqI) (use finite_ones ones_range D(11) [OF that] in auto)
  show ?thesis
  proof (cases "set (excess s) = {} \<or> ones s = {}")
    case True
    then show ?thesis using E Mo by (auto simp: rbf_min_def rbf_is_empty_def rbf_len_def rbf_set_def Let_def)
  next
    case False
    then have "Min (rbf_set s) = min (Min (set (excess s))) (rb_min s)"
      using Mo finite_ones by (simp add: rbf_set_def Min_Un)
    with False E show ?thesis
      by (auto simp: rbf_min_def rbf_is_empty_def rbf_len_def rbf_set_def Let_def min.commute)
  qed
qed

lemma get_prior_loop_ok:
  assumes "rbf_inv s" and "rbf_set s \<noteq> {}"
  shows "get_prior_loop s (Min (rbf_set s)) slot =
    (if slot \<in> rbf_set s then Some slot
     else if {k \<in> rbf_set s. 0 < k \<and> k < slot} = {} then None else Some (Max {k \<in> rbf_set s. 0 < k \<and> k < slot}))"
proof (induction slot rule: less_induct)
  case (less slot)
  let ?S = "\<lambda>n. {k \<in> rbf_set s. 0 < k \<and> k < n}"
  have fin: "finite (rbf_set s)" by (rule rbf_set_finite_card [OF assms(1)])
  note unf = get_prior_loop.simps [of s "Min (rbf_set s)" slot]
  show ?case
  proof (cases "slot \<in> rbf_set s")
    case True
    then show ?thesis using rbf_contains_iff [OF assms(1)] by (simp add: unf)
  next
    case False
    show ?thesis
    proof (cases "slot - 1 = 0 \<or> slot - 1 < Min (rbf_set s)")
      case True
      have "?S slot = {}"
        using True Min_le [OF fin] by (auto dest!: Min_le [OF fin])
      then show ?thesis using False True rbf_contains_iff [OF assms(1)] by (auto simp: unf Let_def)
    next
      case go: False
      then have lt: "slot - 1 < slot" by simp
      have rec: "get_prior_loop s (Min (rbf_set s)) slot = get_prior_loop s (Min (rbf_set s)) (slot - 1)"
        using go False rbf_contains_iff [OF assms(1)] by (auto simp: unf Let_def)
      show ?thesis
      proof (cases "slot - 1 \<in> rbf_set s")
        case True
        then have "Max (?S slot) = slot - 1" using go fin by (intro Max_eqI) auto
        moreover have "slot - 1 \<in> ?S slot" using True go by auto
        ultimately show ?thesis using less.IH [OF lt] rec True False by auto
      next
        case no: False
        have "k < slot \<longleftrightarrow> k < slot - 1" if "k \<in> rbf_set s" for k
        proof -
          have "k \<noteq> slot - 1" using that no by blast
          then show ?thesis using go by linarith
        qed
        then have "?S slot = ?S (slot - 1)" by blast
        then show ?thesis using less.IH [OF lt] rec no False by auto
      qed
    qed
  qed
qed

lemma next_one_Some: "next_one s bs = Some (b, bs') \<Longrightarrow>
    filter (contains_assume_in_range s) bs = b # filter (contains_assume_in_range s) bs' \<and> length bs' < length bs"
  by (induction bs) (auto split: if_splits)

lemma next_one_None: "next_one s bs = None \<longleftrightarrow> filter (contains_assume_in_range s) bs = []"
  by (induction bs) auto

definition iter_rest :: "rolling_bit_field \<Rightarrow> ones_iter \<Rightarrow> nat list" where
  "iter_rest s it = excess_iter it @ filter (contains_assume_in_range s) (bit_range it)"

text \<open>Running the iterator to its end.\<close>

function collect_ones :: "rolling_bit_field \<Rightarrow> ones_iter \<Rightarrow> nat list" where
  "collect_ones s it = (case ones_next s it of None \<Rightarrow> [] | Some (k, it') \<Rightarrow> k # collect_ones s it')"
  by auto
termination
  by (relation "measure (\<lambda>(s, it). length (excess_iter it) + length (bit_range it))")
    (auto simp: ones_next_def split: list.splits option.splits prod.splits dest: next_one_Some)

declare collect_ones.simps [simp del]

lemma collect_ones_eq: "collect_ones s it = iter_rest s it"
proof (induction s it rule: collect_ones.induct)
  case (1 s it)
  show ?case
  proof (cases "ones_next s it")
    case None
    then have "iter_rest s it = []"
      by (auto simp: ones_next_def iter_rest_def next_one_None split: list.splits option.splits prod.splits)
    with None show ?thesis by (subst collect_ones.simps) simp
  next
    case (Some p)
    obtain k it' where p: "p = (k, it')" by (cases p)
    have "iter_rest s it = k # iter_rest s it'"
      using Some p by (auto simp: ones_next_def iter_rest_def dest: next_one_Some split: list.splits option.splits)
    with 1 [OF Some] Some p show ?thesis by (subst collect_ones.simps) simp
  qed
qed

section \<open>Properties\<close>

text \<open>C17: \<open>Ancestors\<close> built from a list of slots denote exactly that set. If no slot is within the
  window width of the largest \<open>u64\<close>, \<open>from\<close> returns without a panic; the result contains exactly the
  given slots, counts each once, lists them without repetition and knows the least one.\<close>

theorem ancestors_from_ok:
  assumes "\<forall>slot \<in> set source. slot + ANCESTORS_HASH_MAP_SIZE < 2 ^ 64"
  shows "\<exists>a. ancestors_from source = Some a \<and> (\<forall>slot. contains_key a slot \<longleftrightarrow> slot \<in> set source) \<and>
    ancestors_len a = card (set source) \<and> distinct (ancestors_keys a) \<and> set (ancestors_keys a) = set source \<and>
    min_slot a = (if source = [] then 0 else Min (set source))"
proof -
  have "(8192 :: nat) \<in> (\<lambda>i. 2 ^ i) ` {..<64}" by (rule image_eqI [of _ _ 13]) simp_all
  then obtain s where s: "ancestors_default = Some s"
    by (auto simp: ancestors_default_def rbf_new_def ANCESTORS_HASH_MAP_SIZE_def assert_that_def)
  note new = rbf_new_ok [OF s [unfolded ancestors_default_def]]
  have "\<forall>x \<in> set (sort source). rbf_storable s x"
    using assms new by (auto simp: rbf_storable_def rbf_set_def)
  from rbf.add_all [OF new(1) this] obtain a where a: "run_list rbf_insert (sort source) s = Some a"
    "rbf_inv a" "rbf_set a = set source" using new(2) by auto
  have "card (set source) = rb_count a" using rbf_set_finite_card(2) [OF a(2)] a(3) by simp
  moreover have "ancestors_from source = Some a" unfolding ancestors_from_def s using a(1) by simp
  moreover have "min_slot a = (if source = [] then 0 else Min (set source))"
    using rbf_min_ok [OF a(2)] a(3) by (simp add: min_slot_def)
  ultimately show ?thesis
    using rbf_contains_iff [OF a(2)] get_all_ok [OF a(2)] a(3)
    by (intro exI [of _ a]) (simp add: contains_key_def ancestors_len_def rbf_len_def ancestors_keys_def)
qed

theorem ancestors_from_ok_witness:
  "\<exists>a. ancestors_from [9000, 3, 9000] = Some a \<and> contains_key a 3 \<and> \<not> contains_key a 4 \<and> ancestors_len a = 2"
  using ancestors_from_ok [of "[9000, 3, 9000]"] by (auto simp: ANCESTORS_HASH_MAP_SIZE_def card_insert_if)

text \<open>C18: Refinement to sets. On states that satisfy the invariant, \<open>contains\<close> and \<open>len\<close> are
  membership and cardinality of the denoted set; \<open>remove\<close> answers whether the key was a member and
  takes it out; \<open>insert\<close> puts the key in, provided the key is not below the remaining excess keys
  while the bits are empty, and not too close to the end of the range of \<open>u64\<close>.\<close>

theorem rbf_refines_set:
  assumes "rbf_inv s"
  shows "(rbf_contains s key \<longleftrightarrow> key \<in> rbf_set s) \<and> rbf_len s = card (rbf_set s) \<and>
    (\<exists>t. rbf_remove key s = Some (key \<in> rbf_set s, t) \<and> rbf_inv t \<and> rbf_set t = rbf_set s - {key}) \<and>
    (rbf_storable s key \<longrightarrow> (\<exists>t. rbf_insert key s = Some t \<and> rbf_inv t \<and> rbf_set t = insert key (rbf_set s)))"
proof (intro conjI impI)
  show "rbf_contains s key \<longleftrightarrow> key \<in> rbf_set s" by (rule rbf_contains_iff [OF assms])
  show "rbf_len s = card (rbf_set s)" using rbf_set_finite_card(2) [OF assms] by (simp add: rbf_len_def)
  show "\<exists>t. rbf_remove key s = Some (key \<in> rbf_set s, t) \<and> rbf_inv t \<and> rbf_set t = rbf_set s - {key}"
    using rbf_remove_ok [OF assms, of key] by blast
  show "\<exists>t. rbf_insert key s = Some t \<and> rbf_inv t \<and> rbf_set t = insert key (rbf_set s)" if "rbf_storable s key"
    using rbf_insert_ok [OF assms that] by blast
qed

theorem rbf_refines_set_witness:
  "\<exists>s t. rbf_new 4 = Some s \<and> rbf_insert 11 s = Some t \<and> rbf_set t = {11}"
proof -
  have "(4 :: nat) \<in> (\<lambda>i. 2 ^ i) ` {..<64}" by (rule image_eqI [of _ _ 2]) simp_all
  then obtain s where s: "rbf_new 4 = Some s" by (simp add: rbf_new_def assert_that_def)
  note new = rbf_new_ok [OF s]
  have "rbf_storable s 11" using new by (auto simp: rbf_storable_def rbf_set_def)
  with rbf_refines_set [OF new(1), of 11] new(2) s show ?thesis by auto
qed

text \<open>C19: Equality of bit fields is equality of the denoted sets, although equal sets can have
  different windows and excess keys.\<close>

theorem rbf_eq_iff:
  assumes "rbf_inv s" and "rbf_inv t"
  shows "rbf_eq s t \<longleftrightarrow> rbf_set s = rbf_set t"
proof
  assume eq: "rbf_eq s t"
  then have "rbf_set s \<subseteq> rbf_set t"
    using get_all_ok(2) [OF assms(1)] rbf_contains_iff [OF assms(2)] by (auto simp: rbf_eq_def list_all_iff)
  moreover have "card (rbf_set s) = card (rbf_set t)"
    using eq rbf_set_finite_card(2) [OF assms(1)] rbf_set_finite_card(2) [OF assms(2)]
    by (simp add: rbf_eq_def rbf_len_def)
  ultimately show "rbf_set s = rbf_set t" by (rule card_subset_eq [OF rbf_set_finite_card(1) [OF assms(2)]])
next
  assume "rbf_set s = rbf_set t"
  then show "rbf_eq s t"
    using get_all_ok(2) [OF assms(1)] rbf_contains_iff [OF assms(2)] rbf_set_finite_card(2) [OF assms(1)]
      rbf_set_finite_card(2) [OF assms(2)] by (auto simp: rbf_eq_def rbf_len_def list_all_iff)
qed

theorem rbf_eq_iff_witness:
  "rbf_eq \<lparr>max_width = 4, rb_min = 6, max_exclusive = 7, rb_bits = [False, False, True, False], rb_count = 2, excess = [3]\<rparr>
     \<lparr>max_width = 4, rb_min = 3, max_exclusive = 7, rb_bits = [False, False, True, True], rb_count = 2, excess = []\<rparr>"
proof -
  let ?s = "\<lparr>max_width = 4, rb_min = 6, max_exclusive = 7, rb_bits = [False, False, True, False], rb_count = 2, excess = [3]\<rparr>"
  let ?t = "\<lparr>max_width = 4, rb_min = 3, max_exclusive = 7, rb_bits = [False, False, True, True], rb_count = 2, excess = []\<rparr>"
  have os: "ones ?s = {6}" by (auto simp: ones_def contains_assume_in_range_def get_address_def)
  have r: "3 \<le> k \<and> k < 7 \<longleftrightarrow> k \<in> {3, 4, 5, 6}" for k :: nat by auto
  have ot: "ones ?t = {3, 6}"
    unfolding ones_def by (auto simp: r conj_assoc [symmetric] contains_assume_in_range_def get_address_def)
  have a: "a < 4 \<longleftrightarrow> a \<in> {0, 1, 2, 3}" for a :: nat by auto
  have invs: "rbf_inv ?s" unfolding rbf_inv_def os by (auto simp: a)
  have invt: "rbf_inv ?t" unfolding rbf_inv_def ot by (auto simp: a)
  have "rbf_set ?s = rbf_set ?t" unfolding rbf_set_def os ot by auto
  then show ?thesis using rbf_eq_iff [OF invs invt] by blast
qed

text \<open>C20: Enumeration. \<open>get_all\<close> lists every member once, \<open>get_all_less_than\<close> exactly the members
  below the bound, the iterator yields the same list as \<open>get_all\<close>, and \<open>min\<close> is the least
  member.\<close>

theorem rbf_enumeration:
  assumes "rbf_inv s"
  shows "distinct (get_all s) \<and> set (get_all s) = rbf_set s \<and>
    get_all_less_than m s = filter (\<lambda>k. k < m) (get_all s) \<and> collect_ones s (iter_ones s) = get_all s \<and>
    rbf_min s = (if rbf_set s = {} then None else Some (Min (rbf_set s)))"
  using get_all_ok [OF assms] rbf_min_ok [OF assms]
  by (simp add: get_all_less_than_eq collect_ones_eq iter_rest_def iter_ones_def get_all_def)

theorem rbf_enumeration_witness:
  "\<exists>s. rbf_new 4 = Some s \<and> rbf_min s = None \<and> collect_ones s (iter_ones s) = get_all s"
proof -
  have "(4 :: nat) \<in> (\<lambda>i. 2 ^ i) ` {..<64}" by (rule image_eqI [of _ _ 2]) simp_all
  then obtain s where s: "rbf_new 4 = Some s" by (simp add: rbf_new_def assert_that_def)
  with rbf_enumeration [OF rbf_new_ok(1) [OF s]] rbf_new_ok(2) [OF s] show ?thesis by auto
qed

text \<open>C21: What \<open>get_prior\<close> returns: the greatest positive member below the bound if there is one.
  The member zero is only found when the search starts at it, so it is missed for every bound
  above one.\<close>

theorem get_prior_result:
  assumes "rbf_inv s" and "0 < m"
  shows "get_prior m s =
    (if {k \<in> rbf_set s. 0 < k \<and> k < m} \<noteq> {} then Some (Max {k \<in> rbf_set s. 0 < k \<and> k < m})
     else if m = 1 \<and> 0 \<in> rbf_set s then Some 0 else None)"
proof (cases "rbf_set s = {}")
  case True
  then show ?thesis using rbf_min_ok [OF assms(1)] by (simp add: get_prior_def)
next
  case False
  let ?S = "\<lambda>n. {k \<in> rbf_set s. 0 < k \<and> k < n}"
  have fin: "finite (?S m)" using rbf_set_finite_card(1) [OF assms(1)] by simp
  have gp: "get_prior m s = (if m - 1 \<in> rbf_set s then Some (m - 1)
      else if ?S (m - 1) = {} then None else Some (Max (?S (m - 1))))"
    by (simp only: get_prior_def rbf_min_ok [OF assms(1)] False if_False option.case
        get_prior_loop_ok [OF assms(1) False])
  show ?thesis
  proof (cases "m - 1 \<in> rbf_set s")
    case True
    show ?thesis
    proof (cases "m = 1")
      case m1: False
      then have "m - 1 \<in> ?S m" "Max (?S m) = m - 1" using True assms(2) fin by (auto intro!: Max_eqI)
      then show ?thesis using gp True by auto
    qed (use gp True in auto)
  next
    case no: False
    have S: "?S m = ?S (m - 1)"
    proof -
      have "k < m \<longleftrightarrow> k < m - 1" if "k \<in> rbf_set s" for k
        using that no assms(2) by (metis Suc_diff_1 less_SucE less_SucI)
      then show ?thesis by blast
    qed
    have "\<not> (m = 1 \<and> 0 \<in> rbf_set s)" using no by auto
    then show ?thesis unfolding gp S using no by (simp only: if_False not_not if_not_P)  (metis (full_types))
  qed
qed

theorem get_prior_result_witness:
  "get_prior 5 \<lparr>max_width = 4, rb_min = 3, max_exclusive = 4, rb_bits = [False, False, False, True], rb_count = 1, excess = []\<rparr>
     = Some 3"
proof -
  let ?s = "\<lparr>max_width = 4, rb_min = 3, max_exclusive = 4, rb_bits = [False, False, False, True], rb_count = 1, excess = []\<rparr>"
  have os: "ones ?s = {3}" by (auto simp: ones_def contains_assume_in_range_def get_address_def)
  have a: "a < 4 \<longleftrightarrow> a \<in> {0, 1, 2, 3}" for a :: nat by auto
  have inv: "rbf_inv ?s" unfolding rbf_inv_def os by (auto simp: a)
  have "{k \<in> rbf_set ?s. 0 < k \<and> k < 5} = {3}" unfolding rbf_set_def os by auto
  then show ?thesis using get_prior_result [OF inv, of 5] by simp
qed

text \<open>The member zero is not seen by \<open>get_prior\<close>.\<close>

lemma get_prior_misses_zero:
  "rbf_insert 0 \<lparr>max_width = 4, rb_min = 0, max_exclusive = 0, rb_bits = [False, False, False, False], rb_count = 0, excess = []\<rparr>
     = Some \<lparr>max_width = 4, rb_min = 0, max_exclusive = 1, rb_bits = [True, False, False, False], rb_count = 1, excess = []\<rparr>
   \<and> rbf_contains \<lparr>max_width = 4, rb_min = 0, max_exclusive = 1, rb_bits = [True, False, False, False], rb_count = 1, excess = []\<rparr> 0
   \<and> get_prior 2 \<lparr>max_width = 4, rb_min = 0, max_exclusive = 1, rb_bits = [True, False, False, False], rb_count = 1, excess = []\<rparr> = None"
  by (simp add: rbf_insert_def set_bit_for_def all_items_in_excess_def get_address_def add64_def rbf_contains_def
      contains_assume_in_range_def get_prior_def rbf_min_def rbf_is_empty_def rbf_len_def get_prior_loop.simps Let_def)


end
