(* ===== verification/Fork_Choice.thy ===== *)
theory Fork_Choice
  imports Prelude "HOL-Library.Product_Lexorder"
begin

text \<open>
  The fork choice of the validator, \<^verbatim>\<open>core/src/consensus/heaviest_subtree_fork_choice.rs\<close> with
  \<^verbatim>\<open>core/src/consensus/tree_diff.rs\<close>: the tree of blocks, the stake that voted for each subtree,
  and the incrementally maintained best (heaviest) and deepest block below every block.

  A block is named by its slot and its hash, ordered lexicographically; hashes are any linearly
  ordered type. Hash maps are kept as lists of pairs in ascending order of the keys. Stakes are
  \<open>u64\<close> values with checked sums. What the epoch schedule and the epoch stakes say, external to this
  module, is the function \<open>stake_of\<close> from a slot and a vote account to a stake. The time of the last
  root change, which is only printed, is left out.
\<close>

section \<open>Data\<close>

type_synonym slot = nat
type_synonym 'h slot_hash_key = "slot \<times> 'h"

datatype update_label = L_Aggregate | L_Add | L_MarkValid slot | L_MarkInvalid slot | L_Subtract

fun label_rank :: "update_label \<Rightarrow> nat \<times> slot" where
  "label_rank L_Aggregate = (0, 0)"
| "label_rank L_Add = (1, 0)"
| "label_rank (L_MarkValid s) = (2, s)"
| "label_rank (L_MarkInvalid s) = (3, s)"
| "label_rank L_Subtract = (4, 0)"

lemma label_rank_inj: "label_rank a = label_rank b \<longleftrightarrow> a = b"
  by (cases a; cases b) auto

text \<open>The derived order of \<open>UpdateLabel\<close>: by constructor, then by slot.\<close>

instantiation update_label :: linorder
begin

definition less_eq_update_label :: "update_label \<Rightarrow> update_label \<Rightarrow> bool" where
  "less_eq_update_label a b \<longleftrightarrow> label_rank a \<le> label_rank b"

definition less_update_label :: "update_label \<Rightarrow> update_label \<Rightarrow> bool" where
  "less_update_label a b \<longleftrightarrow> label_rank a < label_rank b"

instance
  by intro_classes (unfold less_eq_update_label_def less_update_label_def,
    auto simp: less_le_not_le simp flip: label_rank_inj)

end

datatype update_operation =
    Op_Add nat
  | Op_MarkValid slot
  | Op_MarkInvalid slot
  | Op_Subtract nat
  | Op_Aggregate

type_synonym 'h update_operations = "('h slot_hash_key \<times> update_label, update_operation) btree_map"

fun update_stake :: "nat \<Rightarrow> update_operation \<Rightarrow> update_operation option" where
  "update_stake new_stake Op_Aggregate = None"
| "update_stake new_stake (Op_Add stake) = map_option Op_Add (add64 stake new_stake)"
| "update_stake new_stake (Op_MarkValid _) = None"
| "update_stake new_stake (Op_MarkInvalid _) = None"
| "update_stake new_stake (Op_Subtract stake) = map_option Op_Subtract (add64 stake new_stake)"

record 'h fork_info =
  stake_voted_at :: nat
  stake_voted_subtree :: nat
  height :: nat
  best_slot :: "'h slot_hash_key"
  deepest_slot :: "'h slot_hash_key"
  parent :: "'h slot_hash_key option"
  children :: "'h slot_hash_key list"
  latest_invalid_ancestor :: "slot option"
  is_duplicate_confirmed :: bool

definition is_unconfirmed_duplicate :: "slot \<Rightarrow> 'h fork_info \<Rightarrow> bool" where
  "is_unconfirmed_duplicate my_slot i =
     (case latest_invalid_ancestor i of None \<Rightarrow> False | Some ancestor \<Rightarrow> ancestor = my_slot)"

definition is_candidate :: "'h fork_info \<Rightarrow> bool" where
  "is_candidate i \<longleftrightarrow> latest_invalid_ancestor i = None"

definition set_duplicate_confirmed :: "'h fork_info \<Rightarrow> 'h fork_info" where
  "set_duplicate_confirmed i = i\<lparr>is_duplicate_confirmed := True, latest_invalid_ancestor := None\<rparr>"

definition update_with_newly_valid_ancestor :: "slot \<Rightarrow> 'h fork_info \<Rightarrow> 'h fork_info" where
  "update_with_newly_valid_ancestor newly_valid_ancestor i =
     (case latest_invalid_ancestor i of
        None \<Rightarrow> i
      | Some a \<Rightarrow> if a \<le> newly_valid_ancestor then i\<lparr>latest_invalid_ancestor := None\<rparr> else i)"

definition update_with_newly_invalid_ancestor :: "slot \<Rightarrow> 'h fork_info \<Rightarrow> 'h fork_info option" where
  "update_with_newly_invalid_ancestor newly_invalid_ancestor i = do {
     assert_that (\<not> is_duplicate_confirmed i);
     Some (if (case latest_invalid_ancestor i of None \<Rightarrow> True | Some a \<Rightarrow> newly_invalid_ancestor > a)
           then i\<lparr>latest_invalid_ancestor := Some newly_invalid_ancestor\<rparr> else i)
   }"

type_synonym 'h fork_infos = "('h slot_hash_key, 'h fork_info) btree_map"

record ('h, 'p) fork_choice =
  fork_infos :: "'h fork_infos"
  latest_votes :: "('p, 'h slot_hash_key) btree_map"
  tree_root :: "'h slot_hash_key"

section \<open>Queries\<close>

definition contains_block :: "('h, 'p) fork_choice \<Rightarrow> 'h slot_hash_key \<Rightarrow> bool" where
  "contains_block self key \<longleftrightarrow> btm_get key (fork_infos self) \<noteq> None"

definition fc_best_slot :: "('h, 'p) fork_choice \<Rightarrow> 'h slot_hash_key \<Rightarrow> 'h slot_hash_key option" where
  "fc_best_slot self key = map_option best_slot (btm_get key (fork_infos self))"

definition fc_deepest_slot :: "('h, 'p) fork_choice \<Rightarrow> 'h slot_hash_key \<Rightarrow> 'h slot_hash_key option" where
  "fc_deepest_slot self key = map_option deepest_slot (btm_get key (fork_infos self))"

definition best_overall_slot :: "('h, 'p) fork_choice \<Rightarrow> 'h slot_hash_key option" where
  "best_overall_slot self = fc_best_slot self (tree_root self)"

definition deepest_overall_slot :: "('h, 'p) fork_choice \<Rightarrow> 'h slot_hash_key option" where
  "deepest_overall_slot self = fc_deepest_slot self (tree_root self)"

definition fc_stake_voted_subtree :: "'h fork_infos \<Rightarrow> 'h slot_hash_key \<Rightarrow> nat option" where
  "fc_stake_voted_subtree infos key = map_option stake_voted_subtree (btm_get key infos)"

definition fc_stake_voted_at :: "'h fork_infos \<Rightarrow> 'h slot_hash_key \<Rightarrow> nat option" where
  "fc_stake_voted_at infos key = map_option stake_voted_at (btm_get key infos)"

definition fc_height :: "'h fork_infos \<Rightarrow> 'h slot_hash_key \<Rightarrow> nat option" where
  "fc_height infos key = map_option height (btm_get key infos)"

definition fc_parent :: "'h fork_infos \<Rightarrow> 'h slot_hash_key \<Rightarrow> 'h slot_hash_key option" where
  "fc_parent infos key = (case btm_get key infos of None \<Rightarrow> None | Some i \<Rightarrow> parent i)"

definition fc_children :: "'h fork_infos \<Rightarrow> 'h slot_hash_key \<Rightarrow> 'h slot_hash_key list option" where
  "fc_children infos key = map_option children (btm_get key infos)"

definition fc_latest_invalid_ancestor :: "'h fork_infos \<Rightarrow> 'h slot_hash_key \<Rightarrow> slot option" where
  "fc_latest_invalid_ancestor infos key =
     (case btm_get key infos of None \<Rightarrow> None | Some i \<Rightarrow> latest_invalid_ancestor i)"

definition fc_is_duplicate_confirmed :: "'h fork_infos \<Rightarrow> 'h slot_hash_key \<Rightarrow> bool option" where
  "fc_is_duplicate_confirmed infos key = map_option is_duplicate_confirmed (btm_get key infos)"

definition fc_is_unconfirmed_duplicate :: "'h fork_infos \<Rightarrow> 'h slot_hash_key \<Rightarrow> bool option" where
  "fc_is_unconfirmed_duplicate infos key = map_option (is_unconfirmed_duplicate (fst key)) (btm_get key infos)"

definition fc_is_candidate :: "'h fork_infos \<Rightarrow> 'h slot_hash_key \<Rightarrow> bool option" where
  "fc_is_candidate infos key = map_option is_candidate (btm_get key infos)"

datatype ordering = Less | Equal | Greater

definition cmp :: "'a::linorder \<Rightarrow> 'a \<Rightarrow> ordering" where
  "cmp a b = (if a < b then Less else if a = b then Equal else Greater)"

fun reverse_ordering :: "ordering \<Rightarrow> ordering" where
  "reverse_ordering Less = Greater"
| "reverse_ordering Equal = Equal"
| "reverse_ordering Greater = Less"

definition max_by_weight ::
  "('h::linorder, 'p) fork_choice \<Rightarrow> 'h slot_hash_key \<Rightarrow> 'h slot_hash_key \<Rightarrow> ordering option" where
  "max_by_weight self slot1 slot2 = do {
     weight1 \<leftarrow> fc_stake_voted_subtree (fork_infos self) slot1;
     weight2 \<leftarrow> fc_stake_voted_subtree (fork_infos self) slot2;
     Some (if weight1 = weight2 then reverse_ordering (cmp slot1 slot2) else cmp weight1 weight2)
   }"

text \<open>The loop over the siblings in \<open>is_best_child\<close> and \<open>is_deepest_child\<close>, with its early return.\<close>

fun all_children :: "('k \<Rightarrow> bool option) \<Rightarrow> 'k list \<Rightarrow> bool option" where
  "all_children f [] = Some True"
| "all_children f (c # cs) = do {
     b \<leftarrow> f c;
     (if b then all_children f cs else Some False)
   }"

definition is_best_child :: "'h::linorder fork_infos \<Rightarrow> 'h slot_hash_key \<Rightarrow> bool option" where
  "is_best_child infos maybe_best_child = do {
     maybe_best_child_weight \<leftarrow> fc_stake_voted_subtree infos maybe_best_child;
     (case fc_parent infos maybe_best_child of
        None \<Rightarrow> Some True
      | Some p \<Rightarrow> do {
          cs \<leftarrow> fc_children infos p;
          all_children (\<lambda>child. do {
            child_weight \<leftarrow> fc_stake_voted_subtree infos child;
            candidate \<leftarrow> fc_is_candidate infos child;
            Some (\<not> candidate \<or>
              \<not> (child_weight > maybe_best_child_weight \<or>
                 maybe_best_child_weight = child_weight \<and> child < maybe_best_child))
          }) cs
        })
   }"

definition is_deepest_child :: "'h::linorder fork_infos \<Rightarrow> 'h slot_hash_key \<Rightarrow> bool option" where
  "is_deepest_child infos maybe_deepest_child = do {
     maybe_deepest_child_weight \<leftarrow> fc_stake_voted_subtree infos maybe_deepest_child;
     maybe_deepest_child_height \<leftarrow> fc_height infos maybe_deepest_child;
     (case fc_parent infos maybe_deepest_child of
        None \<Rightarrow> Some True
      | Some p \<Rightarrow> do {
          cs \<leftarrow> fc_children infos p;
          all_children (\<lambda>child. do {
            child_height \<leftarrow> fc_height infos child;
            child_weight \<leftarrow> fc_stake_voted_subtree infos child;
            Some (case (cmp child_height maybe_deepest_child_height, cmp child_weight maybe_deepest_child_weight,
                        cmp child maybe_deepest_child) of
                    (Greater, _, _) \<Rightarrow> False
                  | (Equal, Greater, _) \<Rightarrow> False
                  | (Equal, Equal, Less) \<Rightarrow> False
                  | _ \<Rightarrow> True)
          }) cs
        })
   }"

section \<open>Walking the tree\<close>

text \<open>
  \<open>AncestorIterator\<close> steps from a block to its recorded parent; running it to the end gives the
  ancestors, nearest first. On a cyclic parent relation the loops below do not end, which is the
  value \<^const>\<open>None\<close>.
\<close>

definition ancestor_next :: "'h fork_infos \<Rightarrow> 'h slot_hash_key \<Rightarrow> 'h slot_hash_key option" where
  "ancestor_next infos current_slot_hash_key =
     (case btm_get current_slot_hash_key infos of None \<Rightarrow> None | Some i \<Rightarrow> parent i)"

partial_function (option) ancestor_iterator ::
  "'h fork_infos \<Rightarrow> 'h slot_hash_key \<Rightarrow> 'h slot_hash_key list option" where
  "ancestor_iterator infos key =
     (case ancestor_next infos key of
        None \<Rightarrow> Some []
      | Some p \<Rightarrow> do { ps \<leftarrow> ancestor_iterator infos p; Some (p # ps) })"

partial_function (option) any_ancestor ::
  "'h fork_infos \<Rightarrow> ('h slot_hash_key \<Rightarrow> bool) \<Rightarrow> 'h slot_hash_key \<Rightarrow> bool option" where
  "any_ancestor infos P key =
     (case ancestor_next infos key of
        None \<Rightarrow> Some False
      | Some p \<Rightarrow> if P p then Some True else any_ancestor infos P p)"

definition is_strict_ancestor ::
  "('h, 'p) fork_choice \<Rightarrow> 'h slot_hash_key \<Rightarrow> 'h slot_hash_key \<Rightarrow> bool option" where
  "is_strict_ancestor self maybe_ancestor_key node_key =
     (if maybe_ancestor_key = node_key then Some False
      else if fst maybe_ancestor_key > fst node_key then Some False
      else any_ancestor (fork_infos self)
             (\<lambda>(s, h). s = fst maybe_ancestor_key \<and> h = snd maybe_ancestor_key) node_key)"

text \<open>
  \<open>subtree_diff\<close>: the blocks reachable from \<open>root1\<close> and not through \<open>root2\<close>. The stack
  \<open>pending_keys\<close> has its top at the head of the list; the resulting set is listed in ascending order.
\<close>

partial_function (option) subtree_diff_loop ::
  "'h::linorder fork_infos \<Rightarrow> 'h slot_hash_key \<Rightarrow> 'h slot_hash_key list \<Rightarrow> 'h slot_hash_key list \<Rightarrow>
    'h slot_hash_key list option" where
  "subtree_diff_loop infos root2 pending_keys reachable_set =
     (case pending_keys of
        [] \<Rightarrow> Some reachable_set
      | current_key # rest \<Rightarrow>
          if current_key = root2 then subtree_diff_loop infos root2 rest reachable_set
          else do {
            cs \<leftarrow> fc_children infos current_key;
            subtree_diff_loop infos root2 (rev cs @ rest) (insort_insert current_key reachable_set)
          })"

definition subtree_diff ::
  "'h::linorder fork_infos \<Rightarrow> 'h slot_hash_key \<Rightarrow> 'h slot_hash_key \<Rightarrow> 'h slot_hash_key list option" where
  "subtree_diff infos root1 root2 =
     (if btm_get root1 infos = None then Some [] else subtree_diff_loop infos root2 [root1] [])"

section \<open>Adding a block\<close>

partial_function (option) propagate_best ::
  "'h::linorder slot_hash_key \<Rightarrow> 'h slot_hash_key \<Rightarrow> 'h slot_hash_key option \<Rightarrow> 'h fork_infos \<Rightarrow>
    'h fork_infos option" where
  "propagate_best slot_hash_key parent_best ancestor infos =
     (case ancestor of
        None \<Rightarrow> Some infos
      | Some a \<Rightarrow> do {
          i \<leftarrow> btm_get a infos;
          if best_slot i = parent_best
          then propagate_best slot_hash_key parent_best (parent i)
                 (btm_put a (i\<lparr>best_slot := slot_hash_key\<rparr>) infos)
          else Some infos
        })"

partial_function (option) propagate_deepest ::
  "'h::linorder slot_hash_key \<Rightarrow> 'h slot_hash_key option \<Rightarrow> 'h slot_hash_key \<Rightarrow> nat \<Rightarrow> 'h fork_infos \<Rightarrow>
    'h fork_infos option" where
  "propagate_deepest slot_hash_key ancestor current_child current_height infos =
     (case ancestor of
        None \<Rightarrow> Some infos
      | Some a \<Rightarrow> do {
          deepest \<leftarrow> is_deepest_child infos current_child;
          if \<not> deepest then Some infos
          else do {
            i \<leftarrow> btm_get a infos;
            propagate_deepest slot_hash_key (parent i) a (current_height + 1)
              (btm_put a (i\<lparr>height := current_height + 1, deepest_slot := slot_hash_key\<rparr>) infos)
          }
        })"

definition propagate_new_leaf ::
  "'h::linorder slot_hash_key \<Rightarrow> 'h slot_hash_key \<Rightarrow> 'h fork_infos \<Rightarrow> 'h fork_infos option" where
  "propagate_new_leaf slot_hash_key parent_slot_hash_key infos = do {
     parent_info \<leftarrow> btm_get parent_slot_hash_key infos;
     best \<leftarrow> is_best_child infos slot_hash_key;
     infos' \<leftarrow> (if best
                then propagate_best slot_hash_key (best_slot parent_info) (Some parent_slot_hash_key) infos
                else Some infos);
     propagate_deepest slot_hash_key (Some parent_slot_hash_key) slot_hash_key 1 infos'
   }"

definition new_leaf_info ::
  "'h slot_hash_key \<Rightarrow> 'h slot_hash_key option \<Rightarrow> slot option \<Rightarrow> 'h fork_info" where
  "new_leaf_info slot_hash_key p parent_latest_invalid_ancestor =
     \<lparr>stake_voted_at = 0, stake_voted_subtree = 0, height = 1, best_slot = slot_hash_key,
      deepest_slot = slot_hash_key, parent = p, children = [],
      latest_invalid_ancestor = parent_latest_invalid_ancestor, is_duplicate_confirmed = (p = None)\<rparr>"

definition add_new_leaf_slot ::
  "'h::linorder slot_hash_key \<Rightarrow> 'h slot_hash_key option \<Rightarrow> ('h, 'p) fork_choice \<Rightarrow>
    ('h, 'p) fork_choice option" where
  "add_new_leaf_slot slot_hash_key p self =
     (if btm_get slot_hash_key (fork_infos self) \<noteq> None then Some self
      else let
        parent_latest_invalid_ancestor =
          (case p of None \<Rightarrow> None | Some k \<Rightarrow> fc_latest_invalid_ancestor (fork_infos self) k);
        infos = btm_put slot_hash_key (new_leaf_info slot_hash_key p parent_latest_invalid_ancestor)
                  (fork_infos self)
      in case p of
           None \<Rightarrow> Some (self\<lparr>fork_infos := infos\<rparr>)
         | Some k \<Rightarrow> do {
             i \<leftarrow> btm_get k infos;
             infos' \<leftarrow> propagate_new_leaf slot_hash_key k
               (btm_put k (i\<lparr>children := insort_insert slot_hash_key (children i)\<rparr>) infos);
             Some (self\<lparr>fork_infos := infos'\<rparr>)
           })"

definition fork_choice_new :: "'h::linorder slot_hash_key \<Rightarrow> ('h, 'p) fork_choice option" where
  "fork_choice_new root =
     add_new_leaf_slot root None \<lparr>fork_infos = [], latest_votes = [], tree_root = root\<rparr>"

text \<open>
  A frozen bank, as far as the fork choice reads it: whether it is frozen, its slot and hash, and
  those of its parent. The default hash is a parameter.
\<close>

record 'h frozen_bank =
  bank_is_frozen :: bool
  bank_slot :: slot
  bank_hash :: 'h
  bank_parent_slot :: slot
  bank_parent_hash :: 'h

definition add_frozen_bank ::
  "'h::linorder \<Rightarrow> slot \<Rightarrow> 'h frozen_bank \<Rightarrow> slot \<times> ('h, 'p) fork_choice \<Rightarrow>
    (slot \<times> ('h, 'p) fork_choice) option" where
  "add_frozen_bank default_hash root_slot bank st = do {
     assert_that (bank_is_frozen bank);
     (if bank_slot bank > root_slot then do {
        assert_that (bank_slot bank > fst st);
        assert_that (bank_hash bank \<noteq> default_hash);
        assert_that (bank_parent_hash bank \<noteq> default_hash);
        fc \<leftarrow> add_new_leaf_slot (bank_slot bank, bank_hash bank)
               (Some (bank_parent_slot bank, bank_parent_hash bank)) (snd st);
        Some (bank_slot bank, fc)
      } else Some st)
   }"

definition new_from_frozen_banks ::
  "'h::linorder \<Rightarrow> 'h slot_hash_key \<Rightarrow> 'h frozen_bank list \<Rightarrow> ('h, 'p) fork_choice option" where
  "new_from_frozen_banks default_hash root frozen_banks = do {
     fc \<leftarrow> fork_choice_new root;
     st \<leftarrow> run_list (add_frozen_bank default_hash (fst root)) frozen_banks (fst root, fc);
     Some (snd st)
   }"

section \<open>Updates\<close>

definition do_insert_aggregate_operation ::
  "update_operation option \<Rightarrow> 'h::linorder slot_hash_key \<Rightarrow> 'h update_operations \<Rightarrow>
    bool \<times> 'h update_operations" where
  "do_insert_aggregate_operation modify_fork_validity slot_hash_key ops =
     (let aggregate_label = (slot_hash_key, L_Aggregate) in
      if btm_get aggregate_label ops \<noteq> None then (False, ops)
      else (True, btm_put aggregate_label Op_Aggregate
        (case modify_fork_validity of
           Some (Op_MarkValid s) \<Rightarrow> btm_put (slot_hash_key, L_MarkValid s) (Op_MarkValid s) ops
         | Some (Op_MarkInvalid s) \<Rightarrow> btm_put (slot_hash_key, L_MarkInvalid s) (Op_MarkInvalid s) ops
         | _ \<Rightarrow> ops)))"

partial_function (option) do_insert_aggregate_operations_across_ancestors ::
  "'h::linorder fork_infos \<Rightarrow> update_operation option \<Rightarrow> 'h slot_hash_key \<Rightarrow> 'h update_operations \<Rightarrow>
    'h update_operations option" where
  "do_insert_aggregate_operations_across_ancestors infos modify_fork_validity key ops =
     (case ancestor_next infos key of
        None \<Rightarrow> Some ops
      | Some p \<Rightarrow>
          (case do_insert_aggregate_operation modify_fork_validity p ops of
             (inserted, ops') \<Rightarrow>
               if inserted
               then do_insert_aggregate_operations_across_ancestors infos modify_fork_validity p ops'
               else Some ops'))"

definition insert_aggregate_operations ::
  "'h::linorder fork_infos \<Rightarrow> 'h slot_hash_key \<Rightarrow> 'h update_operations \<Rightarrow> 'h update_operations option" where
  "insert_aggregate_operations infos key ops =
     do_insert_aggregate_operations_across_ancestors infos None key ops"

text \<open>The local variables of \<open>aggregate_slot\<close>.\<close>

record 'h aggregate_vars =
  av_stake_voted_subtree :: nat
  av_is_duplicate_confirmed :: bool
  av_best_child_stake :: nat
  av_best_child_key :: "'h slot_hash_key"
  av_best_slot :: "'h slot_hash_key"
  av_deepest_child_height :: nat
  av_deepest_child_stake :: nat
  av_deepest_child_key :: "'h slot_hash_key"
  av_deepest_slot :: "'h slot_hash_key"

definition offer_best ::
  "'h::linorder slot_hash_key \<Rightarrow> 'h slot_hash_key \<Rightarrow> 'h fork_info \<Rightarrow> 'h aggregate_vars \<Rightarrow> 'h aggregate_vars" where
  "offer_best slot_hash_key child_key child v =
     (if is_candidate child \<and>
         (av_best_child_key v = slot_hash_key \<or>
          stake_voted_subtree child > av_best_child_stake v \<or>
          stake_voted_subtree child = av_best_child_stake v \<and> child_key < av_best_child_key v)
      then v\<lparr>av_best_child_stake := stake_voted_subtree child, av_best_child_key := child_key,
             av_best_slot := best_slot child\<rparr>
      else v)"

fun replaces_deepest :: "bool \<Rightarrow> ordering \<Rightarrow> ordering \<Rightarrow> ordering \<Rightarrow> bool" where
  "replaces_deepest True _ _ _ = True"
| "replaces_deepest _ Greater _ _ = True"
| "replaces_deepest _ Equal Greater _ = True"
| "replaces_deepest _ Equal Equal Less = True"
| "replaces_deepest _ _ _ _ = False"

definition offer_deepest ::
  "'h::linorder slot_hash_key \<Rightarrow> 'h slot_hash_key \<Rightarrow> 'h fork_info \<Rightarrow> 'h aggregate_vars \<Rightarrow> 'h aggregate_vars" where
  "offer_deepest slot_hash_key child_key child v =
     (if replaces_deepest (av_deepest_child_key v = slot_hash_key)
           (cmp (height child) (av_deepest_child_height v))
           (cmp (stake_voted_subtree child) (av_deepest_child_stake v))
           (cmp child_key (av_deepest_child_key v))
      then v\<lparr>av_deepest_child_height := height child, av_deepest_child_stake := stake_voted_subtree child,
             av_deepest_child_key := child_key, av_deepest_slot := deepest_slot child\<rparr>
      else v)"

definition aggregate_child ::
  "'h::linorder fork_infos \<Rightarrow> 'h slot_hash_key \<Rightarrow> 'h slot_hash_key \<Rightarrow> 'h aggregate_vars \<Rightarrow>
    'h aggregate_vars option" where
  "aggregate_child infos slot_hash_key child_key v = do {
     child \<leftarrow> btm_get child_key infos;
     stake \<leftarrow> add64 (av_stake_voted_subtree v) (stake_voted_subtree child);
     Some (offer_deepest slot_hash_key child_key child (offer_best slot_hash_key child_key child
       (v\<lparr>av_is_duplicate_confirmed := av_is_duplicate_confirmed v \<or> is_duplicate_confirmed child,
          av_stake_voted_subtree := stake\<rparr>)))
   }"

definition aggregate_init :: "'h slot_hash_key \<Rightarrow> 'h fork_info \<Rightarrow> 'h aggregate_vars" where
  "aggregate_init slot_hash_key i =
     \<lparr>av_stake_voted_subtree = stake_voted_at i, av_is_duplicate_confirmed = False,
      av_best_child_stake = 0, av_best_child_key = slot_hash_key, av_best_slot = slot_hash_key,
      av_deepest_child_height = 0, av_deepest_child_stake = 0,
      av_deepest_child_key = slot_hash_key, av_deepest_slot = slot_hash_key\<rparr>"

definition aggregate_slot :: "'h::linorder slot_hash_key \<Rightarrow> 'h fork_infos \<Rightarrow> 'h fork_infos option" where
  "aggregate_slot slot_hash_key infos =
     (case btm_get slot_hash_key infos of
        None \<Rightarrow> Some infos
      | Some i \<Rightarrow> do {
          v \<leftarrow> run_list (aggregate_child infos slot_hash_key) (children i) (aggregate_init slot_hash_key i);
          let i = (if av_is_duplicate_confirmed v then set_duplicate_confirmed i else i);
          Some (btm_put slot_hash_key
            (i\<lparr>stake_voted_subtree := av_stake_voted_subtree v, height := av_deepest_child_height v + 1,
               best_slot := av_best_slot v, deepest_slot := av_deepest_slot v\<rparr>) infos)
        })"

definition mark_fork_valid :: "'h::linorder slot_hash_key \<Rightarrow> slot \<Rightarrow> 'h fork_infos \<Rightarrow> 'h fork_infos" where
  "mark_fork_valid fork_to_modify_key valid_slot infos =
     (case btm_get fork_to_modify_key infos of
        None \<Rightarrow> infos
      | Some i \<Rightarrow>
          let i = update_with_newly_valid_ancestor valid_slot i
          in btm_put fork_to_modify_key
               (if fst fork_to_modify_key = valid_slot then i\<lparr>is_duplicate_confirmed := True\<rparr> else i) infos)"

definition mark_fork_invalid ::
  "'h::linorder slot_hash_key \<Rightarrow> slot \<Rightarrow> 'h fork_infos \<Rightarrow> 'h fork_infos option" where
  "mark_fork_invalid fork_to_modify_key invalid_slot infos =
     (case btm_get fork_to_modify_key infos of
        None \<Rightarrow> Some infos
      | Some i \<Rightarrow> do {
          i' \<leftarrow> update_with_newly_invalid_ancestor invalid_slot i;
          Some (btm_put fork_to_modify_key i' infos)
        })"

definition add_slot_stake :: "'h::linorder slot_hash_key \<Rightarrow> nat \<Rightarrow> 'h fork_infos \<Rightarrow> 'h fork_infos option" where
  "add_slot_stake slot_hash_key stake infos =
     (case btm_get slot_hash_key infos of
        None \<Rightarrow> Some infos
      | Some i \<Rightarrow> do {
          a \<leftarrow> add64 (stake_voted_at i) stake;
          t \<leftarrow> add64 (stake_voted_subtree i) stake;
          Some (btm_put slot_hash_key (i\<lparr>stake_voted_at := a, stake_voted_subtree := t\<rparr>) infos)
        })"

definition subtract_slot_stake ::
  "'h::linorder slot_hash_key \<Rightarrow> nat \<Rightarrow> 'h fork_infos \<Rightarrow> 'h fork_infos option" where
  "subtract_slot_stake slot_hash_key stake infos =
     (case btm_get slot_hash_key infos of
        None \<Rightarrow> Some infos
      | Some i \<Rightarrow> do {
          a \<leftarrow> sub64 (stake_voted_at i) stake;
          t \<leftarrow> sub64 (stake_voted_subtree i) stake;
          Some (btm_put slot_hash_key (i\<lparr>stake_voted_at := a, stake_voted_subtree := t\<rparr>) infos)
        })"

fun process_update_operation ::
  "('h::linorder slot_hash_key \<times> update_label) \<times> update_operation \<Rightarrow> 'h fork_infos \<Rightarrow> 'h fork_infos option" where
  "process_update_operation ((key, _), Op_MarkValid valid_slot) infos = Some (mark_fork_valid key valid_slot infos)"
| "process_update_operation ((key, _), Op_MarkInvalid invalid_slot) infos = mark_fork_invalid key invalid_slot infos"
| "process_update_operation ((key, _), Op_Aggregate) infos = aggregate_slot key infos"
| "process_update_operation ((key, _), Op_Add stake) infos = add_slot_stake key stake infos"
| "process_update_operation ((key, _), Op_Subtract stake) infos = subtract_slot_stake key stake infos"

definition process_update_operations ::
  "'h::linorder update_operations \<Rightarrow> ('h, 'p) fork_choice \<Rightarrow> ('h, 'p) fork_choice option" where
  "process_update_operations ops self = do {
     infos \<leftarrow> run_list process_update_operation (rev ops) (fork_infos self);
     Some (self\<lparr>fork_infos := infos\<rparr>)
   }"

text \<open>\<open>entry(key).and_modify(update_stake).or_insert(op)\<close>\<close>

definition upsert_stake ::
  "'h::linorder slot_hash_key \<times> update_label \<Rightarrow> nat \<Rightarrow> update_operation \<Rightarrow> 'h update_operations \<Rightarrow>
    'h update_operations option" where
  "upsert_stake key stake_update op ops =
     (case btm_get key ops of
        None \<Rightarrow> Some (btm_put key op ops)
      | Some old \<Rightarrow> do { new \<leftarrow> update_stake stake_update old; Some (btm_put key new ops) })"

type_synonym ('h, 'p) votes_state =
  "('p, 'h slot_hash_key) btree_map \<times> 'h update_operations \<times> ('p, slot) btree_map"

text \<open>Taking the stake of an account away from the block of its old latest vote.\<close>

definition retract_vote ::
  "(slot \<Rightarrow> 'p \<Rightarrow> nat) \<Rightarrow> 'h::linorder fork_infos \<Rightarrow> 'p \<Rightarrow> 'h slot_hash_key \<Rightarrow> 'h slot_hash_key \<Rightarrow>
    'h update_operations \<Rightarrow> 'h update_operations option" where
  "retract_vote stake_of infos pubkey new_vote old_vote ops = do {
     assert_that (if fst new_vote = fst old_vote then snd new_vote < snd old_vote
                  else fst new_vote > fst old_vote);
     let stake_update = stake_of (fst old_vote) pubkey;
     (if stake_update > 0 then do {
        ops \<leftarrow> upsert_stake (old_vote, L_Subtract) stake_update (Op_Subtract stake_update) ops;
        insert_aggregate_operations infos old_vote ops
      } else Some ops)
   }"

definition generate_for_vote ::
  "(slot \<Rightarrow> 'p \<Rightarrow> nat) \<Rightarrow> 'h::linorder fork_infos \<Rightarrow> slot \<Rightarrow> 'p::linorder \<times> 'h slot_hash_key \<Rightarrow>
    ('h, 'p) votes_state \<Rightarrow> ('h, 'p) votes_state option" where
  "generate_for_vote stake_of infos root_slot pubkey_vote st =
     (case pubkey_vote of (pubkey, new_vote_slot, new_vote_hash) \<Rightarrow>
      case st of (votes, ops, observed) \<Rightarrow>
      if new_vote_slot < root_slot then Some st
      else do {
        unwrap_none (btm_get pubkey observed);
        let observed = btm_put pubkey new_vote_slot observed;
        let old = btm_get pubkey votes;
        (if (case old of
               None \<Rightarrow> False
             | Some (old_slot, old_hash) \<Rightarrow>
                 new_vote_slot < old_slot \<or> new_vote_slot = old_slot \<and> new_vote_hash \<ge> old_hash)
         then Some (votes, ops, observed)
         else do {
           let votes = btm_put pubkey (new_vote_slot, new_vote_hash) votes;
           ops \<leftarrow> (case old of
             None \<Rightarrow> Some ops
           | Some old_vote \<Rightarrow>
               retract_vote stake_of infos pubkey (new_vote_slot, new_vote_hash) old_vote ops);
           let stake_update = stake_of new_vote_slot pubkey;
           ops \<leftarrow> upsert_stake ((new_vote_slot, new_vote_hash), L_Add) stake_update (Op_Add stake_update) ops;
           ops \<leftarrow> insert_aggregate_operations infos (new_vote_slot, new_vote_hash) ops;
           Some (votes, ops, observed)
         })
      })"

definition generate_update_operations ::
  "(slot \<Rightarrow> 'p \<Rightarrow> nat) \<Rightarrow> ('p::linorder \<times> 'h::linorder slot_hash_key) list \<Rightarrow> ('h, 'p) fork_choice \<Rightarrow>
    ('h update_operations \<times> ('h, 'p) fork_choice) option" where
  "generate_update_operations stake_of pubkey_votes self = do {
     st \<leftarrow> run_list (generate_for_vote stake_of (fork_infos self) (fst (tree_root self)))
            pubkey_votes (latest_votes self, [], []);
     (case st of (votes, ops, _) \<Rightarrow> Some (ops, self\<lparr>latest_votes := votes\<rparr>))
   }"

definition add_votes ::
  "(slot \<Rightarrow> 'p \<Rightarrow> nat) \<Rightarrow> ('p::linorder \<times> 'h::linorder slot_hash_key) list \<Rightarrow> ('h, 'p) fork_choice \<Rightarrow>
    ('h slot_hash_key \<times> ('h, 'p) fork_choice) option" where
  "add_votes stake_of pubkey_votes self = do {
     (ops, self) \<leftarrow> generate_update_operations stake_of pubkey_votes self;
     self \<leftarrow> process_update_operations ops self;
     best \<leftarrow> best_overall_slot self;
     Some (best, self)
   }"

section \<open>Validity of forks\<close>

text \<open>\<open>default_key\<close> is \<open>SlotHashKey::default()\<close>, slot 0 with the default hash.\<close>

definition insert_all_aggregates ::
  "update_operation \<Rightarrow> 'h::linorder slot_hash_key list \<Rightarrow> 'h update_operations \<Rightarrow> 'h update_operations" where
  "insert_all_aggregates op keys ops =
     fold (\<lambda>k ops. snd (do_insert_aggregate_operation (Some op) k ops)) keys ops"

definition mark_fork_invalid_candidate ::
  "'h::linorder slot_hash_key \<Rightarrow> 'h slot_hash_key \<Rightarrow> ('h, 'p) fork_choice \<Rightarrow> ('h, 'p) fork_choice option" where
  "mark_fork_invalid_candidate default_key invalid_slot_hash_key self =
     (case btm_get invalid_slot_hash_key (fork_infos self) of
        None \<Rightarrow> Some self
      | Some i \<Rightarrow> do {
          assert_that (\<not> is_duplicate_confirmed i);
          keys \<leftarrow> subtree_diff (fork_infos self) invalid_slot_hash_key default_key;
          ops \<leftarrow> insert_aggregate_operations (fork_infos self) invalid_slot_hash_key
                  (insert_all_aggregates (Op_MarkInvalid (fst invalid_slot_hash_key)) keys []);
          process_update_operations ops self
        })"

definition mark_fork_valid_candidate ::
  "'h::linorder slot_hash_key \<Rightarrow> 'h slot_hash_key \<Rightarrow> ('h, 'p) fork_choice \<Rightarrow>
    ('h slot_hash_key list \<times> ('h, 'p) fork_choice) option" where
  "mark_fork_valid_candidate default_key valid_slot_hash_key self = do {
     ancestors \<leftarrow> ancestor_iterator (fork_infos self) valid_slot_hash_key;
     newly \<leftarrow> run_list (\<lambda>k newly. do {
                confirmed \<leftarrow> fc_is_duplicate_confirmed (fork_infos self) k;
                Some (if confirmed then newly else newly @ [k])
              }) (valid_slot_hash_key # ancestors) [];
     keys \<leftarrow> subtree_diff (fork_infos self) valid_slot_hash_key default_key;
     ops \<leftarrow> insert_aggregate_operations (fork_infos self) valid_slot_hash_key
             (insert_all_aggregates (Op_MarkValid (fst valid_slot_hash_key)) keys []);
     self \<leftarrow> process_update_operations ops self;
     Some (newly, self)
   }"

section \<open>Moving the root, splitting and merging trees\<close>

text \<open>\<open>fork_infos.remove(key).expect(..)\<close>\<close>

definition remove_expect :: "'h slot_hash_key \<Rightarrow> 'h fork_infos \<Rightarrow> 'h fork_infos option" where
  "remove_expect key infos = (case btm_get key infos of None \<Rightarrow> None | Some _ \<Rightarrow> Some (btm_del key infos))"

definition set_tree_root ::
  "'h::linorder slot_hash_key \<Rightarrow> ('h, 'p) fork_choice \<Rightarrow> ('h, 'p) fork_choice option" where
  "set_tree_root new_root self = do {
     remove_set \<leftarrow> subtree_diff (fork_infos self) (tree_root self) new_root;
     infos \<leftarrow> run_list remove_expect remove_set (fork_infos self);
     i \<leftarrow> btm_get new_root infos;
     Some (self\<lparr>fork_infos := btm_put new_root (i\<lparr>parent := None\<rparr>) infos, tree_root := new_root\<rparr>)
   }"

definition add_root_parent ::
  "'h::linorder slot_hash_key \<Rightarrow> ('h, 'p) fork_choice \<Rightarrow> ('h, 'p) fork_choice option" where
  "add_root_parent root_parent self = do {
     assert_that (fst root_parent < fst (tree_root self));
     assert_that (btm_get root_parent (fork_infos self) = None);
     root_info \<leftarrow> btm_get (tree_root self) (fork_infos self);
     let infos = btm_put (tree_root self) (root_info\<lparr>parent := Some root_parent\<rparr>) (fork_infos self);
     let root_parent_info =
       \<lparr>stake_voted_at = 0, stake_voted_subtree = stake_voted_subtree root_info,
        height = height root_info + 1, best_slot = best_slot root_info,
        deepest_slot = deepest_slot root_info, parent = None, children = [tree_root self],
        latest_invalid_ancestor = None, is_duplicate_confirmed = is_duplicate_confirmed root_info\<rparr>;
     Some (self\<lparr>fork_infos := btm_put root_parent root_parent_info infos, tree_root := root_parent\<rparr>)
   }"

text \<open>
  The loop of \<open>split_off\<close> that moves a node and all that is below it to the new tree; the stack
  \<open>to_visit\<close> has its top at the head of the list.
\<close>

partial_function (option) split_loop ::
  "'h::linorder slot_hash_key list \<Rightarrow> 'h fork_infos \<Rightarrow> 'h fork_infos \<Rightarrow> ('h fork_infos \<times> 'h fork_infos) option" where
  "split_loop to_visit infos split =
     (case to_visit of
        [] \<Rightarrow> Some (infos, split)
      | current_node # rest \<Rightarrow> do {
          i \<leftarrow> btm_get current_node infos;
          split_loop (rev (children i) @ rest) (btm_del current_node infos) (btm_put current_node i split)
        })"

definition split_off ::
  "'h::linorder slot_hash_key \<Rightarrow> ('h, 'p) fork_choice \<Rightarrow>
    (('h, 'p) fork_choice \<times> ('h, 'p) fork_choice) option" where
  "split_off slot_hash_key self = do {
     assert_that (tree_root self \<noteq> slot_hash_key);
     split_tree_root \<leftarrow> btm_get slot_hash_key (fork_infos self);
     p \<leftarrow> parent split_tree_root;
     ops \<leftarrow> insert_aggregate_operations (fork_infos self) slot_hash_key [];
     i \<leftarrow> btm_get p (fork_infos self);
     assert_that (slot_hash_key \<in> set (children i));
     let infos = btm_put p (i\<lparr>children := remove1 slot_hash_key (children i)\<rparr>) (fork_infos self);
     self \<leftarrow> process_update_operations ops (self\<lparr>fork_infos := infos\<rparr>);
     (infos, split_infos) \<leftarrow> split_loop [slot_hash_key] (fork_infos self) [];
     i \<leftarrow> btm_get p infos;
     let infos = btm_put p (i\<lparr>children := remove1 slot_hash_key (children i)\<rparr>) infos;
     let split_infos = btm_put slot_hash_key (split_tree_root\<lparr>parent := None\<rparr>) split_infos;
     let split_votes = filter (\<lambda>(_, node). btm_get node split_infos \<noteq> None) (latest_votes self);
     let votes = filter (\<lambda>(_, node). btm_get node infos \<noteq> None) (latest_votes self);
     Some (\<lparr>fork_infos = split_infos, latest_votes = split_votes, tree_root = slot_hash_key\<rparr>,
           self\<lparr>fork_infos := infos, latest_votes := votes\<rparr>)
   }"

definition fork_choice_merge ::
  "(slot \<Rightarrow> 'p \<Rightarrow> nat) \<Rightarrow> ('h::linorder, 'p::linorder) fork_choice \<Rightarrow> 'h slot_hash_key \<Rightarrow>
    ('h, 'p) fork_choice \<Rightarrow> ('h, 'p) fork_choice option" where
  "fork_choice_merge stake_of other merge_leaf self = do {
     assert_that (btm_get merge_leaf (fork_infos self) \<noteq> None);
     let other_slots_nodes = sort_key fst (map (\<lambda>(k, i).
           (k, case parent i of None \<Rightarrow> merge_leaf | Some p \<Rightarrow> p)) (fork_infos other));
     self \<leftarrow> run_list (\<lambda>(k, p). add_new_leaf_slot k (Some p)) other_slots_nodes self;
     (_, self) \<leftarrow> add_votes stake_of (latest_votes other) self;
     Some self
   }"

text \<open>
  The traversal of \<open>purge_prune\<close>. Its state: the tree, the purged slots, the pruned subtrees, and
  whether the new root was met.
\<close>

partial_function (option) purge_prune_loop ::
  "'h::linorder slot_hash_key \<Rightarrow> 'h slot_hash_key list \<Rightarrow> ('h, 'p) fork_choice \<Rightarrow> 'h slot_hash_key list \<Rightarrow>
    ('h, 'p) fork_choice list \<Rightarrow> 'h slot_hash_key option \<Rightarrow>
    (('h, 'p) fork_choice \<times> 'h slot_hash_key list \<times> ('h, 'p) fork_choice list \<times> 'h slot_hash_key option) option" where
  "purge_prune_loop new_root to_visit self purged pruned found =
     (case to_visit of
        [] \<Rightarrow> Some (self, purged, pruned, found)
      | cur_slot # rest \<Rightarrow>
          if cur_slot = new_root then purge_prune_loop new_root rest self purged pruned (Some new_root)
          else if cur_slot < new_root then do {
            cs \<leftarrow> fc_children (fork_infos self) cur_slot;
            purge_prune_loop new_root (rev cs @ rest) self (purged @ [cur_slot]) pruned found
          } else do {
            (subtree, self') \<leftarrow> split_off cur_slot self;
            purge_prune_loop new_root rest self' purged (pruned @ [subtree]) found
          })"

definition purge_prune ::
  "'h::linorder slot_hash_key \<Rightarrow> ('h, 'p) fork_choice \<Rightarrow>
    (('h slot_hash_key list \<times> ('h, 'p) fork_choice list) \<times> ('h, 'p) fork_choice) option" where
  "purge_prune new_root self = do {
     (self, purged, pruned, found) \<leftarrow> purge_prune_loop new_root [tree_root self] self [] [] None;
     infos \<leftarrow> run_list remove_expect purged (fork_infos self);
     (case found of
        None \<Rightarrow> Some ((purged, pruned), self\<lparr>fork_infos := infos\<rparr>)
      | Some root \<Rightarrow> do {
          i \<leftarrow> btm_get root infos;
          Some ((purged, pruned),
            self\<lparr>fork_infos := btm_put root (i\<lparr>parent := None\<rparr>) infos, tree_root := root\<rparr>)
        })
   }"

section \<open>Choosing a fork\<close>

text \<open>
  Of the tower the choice reads the last vote (\<open>last_voted_slot_hash\<close>) and whether that vote is
  stray; the outer option of the result is the panic.
\<close>

definition heaviest_slot_on_same_voted_fork ::
  "'h slot_hash_key option \<Rightarrow> bool \<Rightarrow> ('h, 'p) fork_choice \<Rightarrow> 'h slot_hash_key option option" where
  "heaviest_slot_on_same_voted_fork last_voted_slot_hash is_stray_last_vote self =
     (case last_voted_slot_hash of
        None \<Rightarrow> Some None
      | Some last_vote \<Rightarrow>
          (case fc_is_candidate (fork_infos self) last_vote of
             Some True \<Rightarrow> Some (fc_best_slot self last_vote)
           | Some False \<Rightarrow> Some (fc_deepest_slot self last_vote)
           | None \<Rightarrow> if \<not> is_stray_last_vote then None else Some None))"

text \<open>The banks that are available, by slot, and the hash of a bank are those of \<open>BankForks\<close>.\<close>

definition get_with_checked_hash ::
  "(slot \<Rightarrow> 'b option) \<Rightarrow> ('b \<Rightarrow> 'h) \<Rightarrow> 'h slot_hash_key \<Rightarrow> 'b option option" where
  "get_with_checked_hash get_bank hash_of key =
     (case get_bank (fst key) of
        None \<Rightarrow> Some None
      | Some bank \<Rightarrow> do { assert_that (hash_of bank = snd key); Some (Some bank) })"

definition select_forks ::
  "(slot \<Rightarrow> 'b option) \<Rightarrow> ('b \<Rightarrow> 'h) \<Rightarrow> 'h slot_hash_key option \<Rightarrow> bool \<Rightarrow> ('h, 'p) fork_choice \<Rightarrow>
    ('b \<times> 'b option) option" where
  "select_forks get_bank hash_of last_voted_slot_hash is_stray_last_vote self = do {
     best \<leftarrow> best_overall_slot self;
     maybe_bank \<leftarrow> get_with_checked_hash get_bank hash_of best;
     heaviest_bank \<leftarrow> maybe_bank;
     same_fork \<leftarrow> heaviest_slot_on_same_voted_fork last_voted_slot_hash is_stray_last_vote self;
     Some (heaviest_bank,
       case same_fork of
         None \<Rightarrow> None
       | Some key \<Rightarrow>
           (case get_bank (fst key) of
              None \<Rightarrow> None
            | Some bank \<Rightarrow> if hash_of bank \<noteq> snd key then None else Some bank))
   }"

section \<open>Executing the loops\<close>

lemma bind_case: "Option.bind x f = (case x of None \<Rightarrow> None | Some a \<Rightarrow> f a)"
  by (cases x) simp_all

lemmas loop_code [code] =
  ancestor_iterator.simps [unfolded bind_case]
  any_ancestor.simps [unfolded bind_case]
  subtree_diff_loop.simps [unfolded bind_case]
  propagate_best.simps [unfolded bind_case]
  propagate_deepest.simps [unfolded bind_case]
  do_insert_aggregate_operations_across_ancestors.simps [unfolded bind_case]
  split_loop.simps [unfolded bind_case]
  purge_prune_loop.simps [unfolded bind_case]

end
