(* ===== verification/Fork_Tree.thy ===== *)
theory Fork_Tree
  imports Fork_Choice
begin

text \<open>
  The tree of blocks behind the fork choice, seen through the lookup function of \<open>fork_infos\<close>:
  subtrees, the equations that tie the fields of a block to those of its children (the subtree
  weight, the height, the best and the deepest descendant), and what \<open>aggregate_slot\<close> computes.
\<close>

declare split_paired_All [simp del] split_paired_Ex [simp del]

section \<open>The winner of a strict linear order on a list\<close>

definition strict_linear :: "('a \<Rightarrow> 'a \<Rightarrow> bool) \<Rightarrow> bool" where
  "strict_linear R \<longleftrightarrow> (\<forall>a. \<not> R a a) \<and> (\<forall>a b c. R a b \<longrightarrow> R b c \<longrightarrow> R a c) \<and> (\<forall>a b. a \<noteq> b \<longrightarrow> R a b \<or> R b a)"

fun challenge :: "('a \<Rightarrow> 'a \<Rightarrow> bool) \<Rightarrow> 'a \<Rightarrow> 'a option \<Rightarrow> 'a option" where
  "challenge R c None = Some c"
| "challenge R c (Some b) = (if R c b then Some c else Some b)"

definition champion :: "('a \<Rightarrow> 'a \<Rightarrow> bool) \<Rightarrow> 'a list \<Rightarrow> 'a option" where
  "champion R cs = fold (challenge R) cs None"

lemma champion_Nil [simp]: "champion R [] = None"
  by (simp add: champion_def)

lemma champion_snoc: "champion R (cs @ [c]) = challenge R c (champion R cs)"
  by (simp add: champion_def)

lemma champion_sound:
  assumes "strict_linear R"
  shows "(champion R cs = None \<longleftrightarrow> cs = []) \<and>
    (\<forall>c. champion R cs = Some c \<longrightarrow> c \<in> set cs \<and> (\<forall>d \<in> set cs. d \<noteq> c \<longrightarrow> R c d))"
proof (induction cs rule: rev_induct)
  case Nil
  then show ?case by simp
next
  case (snoc x cs)
  show ?case
  proof (cases "champion R cs")
    case None
    with snoc have "cs = []" by simp
    then show ?thesis by (simp add: champion_def)
  next
    case (Some b)
    with snoc have b: "b \<in> set cs" "\<forall>d \<in> set cs. d \<noteq> b \<longrightarrow> R b d" by blast+
    show ?thesis
    proof (cases "R x b")
      case True
      with assms b have "\<forall>d \<in> set cs. R x d" unfolding strict_linear_def by metis
      with True Some show ?thesis by (simp add: champion_snoc)
    next
      case False
      with assms have "x \<noteq> b \<longrightarrow> R b x" unfolding strict_linear_def by metis
      with False Some b show ?thesis by (simp add: champion_snoc)
    qed
  qed
qed

lemma champion_None [simp]: "strict_linear R \<Longrightarrow> champion R cs = None \<longleftrightarrow> cs = []"
  using champion_sound [of R cs] by simp

lemma champion_iff:
  assumes R: "strict_linear R"
  shows "champion R cs = Some c \<longleftrightarrow> c \<in> set cs \<and> (\<forall>d \<in> set cs. d \<noteq> c \<longrightarrow> R c d)"
proof
  show "champion R cs = Some c \<Longrightarrow> c \<in> set cs \<and> (\<forall>d \<in> set cs. d \<noteq> c \<longrightarrow> R c d)"
    using champion_sound [OF R, of cs] by simp
next
  assume c: "c \<in> set cs \<and> (\<forall>d \<in> set cs. d \<noteq> c \<longrightarrow> R c d)"
  then have "champion R cs \<noteq> None" using R by auto
  then obtain b where b: "champion R cs = Some b" by blast
  then have "b \<in> set cs \<and> (\<forall>d \<in> set cs. d \<noteq> b \<longrightarrow> R b d)"
    using champion_sound [OF R, of cs] by simp
  with c R have "b = c" unfolding strict_linear_def by metis
  with b show "champion R cs = Some c" by simp
qed

lemma champion_member:
  assumes R: "strict_linear R" and c: "c \<in> set cs"
  shows "champion R cs = Some c \<longleftrightarrow> (\<forall>d \<in> set cs. \<not> R d c)"
proof -
  have "\<not> R d c \<longleftrightarrow> d = c \<or> R c d" for d using R unfolding strict_linear_def by metis
  with c show ?thesis by (auto simp: champion_iff [OF R])
qed

lemma champion_in: "strict_linear R \<Longrightarrow> champion R cs = Some c \<Longrightarrow> c \<in> set cs"
  by (simp add: champion_iff)

lemma champion_cong:
  assumes "strict_linear R" "strict_linear S" "set cs = set ds"
    and "\<And>a b. a \<in> set cs \<Longrightarrow> b \<in> set cs \<Longrightarrow> R a b = S a b"
  shows "champion R cs = champion S ds"
proof (cases "champion R cs")
  case None
  with assms show ?thesis by simp
next
  case (Some c)
  with assms(1) have c: "c \<in> set cs" "\<forall>d \<in> set cs. d \<noteq> c \<longrightarrow> R c d" by (auto simp: champion_iff)
  with assms(3,4) have "c \<in> set ds" "\<forall>d \<in> set ds. d \<noteq> c \<longrightarrow> S c d" by auto
  with assms(2) have "champion S ds = Some c" by (simp add: champion_iff)
  with Some show ?thesis by simp
qed

section \<open>Subtrees\<close>

type_synonym 'h fork_map = "'h slot_hash_key \<Rightarrow> 'h fork_info option"

abbreviation fm :: "'h fork_infos \<Rightarrow> 'h fork_map" where
  "fm infos \<equiv> \<lambda>k. btm_get k infos"

lemma fm_put [simp]: "fm (btm_put k i infos) = (fm infos)(k \<mapsto> i)"
  by (auto simp: btm_get_put)

lemma fm_del [simp]: "fm (btm_del k infos) = (fm infos)(k := None)"
  by (auto simp: btm_get_del)

definition info :: "'h fork_map \<Rightarrow> 'h slot_hash_key \<Rightarrow> 'h fork_info" where
  "info F k = the (F k)"

lemma info_Some [simp]: "F k = Some i \<Longrightarrow> info F k = i"
  by (simp add: info_def)

lemma info_upd [simp]: "info (F(k \<mapsto> i)) n = (if n = k then i else info F n)"
  by (simp add: info_def)

definition child_rel :: "'h fork_map \<Rightarrow> ('h slot_hash_key \<times> 'h slot_hash_key) set" where
  "child_rel F = {(p, c). \<exists>i. F p = Some i \<and> c \<in> set (children i)}"

definition subtree :: "'h fork_map \<Rightarrow> 'h slot_hash_key \<Rightarrow> 'h slot_hash_key set" where
  "subtree F k = {n. (k, n) \<in> (child_rel F)\<^sup>*}"

definition tree_ok :: "'h::linorder slot_hash_key \<Rightarrow> 'h fork_map \<Rightarrow> bool" where
  "tree_ok root F \<longleftrightarrow> finite (dom F) \<and> (\<exists>i. F root = Some i \<and> parent i = None) \<and>
     (\<forall>k i. F k = Some i \<longrightarrow> sorted (children i) \<and> distinct (children i)) \<and>
     (\<forall>k i c. F k = Some i \<longrightarrow> c \<in> set (children i) \<longrightarrow>
        fst k < fst c \<and> (\<exists>j. F c = Some j \<and> parent j = Some k)) \<and>
     (\<forall>k i. F k = Some i \<longrightarrow> k \<noteq> root \<longrightarrow>
        (\<exists>p j. parent i = Some p \<and> F p = Some j \<and> k \<in> set (children j)))"

lemma tree_okI:
  assumes "finite (dom F)" "\<exists>i. F root = Some i \<and> parent i = None"
    and "\<And>k i. F k = Some i \<Longrightarrow> sorted (children i) \<and> distinct (children i)"
    and "\<And>k i c. F k = Some i \<Longrightarrow> c \<in> set (children i) \<Longrightarrow>
           fst k < fst c \<and> (\<exists>j. F c = Some j \<and> parent j = Some k)"
    and "\<And>k i. F k = Some i \<Longrightarrow> k \<noteq> root \<Longrightarrow>
           \<exists>p j. parent i = Some p \<and> F p = Some j \<and> k \<in> set (children j)"
  shows "tree_ok root F"
  using assms unfolding tree_ok_def by blast

lemma tree_ok_finite: "tree_ok root F \<Longrightarrow> finite (dom F)"
  by (simp add: tree_ok_def)

lemma tree_ok_root: "tree_ok root F \<Longrightarrow> \<exists>i. F root = Some i \<and> parent i = None"
  by (simp add: tree_ok_def)

lemma tree_ok_children: "tree_ok root F \<Longrightarrow> F k = Some i \<Longrightarrow> sorted (children i) \<and> distinct (children i)"
  by (simp add: tree_ok_def)

lemma tree_ok_child:
  "tree_ok root F \<Longrightarrow> F k = Some i \<Longrightarrow> c \<in> set (children i) \<Longrightarrow>
    fst k < fst c \<and> (\<exists>j. F c = Some j \<and> parent j = Some k)"
  by (simp add: tree_ok_def)

lemma tree_ok_parent:
  assumes "tree_ok root F" "F k = Some i" "parent i = Some p"
  shows "k \<noteq> root \<and> (\<exists>j. F p = Some j \<and> k \<in> set (children j)) \<and> fst p < fst k"
proof -
  from assms(1) have "\<exists>i. F root = Some i \<and> parent i = None" by (rule tree_ok_root)
  with assms have "k \<noteq> root" by auto
  with assms have "\<exists>q j. parent i = Some q \<and> F q = Some j \<and> k \<in> set (children j)"
    unfolding tree_ok_def by blast
  with assms obtain j where j: "F p = Some j" "k \<in> set (children j)" by auto
  with assms have "fst p < fst k" by (blast dest: tree_ok_child)
  with j \<open>k \<noteq> root\<close> show ?thesis by blast
qed

lemma tree_ok_has_parent:
  "tree_ok root F \<Longrightarrow> F k = Some i \<Longrightarrow> k \<noteq> root \<Longrightarrow>
    \<exists>p j. parent i = Some p \<and> F p = Some j \<and> k \<in> set (children j) \<and> fst p < fst k"
  using tree_ok_parent [of root F k i] unfolding tree_ok_def by blast

lemma child_relI: "F p = Some i \<Longrightarrow> c \<in> set (children i) \<Longrightarrow> (p, c) \<in> child_rel F"
  by (auto simp: child_rel_def)

lemma child_rel_parent: "tree_ok root F \<Longrightarrow> (p, c) \<in> child_rel F \<Longrightarrow>
    \<exists>i j. F p = Some i \<and> c \<in> set (children i) \<and> F c = Some j \<and> parent j = Some p \<and> fst p < fst c"
  by (auto simp: child_rel_def dest: tree_ok_child)

lemma child_rel_iff_parent:
  "tree_ok root F \<Longrightarrow> (p, c) \<in> child_rel F \<longleftrightarrow> (\<exists>j. F c = Some j \<and> parent j = Some p)"
  by (blast intro: child_relI dest: child_rel_parent tree_ok_parent)

text \<open>Two maps with the same parents and children have the same subtrees.\<close>

definition same_shape :: "'h fork_map \<Rightarrow> 'h fork_map \<Rightarrow> bool" where
  "same_shape F G \<longleftrightarrow> dom F = dom G \<and>
     (\<forall>k i j. F k = Some i \<longrightarrow> G k = Some j \<longrightarrow> parent i = parent j \<and> children i = children j)"

lemma same_shape_refl [simp]: "same_shape F F"
  by (simp add: same_shape_def)

lemma same_shape_SomeD:
  assumes "same_shape F G" "F k = Some i"
  shows "\<exists>j. G k = Some j \<and> parent j = parent i \<and> children j = children i"
proof -
  from assms have "k \<in> dom G" by (auto simp: same_shape_def)
  then obtain j where "G k = Some j" by blast
  with assms show ?thesis by (simp add: same_shape_def)
qed

lemma same_shape_sym: "same_shape F G \<Longrightarrow> same_shape G F"
  by (simp add: same_shape_def)

lemma same_shapeI:
  "dom F = dom G \<Longrightarrow>
    (\<And>k i. F k = Some i \<Longrightarrow> \<exists>j. G k = Some j \<and> parent j = parent i \<and> children j = children i) \<Longrightarrow>
    same_shape F G"
  unfolding same_shape_def by fastforce

lemma same_shape_trans: "same_shape F G \<Longrightarrow> same_shape G H \<Longrightarrow> same_shape F H"
proof (rule same_shapeI)
  assume s: "same_shape F G" "same_shape G H"
  then show "dom F = dom H" by (simp add: same_shape_def)
  fix k i
  assume "F k = Some i"
  from same_shape_SomeD [OF s(1) this] same_shape_SomeD [OF s(2), of k]
  show "\<exists>j. H k = Some j \<and> parent j = parent i \<and> children j = children i" by auto
qed

lemma same_shape_upd:
  "F k = Some i \<Longrightarrow> parent i' = parent i \<Longrightarrow> children i' = children i \<Longrightarrow> same_shape F (F(k \<mapsto> i'))"
  by (auto simp: same_shape_def)

lemma child_rel_same_shape_subset: "same_shape F G \<Longrightarrow> child_rel F \<subseteq> child_rel G"
proof
  fix x
  assume s: "same_shape F G" and "x \<in> child_rel F"
  then obtain p c i where x: "x = (p, c)" "F p = Some i" "c \<in> set (children i)"
    by (auto simp: child_rel_def)
  from same_shape_SomeD [OF s x(2)] x show "x \<in> child_rel G" by (auto simp: child_rel_def)
qed

lemma child_rel_same_shape: "same_shape F G \<Longrightarrow> child_rel F = child_rel G"
  by (blast dest: child_rel_same_shape_subset same_shape_sym)

lemma subtree_same_shape: "same_shape F G \<Longrightarrow> subtree F k = subtree G k"
  by (simp add: subtree_def child_rel_same_shape)

lemma tree_ok_same_shape: "same_shape F G \<Longrightarrow> tree_ok root F \<Longrightarrow> tree_ok root G"
proof (rule tree_okI)
  assume s: "same_shape F G" and t: "tree_ok root F"
  note s' = same_shape_sym [OF s]
  show "finite (dom G)" using s tree_ok_finite [OF t] by (simp add: same_shape_def)
  show "\<exists>i. G root = Some i \<and> parent i = None"
  proof -
    from tree_ok_root [OF t] obtain i where "F root = Some i" "parent i = None" by blast
    with same_shape_SomeD [OF s] show ?thesis by fastforce
  qed
  fix k i
  assume i: "G k = Some i"
  from same_shape_SomeD [OF s' i] obtain j where
    j: "F k = Some j" "parent j = parent i" "children j = children i" by blast
  from tree_ok_children [OF t j(1)] j show "sorted (children i) \<and> distinct (children i)" by simp
  show "fst k < fst c \<and> (\<exists>j. G c = Some j \<and> parent j = Some k)" if "c \<in> set (children i)" for c
  proof -
    from that j tree_ok_child [OF t j(1), of c] obtain l where
      l: "fst k < fst c" "F c = Some l" "parent l = Some k" by auto
    with same_shape_SomeD [OF s l(2)] show ?thesis by auto
  qed
  show "\<exists>p j. parent i = Some p \<and> G p = Some j \<and> k \<in> set (children j)" if "k \<noteq> root"
  proof -
    from tree_ok_has_parent [OF t j(1) that] obtain p l where
      l: "parent j = Some p" "F p = Some l" "k \<in> set (children l)" by blast
    then have "parent i = Some p" using j by simp
    with same_shape_SomeD [OF s l(2)] l show ?thesis by auto
  qed
qed

lemma subtree_refl [simp]: "k \<in> subtree F k"
  by (simp add: subtree_def)

lemma subtree_child: "(k, c) \<in> child_rel F \<Longrightarrow> subtree F c \<subseteq> subtree F k"
  by (auto simp: subtree_def intro: converse_rtrancl_into_rtrancl)

lemma subtree_trans: "n \<in> subtree F k \<Longrightarrow> m \<in> subtree F n \<Longrightarrow> m \<in> subtree F k"
  by (simp add: subtree_def)

lemma subtree_unfold:
  "subtree F k = insert k (\<Union>c \<in> {c. (k, c) \<in> child_rel F}. subtree F c)"
proof (intro equalityI subsetI)
  fix n
  assume "n \<in> subtree F k"
  then have "(k, n) \<in> (child_rel F)\<^sup>*" by (simp add: subtree_def)
  then show "n \<in> insert k (\<Union>c \<in> {c. (k, c) \<in> child_rel F}. subtree F c)"
    by (cases rule: converse_rtranclE) (auto simp: subtree_def)
next
  fix n
  assume "n \<in> insert k (\<Union>c \<in> {c. (k, c) \<in> child_rel F}. subtree F c)"
  then show "n \<in> subtree F k" using subtree_child [of k _ F] by auto
qed

lemma subtree_unfold_info:
  "F k = Some i \<Longrightarrow> subtree F k = insert k (\<Union>c \<in> set (children i). subtree F c)"
  by (subst subtree_unfold) (auto simp: child_rel_def)

lemma subtree_slot:
  assumes "tree_ok root F" "n \<in> subtree F k"
  shows "n = k \<or> fst k < fst n"
proof -
  from assms(2) have "(k, n) \<in> (child_rel F)\<^sup>*" by (simp add: subtree_def)
  then show ?thesis
  proof (induction rule: rtrancl_induct)
    case (step y z)
    with child_rel_parent [OF assms(1) step.hyps(2)] show ?case by auto
  qed simp
qed

lemma subtree_dom: "tree_ok root F \<Longrightarrow> k \<in> dom F \<Longrightarrow> subtree F k \<subseteq> dom F"
proof
  fix n
  assume t: "tree_ok root F" and k: "k \<in> dom F" and "n \<in> subtree F k"
  then have "(k, n) \<in> (child_rel F)\<^sup>*" by (simp add: subtree_def)
  then show "n \<in> dom F"
  proof (induction rule: rtrancl_induct)
    case (step y z)
    with child_rel_parent [OF t step.hyps(2)] show ?case by auto
  qed (rule k)
qed

lemma subtree_finite: "tree_ok root F \<Longrightarrow> k \<in> dom F \<Longrightarrow> finite (subtree F k)"
  by (meson finite_subset subtree_dom tree_ok_finite)

text \<open>A block below \<open>k\<close> is \<open>k\<close> or its parent is below \<open>k\<close>.\<close>

lemma subtree_parent:
  assumes t: "tree_ok root F" and n: "n \<in> subtree F k" "n \<noteq> k"
  shows "\<exists>i p. F n = Some i \<and> parent i = Some p \<and> p \<in> subtree F k"
proof -
  from n have "(k, n) \<in> (child_rel F)\<^sup>*" by (simp add: subtree_def)
  with n(2) obtain p where "(k, p) \<in> (child_rel F)\<^sup>*" "(p, n) \<in> child_rel F"
    by (auto elim: rtranclE)
  with child_rel_parent [OF t, of p n] show ?thesis by (auto simp: subtree_def)
qed

lemma subtree_parentI:
  "tree_ok root F \<Longrightarrow> F n = Some i \<Longrightarrow> parent i = Some p \<Longrightarrow> p \<in> subtree F k \<Longrightarrow> n \<in> subtree F k"
  unfolding subtree_def mem_Collect_eq
  by (rule rtrancl.rtrancl_into_rtrancl, assumption) (simp add: child_rel_iff_parent [where root = root])

text \<open>Two subtrees that share a block are nested.\<close>

lemma subtree_nested:
  assumes t: "tree_ok root F" and "n \<in> subtree F a" "n \<in> subtree F b"
  shows "a \<in> subtree F b \<or> b \<in> subtree F a"
proof -
  have "(a, n) \<in> (child_rel F)\<^sup>*" using assms by (simp add: subtree_def)
  then show ?thesis using \<open>n \<in> subtree F b\<close>
  proof (induction rule: rtrancl_induct)
    case base
    then show ?case by simp
  next
    case (step y z)
    show ?case
    proof (cases "z = b")
      case True
      with step have "(a, b) \<in> (child_rel F)\<^sup>*" by (meson rtrancl.rtrancl_into_rtrancl)
      then show ?thesis by (simp add: subtree_def)
    next
      case False
      from subtree_parent [OF t step.prems False] obtain i p where
        p: "F z = Some i" "parent i = Some p" "p \<in> subtree F b" by blast
      from step.hyps(2) child_rel_parent [OF t, of y z] p have "p = y" by auto
      with p step.IH show ?thesis by simp
    qed
  qed
qed

lemma child_not_below_sibling:
  assumes t: "tree_ok root F" and "(k, c) \<in> child_rel F" "(k, d) \<in> child_rel F" "c \<noteq> d"
  shows "c \<notin> subtree F d"
proof
  assume "c \<in> subtree F d"
  from subtree_parent [OF t this \<open>c \<noteq> d\<close>] child_rel_parent [OF t assms(2)]
  have "k \<in> subtree F d" by auto
  with subtree_slot [OF t this] child_rel_parent [OF t assms(3)] show False by auto
qed

lemma children_disjoint:
  assumes t: "tree_ok root F" and "(k, c) \<in> child_rel F" "(k, d) \<in> child_rel F" "c \<noteq> d"
  shows "subtree F c \<inter> subtree F d = {}"
proof -
  note c = child_not_below_sibling [OF t]
  have "c \<notin> subtree F d" "d \<notin> subtree F c" using c [OF assms(2-4)] c [OF assms(3,2)] assms(4) by auto
  with subtree_nested [OF t] show ?thesis by (metis disjoint_iff)
qed

lemma subtree_root: "tree_ok root F \<Longrightarrow> subtree F root = dom F"
proof (intro equalityI subsetI)
  assume t: "tree_ok root F"
  fix n
  assume "n \<in> dom F"
  then show "n \<in> subtree F root"
  proof (induction "fst n" arbitrary: n rule: less_induct)
    case less
    show ?case
    proof (cases "n = root")
      case False
      with less.prems obtain i p where
        p: "F n = Some i" "parent i = Some p" "p \<in> dom F" "fst p < fst n"
        using tree_ok_has_parent [OF t _ False] by blast
      with less.hyps [of p] have "p \<in> subtree F root" by simp
      with p show ?thesis using subtree_parentI [OF t] by blast
    qed simp
  qed
next
  fix n
  assume t: "tree_ok root F" and "n \<in> subtree F root"
  moreover from tree_ok_root [OF t] have "root \<in> dom F" by blast
  ultimately show "n \<in> dom F" using subtree_dom [OF t] by blast
qed

text \<open>Induction from the leaves to the root.\<close>

lemma tree_induct [consumes 1, case_names node]:
  assumes t: "tree_ok root F"
    and step: "\<And>k. (\<And>c. (k, c) \<in> child_rel F \<Longrightarrow> P c) \<Longrightarrow> P k"
  shows "P k"
proof -
  have "child_rel F \<subseteq> dom F \<times> dom F" by (auto dest!: child_rel_parent [OF t])
  then have f: "finite (child_rel F)"
    using tree_ok_finite [OF t] by (meson finite_SigmaI finite_subset)
  have slot: "fst a < fst b" if "(a, b) \<in> (child_rel F)\<^sup>+" for a b
    using that
  proof (induction rule: trancl_induct)
    case (base y)
    with child_rel_parent [OF t base] show ?case by auto
  next
    case (step y z)
    with child_rel_parent [OF t step.hyps(2)] show ?case by auto
  qed
  then have "acyclic (child_rel F)" unfolding acyclic_def by blast
  with f have "wf ((child_rel F)\<inverse>)" by (rule finite_acyclic_wf_converse)
  then show ?thesis
    by (induction k rule: wf_induct_rule) (simp add: step)
qed

section \<open>What a block records about its subtree\<close>

definition weight :: "'h fork_map \<Rightarrow> 'h slot_hash_key \<Rightarrow> nat" where
  "weight F k = stake_voted_subtree (info F k)"

definition heavier :: "'h::linorder fork_map \<Rightarrow> 'h slot_hash_key \<Rightarrow> 'h slot_hash_key \<Rightarrow> bool" where
  "heavier F c d \<longleftrightarrow> weight F c > weight F d \<or> weight F c = weight F d \<and> c < d"

definition deeper :: "'h::linorder fork_map \<Rightarrow> 'h slot_hash_key \<Rightarrow> 'h slot_hash_key \<Rightarrow> bool" where
  "deeper F c d \<longleftrightarrow> height (info F c) > height (info F d) \<or>
     height (info F c) = height (info F d) \<and> heavier F c d"

definition candidates :: "'h fork_map \<Rightarrow> 'h fork_info \<Rightarrow> 'h slot_hash_key list" where
  "candidates F i = filter (\<lambda>c. is_candidate (info F c)) (children i)"

definition heaviest_child :: "'h::linorder fork_map \<Rightarrow> 'h fork_info \<Rightarrow> 'h slot_hash_key option" where
  "heaviest_child F i = champion (heavier F) (candidates F i)"

definition deepest_child :: "'h::linorder fork_map \<Rightarrow> 'h fork_info \<Rightarrow> 'h slot_hash_key option" where
  "deepest_child F i = champion (deeper F) (children i)"

definition weight_of :: "'h fork_map \<Rightarrow> 'h fork_info \<Rightarrow> nat" where
  "weight_of F i = stake_voted_at i + sum_list (map (weight F) (children i))"

definition best_of :: "'h::linorder fork_map \<Rightarrow> 'h slot_hash_key \<Rightarrow> 'h fork_info \<Rightarrow> 'h slot_hash_key" where
  "best_of F k i = (case heaviest_child F i of None \<Rightarrow> k | Some c \<Rightarrow> best_slot (info F c))"

definition deepest_of :: "'h::linorder fork_map \<Rightarrow> 'h slot_hash_key \<Rightarrow> 'h fork_info \<Rightarrow> 'h slot_hash_key" where
  "deepest_of F k i = (case deepest_child F i of None \<Rightarrow> k | Some c \<Rightarrow> deepest_slot (info F c))"

definition height_of :: "'h::linorder fork_map \<Rightarrow> 'h fork_info \<Rightarrow> nat" where
  "height_of F i = (case deepest_child F i of None \<Rightarrow> 0 | Some c \<Rightarrow> height (info F c)) + 1"

definition confirmed_child :: "'h fork_map \<Rightarrow> 'h fork_info \<Rightarrow> bool" where
  "confirmed_child F i \<longleftrightarrow> (\<exists>c \<in> set (children i). is_duplicate_confirmed (info F c))"

text \<open>A strict linear order behind a numeric rank is one again.\<close>

lemma strict_linear_rank:
  assumes R: "strict_linear R"
  shows "strict_linear (\<lambda>a b. f a > (f b :: nat) \<or> f a = f b \<and> R a b)"
proof -
  have irr: "\<not> R a a" and tr: "R a b \<Longrightarrow> R b c \<Longrightarrow> R a c" and tot: "a \<noteq> b \<Longrightarrow> R a b \<or> R b a" for a b c
    using R unfolding strict_linear_def by blast+
  show ?thesis
    unfolding strict_linear_def
  proof (intro conjI allI impI)
    fix a b c
    show "\<not> (f a > f a \<or> f a = f a \<and> R a a)" using irr by simp
    show "f a > f c \<or> f a = f c \<and> R a c"
      if "f a > f b \<or> f a = f b \<and> R a b" "f b > f c \<or> f b = f c \<and> R b c"
      using that tr [of a b c] by auto
    show "(f a > f b \<or> f a = f b \<and> R a b) \<or> f b > f a \<or> f b = f a \<and> R b a" if "a \<noteq> b"
      using tot [OF that] by auto
  qed
qed

lemma heavier_linear: "strict_linear (heavier F)"
proof -
  have "strict_linear ((<) :: 'a slot_hash_key \<Rightarrow> _)" by (auto simp: strict_linear_def)
  then show ?thesis unfolding heavier_def by (rule strict_linear_rank)
qed

lemma deeper_linear: "strict_linear (deeper F)"
  unfolding deeper_def by (rule strict_linear_rank [OF heavier_linear])

lemma heaviest_child_in: "heaviest_child F i = Some c \<Longrightarrow> c \<in> set (children i) \<and> is_candidate (info F c)"
  unfolding heaviest_child_def by (drule champion_in [OF heavier_linear]) (simp add: candidates_def)

lemma deepest_child_in: "deepest_child F i = Some c \<Longrightarrow> c \<in> set (children i)"
  unfolding deepest_child_def by (rule champion_in [OF deeper_linear])

text \<open>The block as \<open>aggregate_slot\<close> leaves it.\<close>

definition aggregated :: "'h::linorder fork_map \<Rightarrow> 'h slot_hash_key \<Rightarrow> 'h fork_info \<Rightarrow> 'h fork_info" where
  "aggregated F k i =
     (if confirmed_child F i then set_duplicate_confirmed i else i)
       \<lparr>stake_voted_subtree := weight_of F i, height := height_of F i,
        best_slot := best_of F k i, deepest_slot := deepest_of F k i\<rparr>"

definition set_best :: "'h fork_map \<Rightarrow> 'h slot_hash_key \<Rightarrow> 'h slot_hash_key option \<Rightarrow> 'h aggregate_vars \<Rightarrow> 'h aggregate_vars" where
  "set_best F k b v = v\<lparr>av_best_child_stake := (case b of None \<Rightarrow> 0 | Some c \<Rightarrow> weight F c),
     av_best_child_key := (case b of None \<Rightarrow> k | Some c \<Rightarrow> c),
     av_best_slot := (case b of None \<Rightarrow> k | Some c \<Rightarrow> best_slot (info F c))\<rparr>"

definition set_deepest :: "'h fork_map \<Rightarrow> 'h slot_hash_key \<Rightarrow> 'h slot_hash_key option \<Rightarrow> 'h aggregate_vars \<Rightarrow> 'h aggregate_vars" where
  "set_deepest F k d v = v\<lparr>av_deepest_child_height := (case d of None \<Rightarrow> 0 | Some c \<Rightarrow> height (info F c)),
     av_deepest_child_stake := (case d of None \<Rightarrow> 0 | Some c \<Rightarrow> weight F c),
     av_deepest_child_key := (case d of None \<Rightarrow> k | Some c \<Rightarrow> c),
     av_deepest_slot := (case d of None \<Rightarrow> k | Some c \<Rightarrow> deepest_slot (info F c))\<rparr>"

definition vars_after ::
  "'h::linorder fork_map \<Rightarrow> 'h slot_hash_key \<Rightarrow> 'h fork_info \<Rightarrow> 'h slot_hash_key list \<Rightarrow> 'h aggregate_vars" where
  "vars_after F k i cs =
     set_deepest F k (champion (deeper F) cs)
       (set_best F k (champion (heavier F) (filter (\<lambda>c. is_candidate (info F c)) cs))
         ((aggregate_init k i)
            \<lparr>av_is_duplicate_confirmed := (\<exists>c \<in> set cs. is_duplicate_confirmed (info F c)),
             av_stake_voted_subtree := stake_voted_at i + sum_list (map (weight F) cs)\<rparr>))"

lemma cmp_simps [simp]:
  "cmp a b = Less \<longleftrightarrow> a < b" "cmp a b = Equal \<longleftrightarrow> a = b" "cmp a b = Greater \<longleftrightarrow> b < a"
  by (auto simp: cmp_def)

lemma replaces_deepest_False:
  "replaces_deepest False (cmp (height (info F c)) (height (info F b))) (cmp (weight F c) (weight F b)) (cmp c b) =
    deeper F c b"
  by (simp add: cmp_def deeper_def heavier_def)

lemma offer_best_set:
  assumes "F x = Some j" "\<And>b. B = Some b \<Longrightarrow> b \<noteq> k"
  shows "offer_best k x j (set_best F k B v) =
    set_best F k (if is_candidate j then challenge (heavier F) x B else B) v"
  using assms by (cases B) (simp_all add: offer_best_def set_best_def weight_def heavier_def)

lemma offer_deepest_set:
  assumes "F x = Some j" "\<And>d. D = Some d \<Longrightarrow> d \<noteq> k"
  shows "offer_deepest k x j (set_deepest F k D v) = set_deepest F k (challenge (deeper F) x D) v"
proof -
  have j: "info F x = j" "stake_voted_subtree j = weight F x" using assms by (simp_all add: weight_def)
  show ?thesis
  proof (cases D)
    case None
    with j show ?thesis by (simp add: offer_deepest_def set_deepest_def)
  next
    case (Some d)
    with assms have "(d = k) = False" by simp
    with Some j replaces_deepest_False [of F x d] show ?thesis
      by (simp add: offer_deepest_def set_deepest_def)
  qed
qed

lemma offer_best_frame:
  "offer_best k x j (set_deepest F k D v) = set_deepest F k D (offer_best k x j v)"
  by (cases v) (auto simp: offer_best_def set_deepest_def)

lemma aggregate_child_step:
  assumes x: "fm infos x = Some j" and k: "k \<notin> set (cs @ [x])"
    and bound: "stake_voted_at i + sum_list (map (weight (fm infos)) (cs @ [x])) < 2 ^ 64"
  shows "aggregate_child infos k x (vars_after (fm infos) k i cs) = Some (vars_after (fm infos) k i (cs @ [x]))"
proof -
  let ?F = "fm infos"
  define B where "B = champion (heavier ?F) (filter (\<lambda>c. is_candidate (info ?F c)) cs)"
  define D where "D = champion (deeper ?F) cs"
  let ?st = "\<lambda>v. v\<lparr>av_is_duplicate_confirmed := \<exists>c \<in> set (cs @ [x]). is_duplicate_confirmed (info ?F c),
    av_stake_voted_subtree := stake_voted_at i + sum_list (map (weight ?F) (cs @ [x]))\<rparr>"
  have j: "info ?F x = j" "stake_voted_subtree j = weight ?F x" using x by (simp_all add: weight_def)
  have B': "b \<noteq> k" if "B = Some b" for b
    using champion_in [OF heavier_linear that [unfolded B_def]] k by auto
  have D': "d \<noteq> k" if "D = Some d" for d
    using champion_in [OF deeper_linear that [unfolded D_def]] k by auto
  have add: "add64 (stake_voted_at i + sum_list (map (weight ?F) cs)) (weight ?F x) =
      Some (stake_voted_at i + sum_list (map (weight ?F) (cs @ [x])))"
    using bound by (simp add: add64_def add.assoc)
  have "aggregate_child infos k x (vars_after ?F k i cs) =
      Some (offer_deepest k x j (offer_best k x j (set_deepest ?F k D (set_best ?F k B (?st (aggregate_init k i))))))"
    using x j add
    by (simp add: aggregate_child_def vars_after_def B_def [symmetric] D_def [symmetric]
        set_best_def set_deepest_def aggregate_init_def disj_commute)
  also have "\<dots> = Some (set_deepest ?F k (challenge (deeper ?F) x D)
      (set_best ?F k (if is_candidate j then challenge (heavier ?F) x B else B) (?st (aggregate_init k i))))"
    by (simp only: offer_best_frame offer_best_set [where F = ?F, OF x B']
        offer_deepest_set [where F = ?F, OF x D'])
  also have "\<dots> = Some (vars_after ?F k i (cs @ [x]))"
    by (simp add: vars_after_def B_def D_def j champion_snoc)
  finally show ?thesis .
qed

lemma aggregate_children:
  assumes "\<forall>c \<in> set cs. fm infos c \<noteq> None" "k \<notin> set cs"
    "stake_voted_at i + sum_list (map (weight (fm infos)) cs) < 2 ^ 64"
  shows "run_list (aggregate_child infos k) cs (aggregate_init k i) = Some (vars_after (fm infos) k i cs)"
  using assms
proof (induction cs rule: rev_induct)
  case Nil
  then show ?case by (simp add: aggregate_init_def vars_after_def set_best_def set_deepest_def)
next
  case (snoc x cs)
  then obtain j where "fm infos x = Some j" by auto
  with snoc show ?case by (simp add: run_list_append aggregate_child_step del: append.simps)
qed

lemma aggregate_slot_eq:
  assumes "fm infos k = Some i" "\<forall>c \<in> set (children i). fm infos c \<noteq> None" "k \<notin> set (children i)"
    and "weight_of (fm infos) i < 2 ^ 64"
  shows "aggregate_slot k infos = Some (btm_put k (aggregated (fm infos) k i) infos)"
  using assms aggregate_children [of "children i" infos k i]
  by (simp add: aggregate_slot_def weight_of_def aggregated_def vars_after_def set_best_def set_deepest_def Let_def confirmed_child_def
      height_of_def best_of_def deepest_of_def heaviest_child_def deepest_child_def candidates_def
      set_duplicate_confirmed_def)

end
