(* ===== verification/Fork_Update.thy ===== *)
theory Fork_Update
  imports Fork_Tree
begin

text \<open>
  The batch of updates that \<open>process_update_operations\<close> applies from the greatest to the smallest
  block. A batch that re-aggregates every ancestor of every block it touches does not panic, and
  leaves every block with the weight, height, best and deepest descendant that its children
  prescribe.
\<close>

section \<open>Invariants of a block\<close>

definition node_inv :: "'h fork_map \<Rightarrow> 'h slot_hash_key \<Rightarrow> 'h fork_info \<Rightarrow> bool" where
  "node_inv F k i \<longleftrightarrow> (\<forall>a. latest_invalid_ancestor i = Some a \<longrightarrow> a \<le> fst k) \<and>
     (is_duplicate_confirmed i \<longrightarrow> latest_invalid_ancestor i = None) \<and> best_slot i \<in> subtree F k"

definition derived :: "'h::linorder fork_map \<Rightarrow> 'h slot_hash_key \<Rightarrow> 'h fork_info \<Rightarrow> bool" where
  "derived F k i \<longleftrightarrow> stake_voted_subtree i = weight_of F i \<and> height i = height_of F i \<and>
     deepest_slot i = deepest_of F k i \<and> (is_candidate i \<longrightarrow> best_slot i = best_of F k i) \<and>
     (confirmed_child F i \<longrightarrow> is_duplicate_confirmed i)"

lemma heavier_cong: "info F a = info G a \<Longrightarrow> info F b = info G b \<Longrightarrow> heavier F a b = heavier G a b"
  by (simp add: heavier_def weight_def)

lemma deeper_cong: "info F a = info G a \<Longrightarrow> info F b = info G b \<Longrightarrow> deeper F a b = deeper G a b"
  by (simp add: deeper_def heavier_def weight_def)

lemma children_view_cong:
  assumes "\<And>c. c \<in> set (children i) \<Longrightarrow> info F c = info G c"
  shows "weight_of F i = weight_of G i" "height_of F i = height_of G i"
    "deepest_of F k i = deepest_of G k i" "best_of F k i = best_of G k i"
    "confirmed_child F i = confirmed_child G i"
proof -
  have "candidates F i = candidates G i" unfolding candidates_def using assms by (auto intro: filter_cong)
  then have "heaviest_child F i = heaviest_child G i"
    unfolding heaviest_child_def
    by (intro champion_cong heavier_linear) (auto simp: candidates_def assms intro!: heavier_cong)
  moreover have "deepest_child F i = deepest_child G i"
    unfolding deepest_child_def
    by (intro champion_cong deeper_linear) (auto simp: assms intro!: deeper_cong)
  ultimately show "height_of F i = height_of G i" "deepest_of F k i = deepest_of G k i"
    "best_of F k i = best_of G k i"
    unfolding height_of_def deepest_of_def best_of_def
    using assms by (auto split: option.split dest!: heaviest_child_in deepest_child_in)
  show "weight_of F i = weight_of G i"
    unfolding weight_of_def weight_def by (simp add: assms cong: map_cong)
  show "confirmed_child F i = confirmed_child G i" unfolding confirmed_child_def using assms by simp
qed

lemma derived_cong:
  "(\<And>c. c \<in> set (children i) \<Longrightarrow> info F c = info G c) \<Longrightarrow> derived F k i = derived G k i"
  unfolding derived_def using children_view_cong [of i F G] by simp

lemma derived_upd: "k \<notin> set (children j) \<Longrightarrow> derived (F(k \<mapsto> i)) n j = derived F n j"
  by (rule derived_cong) auto

lemma own_fields_cong:
  assumes "children i' = children i"
  shows "height_of F i' = height_of F i" "deepest_of F k i' = deepest_of F k i"
    "best_of F k i' = best_of F k i" "confirmed_child F i' = confirmed_child F i"
    "stake_voted_at i' = stake_voted_at i \<Longrightarrow> weight_of F i' = weight_of F i"
  using assms
  by (simp_all add: height_of_def deepest_of_def best_of_def confirmed_child_def weight_of_def
      heaviest_child_def deepest_child_def candidates_def)

lemma derived_shift:
  assumes d: "derived F k i" and t: "a + stake_voted_subtree i = t + stake_voted_at i"
  shows "derived F k (i\<lparr>stake_voted_at := a, stake_voted_subtree := t\<rparr>)"
proof -
  let ?i = "i\<lparr>stake_voted_at := a, stake_voted_subtree := t\<rparr>"
  have "weight_of F ?i + stake_voted_at i = weight_of F i + a" by (simp add: weight_of_def)
  with d t have "t = weight_of F ?i" by (simp add: derived_def)
  with d show ?thesis
    unfolding derived_def own_fields_cong(1-4) [of ?i i F, simplified] by (simp add: is_candidate_def)
qed

lemma aggregated_fields [simp]:
  "parent (aggregated F k i) = parent i" "children (aggregated F k i) = children i"
  "stake_voted_at (aggregated F k i) = stake_voted_at i"
  "stake_voted_subtree (aggregated F k i) = weight_of F i"
  "best_slot (aggregated F k i) = best_of F k i"
  "height (aggregated F k i) = height_of F i"
  "deepest_slot (aggregated F k i) = deepest_of F k i"
  "is_duplicate_confirmed (aggregated F k i) = (confirmed_child F i \<or> is_duplicate_confirmed i)"
  "latest_invalid_ancestor (aggregated F k i) = (if confirmed_child F i then None else latest_invalid_ancestor i)"
  by (simp_all add: aggregated_def set_duplicate_confirmed_def)

lemma derived_aggregated: "derived F k (aggregated F k i)"
  unfolding derived_def by (simp add: own_fields_cong [of "aggregated F k i" i])

lemma best_of_subtree:
  assumes "F k = Some i" "\<And>c. c \<in> set (children i) \<Longrightarrow> best_slot (info F c) \<in> subtree F c"
  shows "best_of F k i \<in> subtree F k"
proof (cases "heaviest_child F i")
  case None
  then show ?thesis by (simp add: best_of_def)
next
  case (Some c)
  with heaviest_child_in [OF Some] assms have "best_slot (info F c) \<in> subtree F c" "(k, c) \<in> child_rel F"
    by (auto intro: child_relI)
  with subtree_child [of k c F] Some show ?thesis by (auto simp: best_of_def)
qed

text \<open>Where every block below \<open>k\<close> has the weight its children prescribe, the weight of \<open>k\<close> is the stake voted in its subtree.\<close>

lemma sum_subtree:
  fixes f :: "'h::linorder slot_hash_key \<Rightarrow> nat"
  assumes t: "tree_ok root F" and i: "F k = Some i"
  shows "sum f (subtree F k) = f k + sum_list (map (\<lambda>c. sum f (subtree F c)) (children i))"
proof -
  have dis: "\<forall>c \<in> set (children i). \<forall>d \<in> set (children i). c \<noteq> d \<longrightarrow> subtree F c \<inter> subtree F d = {}"
    using children_disjoint [OF t] child_relI [of F k i] i by blast
  have fin: "\<forall>c \<in> set (children i). finite (subtree F c)"
    using subtree_finite [OF t] tree_ok_child [OF t i] by blast
  have notin: "k \<notin> (\<Union>c \<in> set (children i). subtree F c)"
    using subtree_slot [OF t] tree_ok_child [OF t i] by fastforce
  have "sum f (subtree F k) = f k + sum f (\<Union>c \<in> set (children i). subtree F c)"
    using fin notin by (subst subtree_unfold_info [of F k i, OF i]) simp
  also have "\<dots> = f k + (\<Sum>c \<in> set (children i). sum f (subtree F c))"
    using fin dis by (simp add: sum.UNION_disjoint)
  also have "\<dots> = f k + sum_list (map (\<lambda>c. sum f (subtree F c)) (children i))"
    using tree_ok_children [OF t i] by (simp add: sum_list_distinct_conv_sum_set)
  finally show ?thesis .
qed

lemma subtree_weight:
  assumes t: "tree_ok root F" and "k \<in> dom F"
    and "\<And>n. n \<in> subtree F k \<Longrightarrow> n \<noteq> k \<Longrightarrow> weight F n = weight_of F (info F n)"
  shows "weight_of F (info F k) = (\<Sum>n \<in> subtree F k. stake_voted_at (info F n))"
  using t assms(2,3)
proof (induction k rule: tree_induct)
  case (node k)
  then obtain i where i: "F k = Some i" by blast
  let ?at = "\<lambda>n. stake_voted_at (info F n)"
  have child: "weight F c = sum ?at (subtree F c)" if c: "c \<in> set (children i)" for c
  proof -
    have kc: "(k, c) \<in> child_rel F" using i c by (rule child_relI)
    from child_rel_parent [OF t kc] have c': "c \<in> dom F" "c \<noteq> k" by auto
    have sub: "subtree F c \<subseteq> subtree F k" using kc by (rule subtree_child)
    have k: "n \<noteq> k" if "n \<in> subtree F c" for n
      using subtree_slot [OF t that] child_rel_parent [OF t kc] by auto
    have "weight F c = weight_of F (info F c)"
      using sub c' by (intro node.prems(2)) auto
    also have "\<dots> = sum ?at (subtree F c)"
      using node.IH [OF kc c'(1)] node.prems(2) sub k by (simp add: subset_iff)
    finally show ?thesis .
  qed
  then show ?case using i sum_subtree [OF t i, of ?at] by (simp add: weight_of_def cong: map_cong)
qed

section \<open>Batches\<close>

fun label_of :: "update_operation \<Rightarrow> update_label" where
  "label_of (Op_Add _) = L_Add"
| "label_of (Op_MarkValid s) = L_MarkValid s"
| "label_of (Op_MarkInvalid s) = L_MarkInvalid s"
| "label_of (Op_Subtract _) = L_Subtract"
| "label_of Op_Aggregate = L_Aggregate"

type_synonym 'h op_list = "(('h slot_hash_key \<times> update_label) \<times> update_operation) list"

fun op_add :: "'h op_list \<Rightarrow> 'h slot_hash_key \<Rightarrow> nat" where
  "op_add [] n = 0"
| "op_add (((k, l), op) # R) n = (case op of Op_Add s \<Rightarrow> if k = n then s else 0 | _ \<Rightarrow> 0) + op_add R n"

fun op_sub :: "'h op_list \<Rightarrow> 'h slot_hash_key \<Rightarrow> nat" where
  "op_sub [] n = 0"
| "op_sub (((k, l), op) # R) n = (case op of Op_Subtract s \<Rightarrow> if k = n then s else 0 | _ \<Rightarrow> 0) + op_sub R n"

definition keys_of :: "'h op_list \<Rightarrow> ('h slot_hash_key \<times> update_label) set" where
  "keys_of R = fst ` set R"

lemma keys_of_Cons [simp]: "keys_of (p # R) = insert (fst p) (keys_of R)"
  by (simp add: keys_of_def)

definition ops_closed :: "'h fork_map \<Rightarrow> 'h op_list \<Rightarrow> bool" where
  "ops_closed F R \<longleftrightarrow> (\<forall>k l op. ((k, l), op) \<in> set R \<longrightarrow> l = label_of op \<and>
     (\<forall>i p. F k = Some i \<longrightarrow> parent i = Some p \<longrightarrow> (p, L_Aggregate) \<in> keys_of R) \<and>
     (\<forall>s. op = Op_MarkInvalid s \<or> op = Op_MarkValid s \<longrightarrow> s \<le> fst k \<and> (k, L_Aggregate) \<in> keys_of R))"

definition loop_inv ::
  "'h::linorder slot_hash_key \<Rightarrow> ('h slot_hash_key \<Rightarrow> nat) \<Rightarrow> 'h op_list \<Rightarrow> 'h fork_map \<Rightarrow> bool" where
  "loop_inv root fin R F \<longleftrightarrow> tree_ok root F \<and> sorted_wrt (>) (map fst R) \<and> ops_closed F R \<and>
     sum fin (dom F) < 2 ^ 64 \<and>
     (\<forall>k i. F k = Some i \<longrightarrow> node_inv F k i \<and> ((k, L_Aggregate) \<notin> keys_of R \<longrightarrow> derived F k i) \<and>
        op_sub R k \<le> stake_voted_at i \<and> stake_voted_at i + op_add R k = fin k + op_sub R k \<and>
        op_sub R k \<le> stake_voted_subtree i \<and> stake_voted_subtree i + op_add R k < 2 ^ 64 + op_sub R k \<and>
        (\<forall>s. (k, L_MarkInvalid s) \<in> keys_of R \<longrightarrow> \<not> is_duplicate_confirmed i))"

lemma op_zero: "(\<And>s. ((n, L_Add), Op_Add s) \<notin> set R) \<Longrightarrow> ops_closed F R \<Longrightarrow> op_add R n = 0"
  "(\<And>s. ((n, L_Subtract), Op_Subtract s) \<notin> set R) \<Longrightarrow> ops_closed F R \<Longrightarrow> op_sub R n = 0"
proof -
  have "op_add R n = 0" if "\<And>s l. ((n, l), Op_Add s) \<notin> set R"
    using that by (induction R) (fastforce split: update_operation.split)+
  moreover have "op_sub R n = 0" if "\<And>s l. ((n, l), Op_Subtract s) \<notin> set R"
    using that by (induction R) (fastforce split: update_operation.split)+
  moreover have "l = label_of op" if "ops_closed F R" "((n, l), op) \<in> set R" for l op
    using that unfolding ops_closed_def by blast
  ultimately show "(\<And>s. ((n, L_Add), Op_Add s) \<notin> set R) \<Longrightarrow> ops_closed F R \<Longrightarrow> op_add R n = 0"
    "(\<And>s. ((n, L_Subtract), Op_Subtract s) \<notin> set R) \<Longrightarrow> ops_closed F R \<Longrightarrow> op_sub R n = 0"
    by (metis label_of.simps(1), metis label_of.simps(4))
qed

lemma label_less [simp]:
  "L_Aggregate < L_Add" "L_Add < L_Subtract" "L_Aggregate < L_Subtract"
  "L_Aggregate < L_MarkValid s" "L_Aggregate < L_MarkInvalid s"
  "L_MarkValid s < L_MarkInvalid t"
  by (simp_all add: less_update_label_def)

lemma label_not_less [simp]: "\<not> L_MarkInvalid t < L_MarkValid s" "\<not> l < L_Aggregate"
  by (cases l; simp add: less_update_label_def)+

lemma key_less: "fst p < fst k \<Longrightarrow> p < (k :: 'h::linorder slot_hash_key)"
  by (simp add: less_prod_def)

lemma ops_closed_tl:
  assumes t: "tree_ok root F" and s: "sorted_wrt (>) (map fst (p # R))" and c: "ops_closed F (p # R)"
  shows "ops_closed F R"
  unfolding ops_closed_def
proof (intro allI impI)
  fix k l op
  assume m: "((k, l), op) \<in> set R"
  with s have less: "(k, l) < fst p" by force
  from c m have l: "l = label_of op"
    and par: "\<And>i q. F k = Some i \<Longrightarrow> parent i = Some q \<Longrightarrow> (q, L_Aggregate) \<in> keys_of (p # R)"
    and mark: "\<And>s. op = Op_MarkInvalid s \<or> op = Op_MarkValid s \<Longrightarrow> s \<le> fst k \<and> (k, L_Aggregate) \<in> keys_of (p # R)"
    unfolding ops_closed_def by (auto simp del: keys_of_Cons)
  have "(q, L_Aggregate) \<in> keys_of R" if q: "F k = Some i" "parent i = Some q" for i q
  proof -
    have "q < k" using tree_ok_parent [OF t q] by (blast intro: key_less)
    then have "(q, L_Aggregate) < (k, l)" by simp
    with less have "(q, L_Aggregate) \<noteq> fst p" by (metis less_asym)
    with par [OF q] show ?thesis by simp
  qed
  moreover have "(k, L_Aggregate) \<in> keys_of R" if o: "op = Op_MarkInvalid s \<or> op = Op_MarkValid s" for s
  proof -
    from o l have "(k, L_Aggregate) < (k, l)" by auto
    with less have "(k, L_Aggregate) \<noteq> fst p" by (metis less_asym)
    with mark [OF o] show ?thesis by simp
  qed
  ultimately show "l = label_of op \<and>
     (\<forall>i p. F k = Some i \<longrightarrow> parent i = Some p \<longrightarrow> (p, L_Aggregate) \<in> keys_of R) \<and>
     (\<forall>s. op = Op_MarkInvalid s \<or> op = Op_MarkValid s \<longrightarrow> s \<le> fst k \<and> (k, L_Aggregate) \<in> keys_of R)"
    using l mark by blast
qed

lemma ops_closed_same_shape:
  assumes s: "same_shape F G" and c: "ops_closed F R"
  shows "ops_closed G R"
proof -
  have "(p, L_Aggregate) \<in> keys_of R" if "((k, l), op) \<in> set R" "G k = Some i" "parent i = Some p" for k l op i p
    using same_shape_SomeD [OF same_shape_sym [OF s] that(2)] that c unfolding ops_closed_def by metis
  with c show ?thesis unfolding ops_closed_def by blast
qed

section \<open>One step of the loop\<close>

definition block_inv ::
  "('h slot_hash_key \<Rightarrow> nat) \<Rightarrow> 'h op_list \<Rightarrow> 'h::linorder fork_map \<Rightarrow> 'h slot_hash_key \<Rightarrow> 'h fork_info \<Rightarrow> bool" where
  "block_inv fin R F k i \<longleftrightarrow> node_inv F k i \<and> ((k, L_Aggregate) \<notin> keys_of R \<longrightarrow> derived F k i) \<and>
     op_sub R k \<le> stake_voted_at i \<and> stake_voted_at i + op_add R k = fin k + op_sub R k \<and>
     op_sub R k \<le> stake_voted_subtree i \<and> stake_voted_subtree i + op_add R k < 2 ^ 64 + op_sub R k \<and>
     (\<forall>s. (k, L_MarkInvalid s) \<in> keys_of R \<longrightarrow> \<not> is_duplicate_confirmed i)"

lemma loop_inv_block:
  "loop_inv root fin R F \<longleftrightarrow> tree_ok root F \<and> sorted_wrt (>) (map fst R) \<and> ops_closed F R \<and>
     sum fin (dom F) < 2 ^ 64 \<and> (\<forall>k i. F k = Some i \<longrightarrow> block_inv fin R F k i)"
  by (simp add: loop_inv_def block_inv_def)

lemma node_inv_same_shape: "same_shape F G \<Longrightarrow> node_inv F k i = node_inv G k i"
  by (simp add: node_inv_def subtree_same_shape)

text \<open>A block that is not the target of the step keeps its part of the invariant.\<close>

lemma block_inv_other:
  assumes inv: "loop_inv root fin (((k, l), op) # R) F" and i: "F k = Some i"
    and i': "parent i' = parent i" "children i' = children i"
    and n: "n \<noteq> k" "F n = Some j"
  shows "block_inv fin R (F(k \<mapsto> i')) n j"
proof -
  let ?R = "((k, l), op) # R"
  from inv have t: "tree_ok root F" and s: "sorted_wrt (>) (map fst ?R)" and c: "ops_closed F ?R"
    and b: "block_inv fin ?R F n j"
    using n(2) by (auto simp: loop_inv_block)
  have shape: "same_shape F (F(k \<mapsto> i'))" using i i' by (rule same_shape_upd)
  have zero: "op_add ?R n = op_add R n" "op_sub ?R n = op_sub R n"
    using n(1) by (auto split: update_operation.split)
  have "derived (F(k \<mapsto> i')) n j" if notin: "(n, L_Aggregate) \<notin> keys_of R"
  proof (cases "k \<in> set (children j)")
    case True
    from tree_ok_child [OF t n(2) True] i have "parent i = Some n" by auto
    with c i have "(n, L_Aggregate) \<in> keys_of ?R" unfolding ops_closed_def by (metis list.set_intros(1))
    with n(1) notin show ?thesis by simp
  next
    case False
    with b notin n(1) show ?thesis by (simp add: derived_upd block_inv_def)
  qed
  with b zero n(1) show ?thesis
    by (simp add: block_inv_def node_inv_same_shape [OF shape] del: op_add.simps op_sub.simps)
qed

lemma loop_inv_step:
  assumes inv: "loop_inv root fin (((k, l), op) # R) F" and i: "F k = Some i"
    and i': "parent i' = parent i" "children i' = children i" and k: "block_inv fin R F k i'"
  shows "loop_inv root fin R (F(k \<mapsto> i'))"
proof -
  let ?R = "((k, l), op) # R"
  from inv have t: "tree_ok root F" and s: "sorted_wrt (>) (map fst ?R)" and c: "ops_closed F ?R"
    and sum: "sum fin (dom F) < 2 ^ 64"
    by (auto simp: loop_inv_block)
  have shape: "same_shape F (F(k \<mapsto> i'))" using i i' by (rule same_shape_upd)
  have "k \<notin> set (children i')" using tree_ok_child [OF t i, of k] i' by auto
  then have "block_inv fin R (F(k \<mapsto> i')) k i'"
    using k by (simp add: block_inv_def derived_upd node_inv_same_shape [OF shape])
  moreover have "dom (F(k \<mapsto> i')) = dom F" using i by auto
  moreover have "ops_closed (F(k \<mapsto> i')) R"
    by (rule ops_closed_same_shape [OF shape ops_closed_tl [OF t s c]])
  ultimately show ?thesis
    using tree_ok_same_shape [OF shape t] s sum block_inv_other [OF inv i i']
    unfolding loop_inv_block by simp
qed

lemma loop_inv_absent:
  assumes inv: "loop_inv root fin (((k, l), op) # R) F" and "F k = None"
  shows "loop_inv root fin R F"
proof -
  let ?R = "((k, l), op) # R"
  from inv have t: "tree_ok root F" and s: "sorted_wrt (>) (map fst ?R)" and c: "ops_closed F ?R"
    by (auto simp: loop_inv_block)
  have "block_inv fin R F n j" if "F n = Some j" for n j
  proof -
    from that assms have n: "n \<noteq> k" and b: "block_inv fin ?R F n j" by (auto simp: loop_inv_block)
    have "op_add ?R n = op_add R n" "op_sub ?R n = op_sub R n"
      using n by (auto split: update_operation.split)
    with b n show ?thesis by (simp add: block_inv_def del: op_add.simps op_sub.simps)
  qed
  with inv ops_closed_tl [OF t s c] show ?thesis by (simp add: loop_inv_block)
qed

lemma pending_less:
  assumes "sorted_wrt (>) (map fst (((k, l), op) # R))"
  shows "((n, m), op') \<in> set R \<Longrightarrow> (n, m) < (k, l)" "(n, m) \<in> keys_of R \<Longrightarrow> (n, m) < (k, l)"
  using assms by (auto simp: keys_of_def)

lemma op_sub_zero:
  fixes R :: "'h::linorder op_list"
  assumes s: "sorted_wrt (>) (map fst (((k, l), op) # R))" and c: "ops_closed F R" and "k \<le> n" "l < L_Subtract"
  shows "op_sub R n = 0"
proof (rule op_zero(2) [OF _ c])
  fix x
  show "((n, L_Subtract), Op_Subtract x) \<notin> set R"
    using pending_less(1) [OF s, of n L_Subtract "Op_Subtract x"] assms(3,4) by auto
qed

lemma op_add_zero:
  fixes R :: "'h::linorder op_list"
  assumes s: "sorted_wrt (>) (map fst (((k, l), op) # R))" and c: "ops_closed F R" and "k \<le> n" "l < L_Add"
  shows "op_add R n = 0"
proof (rule op_zero(1) [OF _ c])
  fix x
  show "((n, L_Add), Op_Add x) \<notin> set R"
    using pending_less(1) [OF s, of n L_Add "Op_Add x"] assms(3,4) by auto
qed

text \<open>What an operation does to the block it targets, when it does not panic.\<close>

fun apply_op :: "'h::linorder fork_map \<Rightarrow> 'h slot_hash_key \<Rightarrow> update_operation \<Rightarrow> 'h fork_info \<Rightarrow> 'h fork_info" where
  "apply_op F k (Op_Add s) i =
     i\<lparr>stake_voted_at := stake_voted_at i + s, stake_voted_subtree := stake_voted_subtree i + s\<rparr>"
| "apply_op F k (Op_Subtract s) i =
     i\<lparr>stake_voted_at := stake_voted_at i - s, stake_voted_subtree := stake_voted_subtree i - s\<rparr>"
| "apply_op F k (Op_MarkValid s) i =
     (let i = update_with_newly_valid_ancestor s i
      in if fst k = s then i\<lparr>is_duplicate_confirmed := True\<rparr> else i)"
| "apply_op F k (Op_MarkInvalid s) i =
     (if (case latest_invalid_ancestor i of None \<Rightarrow> True | Some a \<Rightarrow> s > a)
      then i\<lparr>latest_invalid_ancestor := Some s\<rparr> else i)"
| "apply_op F k Op_Aggregate i = aggregated F k i"

definition apply_at ::
  "'h::linorder slot_hash_key \<Rightarrow> update_operation \<Rightarrow> 'h fork_infos \<Rightarrow> 'h fork_infos" where
  "apply_at k op infos =
     (case btm_get k infos of None \<Rightarrow> infos | Some i \<Rightarrow> btm_put k (apply_op (fm infos) k op i) infos)"

lemma update_valid_fields [simp]:
  "parent (update_with_newly_valid_ancestor s i) = parent i"
  "children (update_with_newly_valid_ancestor s i) = children i"
  "stake_voted_at (update_with_newly_valid_ancestor s i) = stake_voted_at i"
  "stake_voted_subtree (update_with_newly_valid_ancestor s i) = stake_voted_subtree i"
  "best_slot (update_with_newly_valid_ancestor s i) = best_slot i"
  "is_duplicate_confirmed (update_with_newly_valid_ancestor s i) = is_duplicate_confirmed i"
  "latest_invalid_ancestor (update_with_newly_valid_ancestor s i) =
     (case latest_invalid_ancestor i of None \<Rightarrow> None | Some a \<Rightarrow> if a \<le> s then None else Some a)"
  by (simp_all add: update_with_newly_valid_ancestor_def split: option.split)

lemma apply_op_shape [simp]:
  "parent (apply_op F k op i) = parent i" "children (apply_op F k op i) = children i"
  by (cases op; simp add: Let_def)+

text \<open>The head of the batch for one block, as facts about what is still pending.\<close>

lemma step_facts:
  assumes "loop_inv root fin (((k, l), op) # R) F" and i: "F k = Some i"
  shows "tree_ok root F" "sorted_wrt (>) (map fst (((k, l), op) # R))" "ops_closed F R" "l = label_of op"
    "block_inv fin (((k, l), op) # R) F k i" "k \<notin> set (children i)"
    "\<And>s. op = Op_MarkInvalid s \<or> op = Op_MarkValid s \<Longrightarrow> s \<le> fst k \<and> (k, L_Aggregate) \<in> keys_of R"
    "sum fin (dom F) < 2 ^ 64"
proof -
  let ?R = "((k, l), op) # R"
  from assms show t: "tree_ok root F" and s: "sorted_wrt (>) (map fst ?R)" and b: "block_inv fin ?R F k i"
    and "sum fin (dom F) < 2 ^ 64"
    by (auto simp: loop_inv_block)
  from assms have c: "ops_closed F ?R" by (simp add: loop_inv_block)
  show "ops_closed F R" by (rule ops_closed_tl [OF t s c])
  from c show l: "l = label_of op" unfolding ops_closed_def by (metis list.set_intros(1))
  show "k \<notin> set (children i)" using tree_ok_child [OF t i, of k] by auto
  show "s \<le> fst k \<and> (k, L_Aggregate) \<in> keys_of R" if o: "op = Op_MarkInvalid s \<or> op = Op_MarkValid s" for s
  proof -
    from c o have "s \<le> fst k \<and> (k, L_Aggregate) \<in> keys_of ?R"
      unfolding ops_closed_def by (metis list.set_intros(1))
    with o l show ?thesis by auto
  qed
qed

lemma step_add:
  assumes inv: "loop_inv root fin (((k, l), Op_Add s) # R) F" and i: "F k = Some i"
  shows "block_inv fin R F k (apply_op F k (Op_Add s) i)"
    and "stake_voted_at i + s < 2 ^ 64" "stake_voted_subtree i + s < 2 ^ 64"
proof -
  note f = step_facts [OF inv i]
  from f(2,3,4) have z: "op_sub R k = 0" by (auto intro!: op_sub_zero)
  from f(4) have notin: "(k, L_Aggregate) \<in> keys_of (((k, l), Op_Add s) # R) \<longleftrightarrow> (k, L_Aggregate) \<in> keys_of R"
    by simp
  note b = f(5) [unfolded block_inv_def notin]
  have "fin k \<le> sum fin (dom F)" using i tree_ok_finite [OF f(1)] by (intro member_le_sum) auto
  with b z f(8) show "stake_voted_at i + s < 2 ^ 64" "stake_voted_subtree i + s < 2 ^ 64" by auto
  have "derived F k i \<Longrightarrow> derived F k (apply_op F k (Op_Add s) i)"
    by (simp add: derived_shift)
  with b z show "block_inv fin R F k (apply_op F k (Op_Add s) i)"
    by (simp add: block_inv_def node_inv_def)
qed

lemma step_subtract:
  assumes inv: "loop_inv root fin (((k, l), Op_Subtract s) # R) F" and i: "F k = Some i"
  shows "block_inv fin R F k (apply_op F k (Op_Subtract s) i)"
    and "s \<le> stake_voted_at i" "s \<le> stake_voted_subtree i"
proof -
  note f = step_facts [OF inv i]
  from f(4) have notin: "(k, L_Aggregate) \<in> keys_of (((k, l), Op_Subtract s) # R) \<longleftrightarrow> (k, L_Aggregate) \<in> keys_of R"
    by simp
  note b = f(5) [unfolded block_inv_def notin]
  from b show s: "s \<le> stake_voted_at i" "s \<le> stake_voted_subtree i" by auto
  have "derived F k i \<Longrightarrow> derived F k (apply_op F k (Op_Subtract s) i)"
    using s by (simp add: derived_shift)
  with b s show "block_inv fin R F k (apply_op F k (Op_Subtract s) i)"
    by (auto simp: block_inv_def node_inv_def)
qed

lemma step_mark_valid:
  assumes inv: "loop_inv root fin (((k, l), Op_MarkValid s) # R) F" and i: "F k = Some i"
  shows "block_inv fin R F k (apply_op F k (Op_MarkValid s) i)"
proof -
  note f = step_facts [OF inv i]
  have agg: "(k, L_Aggregate) \<in> keys_of R" "s \<le> fst k" using f(7) by auto
  have "(k, L_MarkInvalid t) \<notin> keys_of R" for t
    using pending_less(2) [OF f(2), of k "L_MarkInvalid t"] f(4) by auto
  with f(5) agg show ?thesis
    by (auto simp: block_inv_def node_inv_def Let_def split: option.splits)
qed

lemma step_mark_invalid:
  assumes inv: "loop_inv root fin (((k, l), Op_MarkInvalid s) # R) F" and i: "F k = Some i"
  shows "block_inv fin R F k (apply_op F k (Op_MarkInvalid s) i)" and "\<not> is_duplicate_confirmed i"
proof -
  note f = step_facts [OF inv i]
  have agg: "(k, L_Aggregate) \<in> keys_of R" "s \<le> fst k" using f(7) by auto
  from f(5) f(4) show "\<not> is_duplicate_confirmed i" by (auto simp: block_inv_def)
  with f(5) agg show "block_inv fin R F k (apply_op F k (Op_MarkInvalid s) i)"
    by (auto simp: block_inv_def node_inv_def split: option.splits)
qed

lemma step_aggregate:
  assumes inv: "loop_inv root fin (((k, l), Op_Aggregate) # R) F" and i: "F k = Some i"
  shows "block_inv fin R F k (apply_op F k Op_Aggregate i)" and "weight_of F i < 2 ^ 64"
proof -
  let ?R = "((k, l), Op_Aggregate) # R"
  note f = step_facts [OF inv i]
  have l: "l = L_Aggregate" using f(4) by simp
  have z: "op_sub R n = 0" "op_add R n = 0" if "k \<le> n" for n
    using that l by (auto intro!: op_sub_zero [OF f(2,3)] op_add_zero [OF f(2,3)])
  have blk: "block_inv fin ?R F n j" if "F n = Some j" for n j
    using inv that by (simp add: loop_inv_block)
  have at: "stake_voted_at (info F n) = fin n" if n: "n \<in> subtree F k" for n
  proof -
    obtain j where j: "F n = Some j" using subtree_dom [OF f(1)] i n by blast
    have "k \<le> n" using subtree_slot [OF f(1) n] key_less [of k n] by auto
    with blk [OF j] z [of n] j show ?thesis by (simp add: block_inv_def)
  qed
  have w: "weight F n = weight_of F (info F n)" if n: "n \<in> subtree F k" "n \<noteq> k" for n
  proof -
    obtain j where j: "F n = Some j" using subtree_dom [OF f(1)] i n by blast
    have "k < n" using subtree_slot [OF f(1) n(1)] n(2) key_less [of k n] by auto
    then have "(n, L_Aggregate) \<notin> keys_of ?R"
      using pending_less(2) [OF f(2), of n L_Aggregate] l by auto
    with blk [OF j] have "derived F n j" by (simp add: block_inv_def)
    with j show ?thesis by (simp add: derived_def weight_def)
  qed
  have kd: "k \<in> dom F" using i by blast
  from subtree_weight [OF f(1) kd w] have sum: "weight_of F i = sum fin (subtree F k)"
    using i at by simp
  also have "\<dots> \<le> sum fin (dom F)"
    using subtree_dom [OF f(1) kd] tree_ok_finite [OF f(1)] by (intro sum_mono2) auto
  finally show wb: "weight_of F i < 2 ^ 64" using f(8) by simp
  have "best_slot (info F c) \<in> subtree F c" if "c \<in> set (children i)" for c
    using tree_ok_child [OF f(1) i that] blk [of c] by (auto simp: block_inv_def node_inv_def)
  then have "best_of F k i \<in> subtree F k" by (rule best_of_subtree [of F k i, OF i])
  moreover have "(k, L_MarkInvalid t) \<notin> keys_of R" for t
    using pending_less(2) [OF f(2), of k "L_MarkInvalid t"] l by auto
  ultimately show "block_inv fin R F k (apply_op F k Op_Aggregate i)"
    using blk [OF i] z [of k] wb derived_aggregated [of F k i]
    by (auto simp: block_inv_def node_inv_def)
qed

lemma step_block:
  "loop_inv root fin (((k, l), op) # R) F \<Longrightarrow> F k = Some i \<Longrightarrow> block_inv fin R F k (apply_op F k op i)"
  by (cases op) (simp_all only: step_add step_subtract step_mark_valid step_mark_invalid step_aggregate)

lemma process_step:
  assumes inv: "loop_inv root fin (((k, l), op) # R) (fm infos)"
  shows "process_update_operation ((k, l), op) infos = Some (apply_at k op infos)"
    and "loop_inv root fin R (fm (apply_at k op infos))"
proof -
  show "loop_inv root fin R (fm (apply_at k op infos))"
  proof (cases "fm infos k")
    case None
    with loop_inv_absent [OF inv] show ?thesis by (simp add: apply_at_def)
  next
    case (Some i)
    with loop_inv_step [OF inv Some _ _ step_block [OF inv Some]] show ?thesis by (simp add: apply_at_def)
  qed
  show "process_update_operation ((k, l), op) infos = Some (apply_at k op infos)"
  proof (cases "fm infos k")
    case None
    then show ?thesis
      by (cases op) (simp_all add: apply_at_def add_slot_stake_def subtract_slot_stake_def mark_fork_valid_def
          mark_fork_invalid_def aggregate_slot_def)
  next
    case (Some i)
    note f = step_facts [OF inv Some]
    show ?thesis
    proof (cases op)
      case (Op_Add s)
      with step_add [of root fin k l s R "fm infos" i] inv Some show ?thesis
        by (simp add: apply_at_def add_slot_stake_def add64_def)
    next
      case (Op_MarkValid s)
      with Some show ?thesis by (simp add: apply_at_def mark_fork_valid_def Let_def)
    next
      case (Op_MarkInvalid s)
      with step_mark_invalid [of root fin k l s R "fm infos" i] inv Some show ?thesis
        by (simp add: apply_at_def mark_fork_invalid_def update_with_newly_invalid_ancestor_def)
    next
      case (Op_Subtract s)
      with step_subtract [of root fin k l s R "fm infos" i] inv Some show ?thesis
        by (simp add: apply_at_def subtract_slot_stake_def sub64_def)
    next
      case Op_Aggregate
      have "\<forall>c \<in> set (children i). fm infos c \<noteq> None" using tree_ok_child [OF f(1) Some] by fastforce
      with Op_Aggregate step_aggregate(2) [of root fin k l R "fm infos" i] inv Some f(6) show ?thesis
        by (simp add: apply_at_def aggregate_slot_eq)
    qed
  qed
qed

text \<open>
  The whole loop. \<open>Q\<close> is whatever else is to be tracked along it.
\<close>

lemma process_run:
  assumes "loop_inv root fin R (fm infos)" "Q R infos"
    and step: "\<And>k l op R infos. loop_inv root fin (((k, l), op) # R) (fm infos) \<Longrightarrow>
      Q (((k, l), op) # R) infos \<Longrightarrow> Q R (apply_at k op infos)"
  shows "\<exists>infos'. run_list process_update_operation R infos = Some infos' \<and>
    loop_inv root fin [] (fm infos') \<and> Q [] infos'"
  using assms(1,2)
proof (induction R arbitrary: infos)
  case Nil
  then show ?case by simp
next
  case (Cons p R)
  obtain k l op where p: "p = ((k, l), op)" by (metis surj_pair)
  from Cons.prems(1) p have inv: "loop_inv root fin (((k, l), op) # R) (fm infos)" by simp
  from Cons.IH [OF process_step(2) [OF inv]] step [OF inv] Cons.prems(2) p process_step(1) [OF inv]
  show ?case by simp
qed

lemma apply_at_same_shape: "same_shape (fm infos) (fm (apply_at k op infos))"
  by (cases "btm_get k infos") (simp_all add: apply_at_def same_shape_upd)

lemma apply_at_btm_ok: "btm_ok infos \<Longrightarrow> btm_ok (apply_at k op infos)"
  by (cases "btm_get k infos") (simp_all add: apply_at_def btm_ok_put)

end
