(* ===== verification/Fork_Votes.thy ===== *)
theory Fork_Votes
  imports Fork_Update
begin

text \<open>
  The invariant of the fork choice, and \<open>add_votes\<close>: generating the batch of updates for new votes
  and processing it keeps the invariant, without panic, when the stakes of all voters fit into 64 bits.
\<close>

section \<open>The invariant\<close>

definition voted_for :: "('p, 'h slot_hash_key) btree_map \<Rightarrow> 'h slot_hash_key \<Rightarrow> 'p set" where
  "voted_for votes k = {p. btm_get p votes = Some k}"

definition tally :: "(slot \<Rightarrow> 'p \<Rightarrow> nat) \<Rightarrow> ('p, 'h slot_hash_key) btree_map \<Rightarrow> 'h slot_hash_key \<Rightarrow> nat" where
  "tally stake_of votes k = sum (stake_of (fst k)) (voted_for votes k)"

definition marks_ok :: "'h fork_map \<Rightarrow> bool" where
  "marks_ok F \<longleftrightarrow> (\<forall>k i a c. F k = Some i \<longrightarrow> latest_invalid_ancestor i = Some a \<longrightarrow> c \<in> set (children i) \<longrightarrow>
     (\<exists>b. latest_invalid_ancestor (info F c) = Some b \<and> a \<le> b))"

definition fc_inv :: "(slot \<Rightarrow> 'p \<Rightarrow> nat) \<Rightarrow> 'p set \<Rightarrow> ('h::linorder, 'p::linorder) fork_choice \<Rightarrow> bool" where
  "fc_inv stake_of voters s \<longleftrightarrow> btm_ok (fork_infos s) \<and> btm_ok (latest_votes s) \<and>
     tree_ok (tree_root s) (fm (fork_infos s)) \<and> marks_ok (fm (fork_infos s)) \<and>
     fst ` set (latest_votes s) \<subseteq> voters \<and>
     (\<forall>k i. btm_get k (fork_infos s) = Some i \<longrightarrow>
        node_inv (fm (fork_infos s)) k i \<and> derived (fm (fork_infos s)) k i \<and>
        stake_voted_at i = tally stake_of (latest_votes s) k)"

text \<open>The stakes of all voters, whatever the epoch, sum to a 64-bit number.\<close>

definition stakes_ok :: "(slot \<Rightarrow> 'p \<Rightarrow> nat) \<Rightarrow> ('p \<Rightarrow> nat) \<Rightarrow> 'p set \<Rightarrow> bool" where
  "stakes_ok stake_of cap voters \<longleftrightarrow> finite voters \<and> (\<forall>s p. stake_of s p \<le> cap p) \<and> sum cap voters < 2 ^ 64"

lemma btm_get_key: "btm_get p m = Some v \<Longrightarrow> p \<in> fst ` set m"
  using btm_get_None_iff [of p m] by fastforce

lemma voted_for_voters: "fst ` set votes \<subseteq> voters \<Longrightarrow> voted_for votes k \<subseteq> voters"
  by (auto simp: voted_for_def dest!: btm_get_key)

lemma cap_sum:
  assumes "stakes_ok stake_of cap voters" "A \<subseteq> voters"
  shows "sum (stake_of s) A \<le> sum cap A" "sum cap A < 2 ^ 64" "finite A"
proof -
  show fin: "finite A" using assms by (auto simp: stakes_ok_def intro: finite_subset)
  show "sum (stake_of s) A \<le> sum cap A" using assms by (auto simp: stakes_ok_def intro: sum_mono)
  have "sum cap A \<le> sum cap voters" using assms by (auto simp: stakes_ok_def intro: sum_mono2)
  with assms show "sum cap A < 2 ^ 64" by (simp add: stakes_ok_def)
qed

lemma sum_tally:
  assumes ok: "stakes_ok stake_of cap voters" and v: "fst ` set votes \<subseteq> voters" and K: "finite K"
  shows "sum (tally stake_of votes) K \<le> sum cap (\<Union>k \<in> K. voted_for votes k)"
proof -
  note c = cap_sum [OF ok voted_for_voters [OF v]]
  have "sum (tally stake_of votes) K \<le> (\<Sum>k \<in> K. sum cap (voted_for votes k))"
    unfolding tally_def by (intro sum_mono c(1))
  also have "\<dots> = sum cap (\<Union>k \<in> K. voted_for votes k)"
    using K c(3) by (intro sum.UNION_disjoint [symmetric]) (auto simp: voted_for_def)
  finally show ?thesis .
qed

lemma fc_inv_weight:
  assumes inv: "fc_inv stake_of voters s" and k: "btm_get k (fork_infos s) = Some i"
  shows "stake_voted_subtree i = sum (tally stake_of (latest_votes s)) (subtree (fm (fork_infos s)) k)"
proof -
  let ?F = "fm (fork_infos s)"
  have t: "tree_ok (tree_root s) ?F" using inv by (simp add: fc_inv_def)
  have d: "derived ?F n j" "stake_voted_at j = tally stake_of (latest_votes s) n" if "?F n = Some j" for n j
    using inv that by (auto simp: fc_inv_def)
  have "k \<in> dom ?F" using k by blast
  note sub = subtree_dom [OF t this]
  have w: "weight ?F n = weight_of ?F (info ?F n)" if "n \<in> subtree ?F k" for n
  proof -
    from sub that obtain j where "?F n = Some j" by blast
    with d(1) [OF this] show ?thesis by (simp add: derived_def weight_def)
  qed
  have "stake_voted_subtree i = weight_of ?F (info ?F k)" using d(1) [OF k] k by (simp add: derived_def)
  also have "\<dots> = (\<Sum>n \<in> subtree ?F k. stake_voted_at (info ?F n))"
    using subtree_weight [OF t \<open>k \<in> dom ?F\<close>] w by blast
  also have "\<dots> = sum (tally stake_of (latest_votes s)) (subtree ?F k)"
  proof (rule sum.cong)
    fix n
    assume "n \<in> subtree ?F k"
    with sub obtain j where "?F n = Some j" by blast
    with d(2) [OF this] show "stake_voted_at (info ?F n) = tally stake_of (latest_votes s) n" by simp
  qed simp
  finally show ?thesis .
qed

section \<open>Generating the batch\<close>

definition later :: "'h::linorder slot_hash_key \<Rightarrow> 'h slot_hash_key \<Rightarrow> bool" where
  "later n old \<longleftrightarrow> fst old < fst n \<or> fst old = fst n \<and> snd n < snd old"

definition got_add :: "'h update_operations \<Rightarrow> 'h slot_hash_key \<Rightarrow> nat" where
  "got_add ops k = (case btm_get (k, L_Add) ops of Some (Op_Add s) \<Rightarrow> s | _ \<Rightarrow> 0)"

definition got_sub :: "'h update_operations \<Rightarrow> 'h slot_hash_key \<Rightarrow> nat" where
  "got_sub ops k = (case btm_get (k, L_Subtract) ops of Some (Op_Subtract s) \<Rightarrow> s | _ \<Rightarrow> 0)"

text \<open>Batches without marks that are closed under parents, the entries at the blocks of \<open>X\<close> excepted.\<close>

definition vote_ops :: "'h fork_map \<Rightarrow> 'h slot_hash_key set \<Rightarrow> 'h::linorder update_operations \<Rightarrow> bool" where
  "vote_ops F X ops \<longleftrightarrow> btm_ok ops \<and> (\<forall>k l op. btm_get (k, l) ops = Some op \<longrightarrow>
     l = label_of op \<and> l \<in> {L_Aggregate, L_Add, L_Subtract} \<and>
     (k \<notin> X \<longrightarrow> (\<forall>i p. F k = Some i \<longrightarrow> parent i = Some p \<longrightarrow> btm_get (p, L_Aggregate) ops \<noteq> None)))"

lemma ancestor_next_fm: "ancestor_next infos k = (case fm infos k of None \<Rightarrow> None | Some i \<Rightarrow> parent i)"
  by (simp add: ancestor_next_def)

lemma vote_opsD:
  "vote_ops F X ops \<Longrightarrow> btm_get (k, l) ops = Some op \<Longrightarrow> l = label_of op \<and> l \<in> {L_Aggregate, L_Add, L_Subtract}"
  "vote_ops F X ops \<Longrightarrow> btm_get (k, l) ops = Some op \<Longrightarrow> k \<notin> X \<Longrightarrow> F k = Some i \<Longrightarrow> parent i = Some p \<Longrightarrow>
    btm_get (p, L_Aggregate) ops \<noteq> None"
  unfolding vote_ops_def by blast+

lemma vote_opsI:
  assumes "btm_ok ops"
    and "\<And>k l op. btm_get (k, l) ops = Some op \<Longrightarrow> l = label_of op \<and> l \<in> {L_Aggregate, L_Add, L_Subtract}"
    and "\<And>k l op i p. btm_get (k, l) ops = Some op \<Longrightarrow> k \<notin> X \<Longrightarrow> F k = Some i \<Longrightarrow> parent i = Some p \<Longrightarrow>
      btm_get (p, L_Aggregate) ops \<noteq> None"
  shows "vote_ops F X ops"
  using assms unfolding vote_ops_def by blast

lemma vote_ops_parent:
  assumes v: "vote_ops F (insert k X) ops"
    and k: "\<And>i p. F k = Some i \<Longrightarrow> parent i = Some p \<Longrightarrow> btm_get (p, L_Aggregate) ops \<noteq> None"
  shows "vote_ops F X ops"
proof (rule vote_opsI)
  show "btm_ok ops" using v by (simp add: vote_ops_def)
  fix n l op
  assume n: "btm_get (n, l) ops = Some op"
  from vote_opsD(1) [OF v n] show "l = label_of op \<and> l \<in> {L_Aggregate, L_Add, L_Subtract}" .
  fix i p
  assume "n \<notin> X" "F n = Some i" "parent i = Some p"
  then show "btm_get (p, L_Aggregate) ops \<noteq> None"
    using vote_opsD(2) [OF v n, of i p] k [of i p] by (cases "n = k") simp_all
qed

lemma vote_ops_put:
  assumes v: "vote_ops F X ops" and l: "l = label_of op" "l \<in> {L_Aggregate, L_Add, L_Subtract}"
  shows "vote_ops F (insert k X) (btm_put (k, l) op ops)"
proof (rule vote_opsI)
  show "btm_ok (btm_put (k, l) op ops)" using v by (auto simp: vote_ops_def)
  fix n m op'
  assume n: "btm_get (n, m) (btm_put (k, l) op ops) = Some op'"
  show "m = label_of op' \<and> m \<in> {L_Aggregate, L_Add, L_Subtract}"
    using n l vote_opsD(1) [OF v, of n m op'] by (auto simp: btm_get_put split: if_splits)
  fix i p
  assume "n \<notin> insert k X" "F n = Some i" "parent i = Some p"
  with n vote_opsD(2) [OF v, of n m op' i p] show "btm_get (p, L_Aggregate) (btm_put (k, l) op ops) \<noteq> None"
    by (simp add: btm_get_put)
qed

lemma insert_across_ok:
  assumes t: "tree_ok root (fm infos)" and "vote_ops (fm infos) {k} ops"
  shows "\<exists>ops'. do_insert_aggregate_operations_across_ancestors infos None k ops = Some ops' \<and>
    vote_ops (fm infos) {} ops' \<and> got_add ops' = got_add ops \<and> got_sub ops' = got_sub ops"
  using assms(2)
proof (induction "fst k" arbitrary: k ops rule: less_induct)
  case less
  let ?F = "fm infos"
  note unfold = do_insert_aggregate_operations_across_ancestors.simps [of infos None k ops]
  show ?case
  proof (cases "ancestor_next infos k")
    case None
    then have "vote_ops ?F {} ops"
      by (intro vote_ops_parent [OF less.prems]) (auto simp: ancestor_next_def)
    with None show ?thesis by (subst unfold) simp
  next
    case (Some p)
    then obtain i where i: "?F k = Some i" "parent i = Some p"
      by (auto simp: ancestor_next_def split: option.splits)
    show ?thesis
    proof (cases "btm_get (p, L_Aggregate) ops")
      case None
      let ?ops = "btm_put (p, L_Aggregate) Op_Aggregate ops"
      have v: "vote_ops ?F {p} ?ops"
      proof (rule vote_ops_parent [of _ k])
        show "vote_ops ?F {k, p} ?ops"
          using vote_ops_put [OF less.prems, of L_Aggregate Op_Aggregate p] by (simp add: insert_commute)
        show "btm_get (q, L_Aggregate) ?ops \<noteq> None" if "?F k = Some j" "parent j = Some q" for j q
          using that i by (simp add: btm_get_put)
      qed
      have "fst p < fst k" using tree_ok_parent [OF t i] by simp
      from less.hyps [OF this v] obtain ops' where
        "do_insert_aggregate_operations_across_ancestors infos None p ?ops = Some ops'"
        "vote_ops ?F {} ops'" "got_add ops' = got_add ?ops" "got_sub ops' = got_sub ?ops" by blast
      moreover have "got_add ?ops = got_add ops" "got_sub ?ops = got_sub ops"
        by (auto simp: got_add_def got_sub_def btm_get_put)
      ultimately show ?thesis using Some None
        by (subst unfold) (simp add: do_insert_aggregate_operation_def)
    next
      case (Some op)
      with i have "vote_ops ?F {} ops" by (intro vote_ops_parent [OF less.prems]) auto
      with Some \<open>ancestor_next infos k = Some p\<close> show ?thesis
        by (subst unfold) (simp add: do_insert_aggregate_operation_def)
    qed
  qed
qed

lemma upsert_add_ok:
  assumes "vote_ops F {} ops" "got_add ops k + s < 2 ^ 64"
  shows "\<exists>ops'. upsert_stake (k, L_Add) s (Op_Add s) ops = Some ops' \<and> vote_ops F {k} ops' \<and>
    got_add ops' = (got_add ops)(k := got_add ops k + s) \<and> got_sub ops' = got_sub ops"
proof (cases "btm_get (k, L_Add) ops")
  case None
  with assms(1) have "vote_ops F {k} (btm_put (k, L_Add) (Op_Add s) ops)"
    by (intro vote_ops_put) simp_all
  with None show ?thesis
    by (auto simp: upsert_stake_def got_add_def got_sub_def btm_get_put)
next
  case (Some op)
  with assms(1) have "L_Add = label_of op" unfolding vote_ops_def by blast
  then obtain t where op: "op = Op_Add t" by (cases op) auto
  with assms(1) have "vote_ops F {k} (btm_put (k, L_Add) (Op_Add (t + s)) ops)"
    by (intro vote_ops_put) simp_all
  with Some op assms(2) show ?thesis
    by (auto simp: upsert_stake_def got_add_def got_sub_def btm_get_put add64_def)
qed

lemma upsert_sub_ok:
  assumes "vote_ops F {} ops" "got_sub ops k + s < 2 ^ 64"
  shows "\<exists>ops'. upsert_stake (k, L_Subtract) s (Op_Subtract s) ops = Some ops' \<and> vote_ops F {k} ops' \<and>
    got_sub ops' = (got_sub ops)(k := got_sub ops k + s) \<and> got_add ops' = got_add ops"
proof (cases "btm_get (k, L_Subtract) ops")
  case None
  with assms(1) have "vote_ops F {k} (btm_put (k, L_Subtract) (Op_Subtract s) ops)"
    by (intro vote_ops_put) simp_all
  with None show ?thesis
    by (auto simp: upsert_stake_def got_add_def got_sub_def btm_get_put)
next
  case (Some op)
  with assms(1) have "L_Subtract = label_of op" unfolding vote_ops_def by blast
  then obtain t where op: "op = Op_Subtract t" by (cases op) auto
  with assms(1) have "vote_ops F {k} (btm_put (k, L_Subtract) (Op_Subtract (t + s)) ops)"
    by (intro vote_ops_put) simp_all
  with Some op assms(2) show ?thesis
    by (auto simp: upsert_stake_def got_add_def got_sub_def btm_get_put add64_def)
qed

text \<open>Whether a vote replaces the latest vote of its account.\<close>

definition accepts :: "slot \<Rightarrow> 'h::linorder slot_hash_key option \<Rightarrow> 'h slot_hash_key \<Rightarrow> bool" where
  "accepts root_slot old n \<longleftrightarrow> root_slot \<le> fst n \<and> (case old of None \<Rightarrow> True | Some k \<Rightarrow> later n k)"

definition gen_inv ::
  "'h::linorder fork_map \<Rightarrow> (slot \<Rightarrow> 'p::linorder \<Rightarrow> nat) \<Rightarrow> 'p set \<Rightarrow> ('p, 'h slot_hash_key) btree_map \<Rightarrow> 'p set \<Rightarrow>
    ('h, 'p) votes_state \<Rightarrow> bool" where
  "gen_inv F stake_of voters votes0 seen = (\<lambda>(votes, ops, observed).
     btm_ok votes \<and> vote_ops F {} ops \<and> fst ` set votes \<subseteq> voters \<and> fst ` set observed \<subseteq> seen \<and>
     (\<forall>p. p \<notin> fst ` set observed \<longrightarrow> btm_get p votes = btm_get p votes0) \<and>
     (\<forall>p old. btm_get p votes0 = Some old \<longrightarrow>
        (\<exists>n. btm_get p votes = Some n \<and> (n = old \<or> later n old))) \<and>
     (\<forall>k. got_sub ops k = sum (stake_of (fst k)) (voted_for votes0 k - voted_for votes k)) \<and>
     (\<forall>k. got_add ops k = sum (stake_of (fst k)) (voted_for votes k - voted_for votes0 k)))"

lemma later_irrefl: "\<not> later k k"
  by (simp add: later_def)

lemma not_later_iff:
  "\<not> later n old \<longleftrightarrow> fst n < fst old \<or> fst n = fst old \<and> snd old \<le> snd n"
  by (auto simp: later_def)

lemma voted_for_put:
  "voted_for (btm_put p n votes) k = (if k = n then insert p (voted_for votes k) else voted_for votes k - {p})"
  by (auto simp: voted_for_def btm_get_put)

lemma retract_vote_ok:
  assumes t: "tree_ok root (fm infos)" and v: "vote_ops (fm infos) {} ops"
    and bound: "got_sub ops old + stake_of (fst old) p < 2 ^ 64" and l: "later n old"
  shows "\<exists>ops'. retract_vote stake_of infos p n old ops = Some ops' \<and> vote_ops (fm infos) {} ops' \<and>
    got_add ops' = got_add ops \<and> got_sub ops' = (got_sub ops)(old := got_sub ops old + stake_of (fst old) p)"
proof -
  let ?s = "stake_of (fst old) p"
  have as: "if fst n = fst old then snd n < snd old else fst old < fst n" using l by (auto simp: later_def)
  show ?thesis
  proof (cases "?s > 0")
    case False
    with as v show ?thesis by (simp add: retract_vote_def fun_upd_idem)
  next
    case True
    from upsert_sub_ok [OF v bound] obtain o1 where o1:
      "upsert_stake (old, L_Subtract) ?s (Op_Subtract ?s) ops = Some o1" "vote_ops (fm infos) {old} o1"
      "got_sub o1 = (got_sub ops)(old := got_sub ops old + ?s)" "got_add o1 = got_add ops" by blast
    from insert_across_ok [OF t o1(2)] o1 True as show ?thesis
      by (auto simp: retract_vote_def insert_aggregate_operations_def)
  qed
qed

lemma generate_ops_ok:
  assumes t: "tree_ok root (fm infos)" and v: "vote_ops (fm infos) {} ops"
    and sub: "\<And>old. btm_get p votes = Some old \<Longrightarrow> got_sub ops old + stake_of (fst old) p < 2 ^ 64"
    and add: "got_add ops n + stake_of (fst n) p < 2 ^ 64"
    and obs: "btm_get p observed = None" and acc: "accepts root_slot (btm_get p votes) n"
  shows "\<exists>ops'. generate_for_vote stake_of infos root_slot (p, n) (votes, ops, observed) =
      Some (btm_put p n votes, ops', btm_put p (fst n) observed) \<and> vote_ops (fm infos) {} ops' \<and>
    got_add ops' = (got_add ops)(n := got_add ops n + stake_of (fst n) p) \<and>
    got_sub ops' = (case btm_get p votes of None \<Rightarrow> got_sub ops
      | Some old \<Rightarrow> (got_sub ops)(old := got_sub ops old + stake_of (fst old) p))"
proof -
  let ?F = "fm infos"
  have "\<exists>ops1. (case btm_get p votes of None \<Rightarrow> Some ops | Some old \<Rightarrow> retract_vote stake_of infos p n old ops) =
      Some ops1 \<and> vote_ops ?F {} ops1 \<and> got_add ops1 = got_add ops \<and>
      got_sub ops1 = (case btm_get p votes of None \<Rightarrow> got_sub ops
        | Some old \<Rightarrow> (got_sub ops)(old := got_sub ops old + stake_of (fst old) p))"
  proof (cases "btm_get p votes")
    case (Some old)
    with retract_vote_ok [OF t v, of old stake_of p n] sub [of old] acc show ?thesis by (simp add: accepts_def)
  qed (simp add: v)
  then obtain ops1 where o1:
      "(case btm_get p votes of None \<Rightarrow> Some ops | Some old \<Rightarrow> retract_vote stake_of infos p n old ops) = Some ops1"
    and v1: "vote_ops ?F {} ops1" and a1: "got_add ops1 = got_add ops"
    and s1: "got_sub ops1 = (case btm_get p votes of None \<Rightarrow> got_sub ops
        | Some old \<Rightarrow> (got_sub ops)(old := got_sub ops old + stake_of (fst old) p))"
    by blast
  from upsert_add_ok [OF v1, of n "stake_of (fst n) p"] add a1 obtain o2 where o2:
    "upsert_stake (n, L_Add) (stake_of (fst n) p) (Op_Add (stake_of (fst n) p)) ops1 = Some o2"
    "vote_ops ?F {n} o2" "got_add o2 = (got_add ops)(n := got_add ops n + stake_of (fst n) p)"
    "got_sub o2 = got_sub ops1" by auto
  from insert_across_ok [OF t o2(2)] obtain o3 where o3:
    "insert_aggregate_operations infos n o2 = Some o3" "vote_ops ?F {} o3"
    "got_add o3 = got_add o2" "got_sub o3 = got_sub o2"
    unfolding insert_aggregate_operations_def by blast
  obtain ns nh where n: "n = (ns, nh)" by (metis surj_pair)
  have keep: "\<not> (case btm_get p votes of None \<Rightarrow> False
      | Some (old_slot, old_hash) \<Rightarrow> ns < old_slot \<or> ns = old_slot \<and> nh \<ge> old_hash)"
    using acc n by (auto simp: accepts_def later_def split: option.splits)
  have "generate_for_vote stake_of infos root_slot (p, n) (votes, ops, observed) =
      Some (btm_put p n votes, o3, btm_put p (fst n) observed)"
    using acc obs keep o1 [unfolded n] o2(1) o3(1) by (simp add: generate_for_vote_def n accepts_def)
  with o3 o2 s1 show ?thesis by auto
qed

lemma generate_skip:
  assumes "btm_get p observed = None" "\<not> accepts root_slot (btm_get p votes) n"
  shows "generate_for_vote stake_of infos root_slot (p, n) (votes, ops, observed) =
    Some (votes, ops, if fst n < root_slot then observed else btm_put p (fst n) observed)"
  using assms
  by (cases n; cases "btm_get p votes") (auto simp: generate_for_vote_def accepts_def later_def Let_def)

lemma generate_step:
  assumes t: "tree_ok root (fm infos)" and ok: "stakes_ok stake_of cap voters"
    and v0: "fst ` set votes0 \<subseteq> voters"
    and inv: "gen_inv (fm infos) stake_of voters votes0 seen (votes, ops, observed)"
    and p: "p \<notin> seen" "p \<in> voters"
  shows "\<exists>st. generate_for_vote stake_of infos root_slot (p, n) (votes, ops, observed) = Some st \<and>
    gen_inv (fm infos) stake_of voters votes0 (insert p seen) st \<and>
    (\<forall>q. btm_get q (fst st) = (if q = p \<and> accepts root_slot (btm_get p votes) n then Some n else btm_get q votes))"
proof -
  from inv have b: "btm_ok votes" "vote_ops (fm infos) {} ops" "fst ` set votes \<subseteq> voters"
      "fst ` set observed \<subseteq> seen"
    and same: "\<And>q. q \<notin> fst ` set observed \<Longrightarrow> btm_get q votes = btm_get q votes0"
    and mono: "\<And>q old. btm_get q votes0 = Some old \<Longrightarrow> \<exists>n. btm_get q votes = Some n \<and> (n = old \<or> later n old)"
    and subs: "\<And>k. got_sub ops k = sum (stake_of (fst k)) (voted_for votes0 k - voted_for votes k)"
    and adds: "\<And>k. got_add ops k = sum (stake_of (fst k)) (voted_for votes k - voted_for votes0 k)"
    by (auto simp: gen_inv_def)
  from p(1) b(4) have obs: "p \<notin> fst ` set observed" by blast
  then have obs': "btm_get p observed = None" by (simp add: btm_get_None_iff)
  have eq: "btm_get p votes = btm_get p votes0" using obs by (rule same)
  show ?thesis
  proof (cases "accepts root_slot (btm_get p votes) n")
    case False
    with inv generate_skip [OF obs' False, of stake_of infos ops] show ?thesis
      by (auto simp: gen_inv_def)
  next
    case True
    let ?S = "\<lambda>k. voted_for votes0 k - voted_for votes k" and ?A = "\<lambda>k. voted_for votes k - voted_for votes0 k"
    have notin: "p \<notin> ?S k" "p \<notin> ?A k" for k using eq by (auto simp: voted_for_def)
    have sub: "insert p (?S k) \<subseteq> voters" "insert p (?A k) \<subseteq> voters" for k
      using p(2) voted_for_voters [OF v0, of k] voted_for_voters [OF b(3), of k] by auto
    note cs = cap_sum [OF ok sub(1)] and ca = cap_sum [OF ok sub(2)]
    have Ssum: "sum (stake_of (fst k)) (insert p (?S k)) = got_sub ops k + stake_of (fst k) p" for k
      using notin(1) [of k] cs(3) [of k] by (simp add: subs)
    have Asum: "sum (stake_of (fst k)) (insert p (?A k)) = got_add ops k + stake_of (fst k) p" for k
      using notin(2) [of k] ca(3) [of k] by (simp add: adds)
    have sb: "got_sub ops k + stake_of (fst k) p < 2 ^ 64" "got_add ops k + stake_of (fst k) p < 2 ^ 64" for k
      unfolding Ssum [symmetric] Asum [symmetric] using cs(1,2) ca(1,2) by (meson le_less_trans)+
    from generate_ops_ok [where stake_of = stake_of, OF t b(2) _ _ obs' True] sb obtain ops' where g:
      "generate_for_vote stake_of infos root_slot (p, n) (votes, ops, observed) =
        Some (btm_put p n votes, ops', btm_put p (fst n) observed)" "vote_ops (fm infos) {} ops'"
      "got_add ops' = (got_add ops)(n := got_add ops n + stake_of (fst n) p)"
      "got_sub ops' = (case btm_get p votes of None \<Rightarrow> got_sub ops
        | Some old \<Rightarrow> (got_sub ops)(old := got_sub ops old + stake_of (fst old) p))" by blast
    have ne: "btm_get p votes \<noteq> Some n" using True later_irrefl [of n] by (auto simp: accepts_def)
    have A': "voted_for (btm_put p n votes) k - voted_for votes0 k = (if k = n then insert p (?A k) else ?A k)" for k
      using notin [of k] ne eq by (auto simp: voted_for_put) (auto simp: voted_for_def)
    have S': "voted_for votes0 k - voted_for (btm_put p n votes) k =
        (if btm_get p votes = Some k then insert p (?S k) else ?S k)" for k
      using notin [of k] ne eq by (auto simp: voted_for_put) (auto simp: voted_for_def)
    have "got_add ops' k = sum (stake_of (fst k)) (voted_for (btm_put p n votes) k - voted_for votes0 k)" for k
    proof (cases "k = n")
      case True
      with Asum [of n] show ?thesis by (simp add: A' g(3))
    next
      case False
      with adds [of k] show ?thesis by (simp add: A' g(3))
    qed
    moreover have "got_sub ops' k = sum (stake_of (fst k)) (voted_for votes0 k - voted_for (btm_put p n votes) k)" for k
      unfolding S' using Ssum [of k] subs [of k] by (simp add: g(4) split: option.split)
    moreover have "\<exists>m. btm_get q (btm_put p n votes) = Some m \<and> (m = old \<or> later m old)"
      if "btm_get q votes0 = Some old" for q old
      using mono [OF that] True eq that by (auto simp: btm_get_put accepts_def)
    moreover have "btm_get q (btm_put p n votes) = btm_get q votes0"
      if "q \<notin> fst ` set (btm_put p (fst n) observed)" for q
      using that same by (simp add: btm_get_put)
    ultimately have "gen_inv (fm infos) stake_of voters votes0 (insert p seen)
        (btm_put p n votes, ops', btm_put p (fst n) observed)"
      using b p(2) g(2) unfolding gen_inv_def by (auto simp: btm_ok_put)
    with g(1) True show ?thesis by (auto simp: btm_get_put)
  qed
qed

text \<open>The latest vote of an account after a batch with at most one vote per account.\<close>

definition vote_after ::
  "slot \<Rightarrow> ('p \<times> 'h::linorder slot_hash_key) list \<Rightarrow> ('p, 'h slot_hash_key) btree_map \<Rightarrow> 'p \<Rightarrow> 'h slot_hash_key option" where
  "vote_after root_slot pubkey_votes votes p =
     (case map_of pubkey_votes p of
        Some n \<Rightarrow> if accepts root_slot (btm_get p votes) n then Some n else btm_get p votes
      | None \<Rightarrow> btm_get p votes)"

lemma generate_run:
  assumes t: "tree_ok root (fm infos)" and ok: "stakes_ok stake_of cap voters"
    and v0: "fst ` set votes0 \<subseteq> voters"
    and "gen_inv (fm infos) stake_of voters votes0 seen st" "distinct (map fst pv)"
      "fst ` set pv \<inter> seen = {}" "fst ` set pv \<subseteq> voters"
  shows "\<exists>st'. run_list (generate_for_vote stake_of infos root_slot) pv st = Some st' \<and>
    gen_inv (fm infos) stake_of voters votes0 (seen \<union> fst ` set pv) st' \<and>
    (\<forall>q. btm_get q (fst st') = vote_after root_slot pv (fst st) q)"
  using assms(4-)
proof (induction pv arbitrary: seen st)
  case Nil
  then show ?case by (simp add: vote_after_def)
next
  case (Cons a pv)
  obtain p n where a: "a = (p, n)" by (metis surj_pair)
  obtain votes ops observed where st: "st = (votes, ops, observed)" by (metis surj_pair)
  from Cons.prems a have p: "p \<notin> seen" "p \<in> voters" by auto
  from generate_step [OF t ok v0 Cons.prems(1) [unfolded st] p, of root_slot n] obtain st1 where st1:
    "generate_for_vote stake_of infos root_slot a st = Some st1"
    "gen_inv (fm infos) stake_of voters votes0 (insert p seen) st1"
    "\<And>q. btm_get q (fst st1) = (if q = p \<and> accepts root_slot (btm_get p votes) n then Some n else btm_get q votes)"
    using a st by blast
  from Cons.prems a have rest: "distinct (map fst pv)" "fst ` set pv \<inter> insert p seen = {}" "fst ` set pv \<subseteq> voters"
    by auto
  from Cons.IH [OF st1(2) rest] obtain st2 where st2:
    "run_list (generate_for_vote stake_of infos root_slot) pv st1 = Some st2"
    "gen_inv (fm infos) stake_of voters votes0 (insert p seen \<union> fst ` set pv) st2"
    "\<And>q. btm_get q (fst st2) = vote_after root_slot pv (fst st1) q" by blast
  have "map_of pv p = None" using Cons.prems(2) a by (simp add: map_of_eq_None_iff)
  then have "btm_get q (fst st2) = vote_after root_slot (a # pv) (fst st) q" for q
    using st2(3) [of q] st1(3) [of q] a st by (auto simp: vote_after_def split: option.split)
  moreover have "insert p seen \<union> fst ` set pv = seen \<union> fst ` set (a # pv)" using a by auto
  ultimately show ?case using st1(1) st2 by auto
qed

section \<open>Processing the batch\<close>

lemma op_append: "op_add (R @ S) n = op_add R n + op_add S n" "op_sub (R @ S) n = op_sub R n + op_sub S n"
  by (induction R) auto

lemma op_rev: "op_add (rev R) n = op_add R n" "op_sub (rev R) n = op_sub R n"
  by (induction R) (auto simp: op_append)

lemma op_map_of:
  assumes "distinct (map fst R)" "\<forall>p \<in> set R. snd (fst p) = label_of (snd p)"
  shows "op_add R n = (case map_of R (n, L_Add) of Some (Op_Add s) \<Rightarrow> s | _ \<Rightarrow> 0) \<and>
    op_sub R n = (case map_of R (n, L_Subtract) of Some (Op_Subtract s) \<Rightarrow> s | _ \<Rightarrow> 0)"
  using assms
proof (induction R)
  case (Cons a R)
  obtain k l op where a: "a = ((k, l), op)" by (metis surj_pair)
  have l: "l = label_of op" using Cons.prems(2) a by simp
  have nd: "map_of R (k, l) = None" using Cons.prems(1) a by (auto simp: map_of_eq_None_iff)
  show ?case using Cons a l nd by (cases op) (auto split: option.splits)
qed simp

lemma vote_ops_amounts:
  assumes "vote_ops F X ops"
  shows "op_add (rev ops) k = got_add ops k" "op_sub (rev ops) k = got_sub ops k"
proof -
  have ok: "btm_ok ops" using assms by (simp add: vote_ops_def)
  have "\<forall>p \<in> set ops. snd (fst p) = label_of (snd p)"
    using vote_opsD(1) [OF assms] btm_get_Some_iff [OF ok] by force
  from op_map_of [OF btm_ok_distinct [OF ok] this]
  show "op_add (rev ops) k = got_add ops k" "op_sub (rev ops) k = got_sub ops k"
    by (simp_all add: op_rev got_add_def got_sub_def btm_get_def)
qed

lemma vote_ops_loop:
  assumes "vote_ops F {} ops"
  shows "sorted_wrt (>) (map fst (rev ops))" "ops_closed F (rev ops)" "(k, L_MarkInvalid s) \<notin> keys_of (rev ops)"
proof -
  have ok: "btm_ok ops" using assms by (simp add: vote_ops_def)
  then show "sorted_wrt (>) (map fst (rev ops))" by (simp add: btm_ok_def rev_map [symmetric] sorted_wrt_rev)
  note get = btm_get_Some_iff [OF ok]
  show "ops_closed F (rev ops)"
    unfolding ops_closed_def
  proof (intro allI impI)
    fix k l op
    assume "((k, l), op) \<in> set (rev ops)"
    then have g: "btm_get (k, l) ops = Some op" by (simp add: get)
    from vote_opsD(1) [OF assms g] have l: "l = label_of op" "l \<in> {L_Aggregate, L_Add, L_Subtract}" by auto
    have "(p, L_Aggregate) \<in> keys_of (rev ops)" if "F k = Some i" "parent i = Some p" for i p
      using vote_opsD(2) [OF assms g _ that] by (auto simp: keys_of_def btm_get_None_iff)
    with l show "l = label_of op \<and>
       (\<forall>i p. F k = Some i \<longrightarrow> parent i = Some p \<longrightarrow> (p, L_Aggregate) \<in> keys_of (rev ops)) \<and>
       (\<forall>s. op = Op_MarkInvalid s \<or> op = Op_MarkValid s \<longrightarrow> s \<le> fst k \<and> (k, L_Aggregate) \<in> keys_of (rev ops))"
      by auto
  qed
  show "(k, L_MarkInvalid s) \<notin> keys_of (rev ops)"
  proof
    assume "(k, L_MarkInvalid s) \<in> keys_of (rev ops)"
    then obtain op where "((k, L_MarkInvalid s), op) \<in> set ops" by (auto simp: keys_of_def)
    then have "btm_get (k, L_MarkInvalid s) ops = Some op" by (simp add: get)
    from vote_opsD(1) [OF assms this] show False by simp
  qed
qed

text \<open>
  Blocks keep their validity marks, and the tree its shape, along a batch without marks: a confirmed
  child has a confirmed parent already.
\<close>

definition same_marks :: "'h fork_map \<Rightarrow> 'h fork_map \<Rightarrow> bool" where
  "same_marks F G \<longleftrightarrow> (\<forall>k i j. F k = Some i \<longrightarrow> G k = Some j \<longrightarrow>
     is_duplicate_confirmed i = is_duplicate_confirmed j \<and> latest_invalid_ancestor i = latest_invalid_ancestor j)"

lemma marks_ok_same:
  assumes t: "tree_ok root F" and s: "same_shape F G" and m: "same_marks F G" and "marks_ok F"
  shows "marks_ok G"
  unfolding marks_ok_def
proof (intro allI impI)
  fix k i a c
  assume k: "G k = Some i" "latest_invalid_ancestor i = Some a" "c \<in> set (children i)"
  from same_shape_SomeD [OF same_shape_sym [OF s] k(1)] obtain j where
    j: "F k = Some j" "children j = children i" by auto
  with m k have "latest_invalid_ancestor j = Some a" unfolding same_marks_def by metis
  with \<open>marks_ok F\<close> j k(3) obtain b where b: "latest_invalid_ancestor (info F c) = Some b" "a \<le> b"
    unfolding marks_ok_def by metis
  from tree_ok_child [OF t j(1)] j(2) k(3) obtain x where x: "F c = Some x" by metis
  from same_shape_SomeD [OF s x] obtain y where y: "G c = Some y" by blast
  with x m have "latest_invalid_ancestor x = latest_invalid_ancestor y" unfolding same_marks_def by metis
  with b x y show "\<exists>b. latest_invalid_ancestor (info G c) = Some b \<and> a \<le> b" by simp
qed

lemma same_marks_refl [simp]: "same_marks F F"
  by (simp add: same_marks_def)

lemma confirmed_child_same:
  assumes t: "tree_ok root F" and s: "same_shape F G" and m: "same_marks F G"
    and k: "F k = Some i" "G k = Some j"
  shows "confirmed_child G j = confirmed_child F i"
proof -
  have c: "children j = children i" using s k by (simp add: same_shape_def)
  have "is_duplicate_confirmed (info G c) = is_duplicate_confirmed (info F c)" if "c \<in> set (children i)" for c
  proof -
    from tree_ok_child [OF t k(1) that] obtain x where x: "F c = Some x" by blast
    from same_shape_SomeD [OF s x] obtain y where y: "G c = Some y" by blast
    with x m show ?thesis unfolding same_marks_def by (metis info_Some)
  qed
  with c show ?thesis by (simp add: confirmed_child_def)
qed

lemma same_marks_step:
  assumes t: "tree_ok root F" and conf: "\<And>k i. F k = Some i \<Longrightarrow> node_inv F k i \<and> derived F k i"
    and s: "same_shape F (fm infos)" and m: "same_marks F (fm infos)"
    and op: "label_of op \<in> {L_Aggregate, L_Add, L_Subtract}"
  shows "same_marks F (fm (apply_at k op infos))"
proof (cases "fm infos k")
  case None
  with m show ?thesis by (simp add: apply_at_def)
next
  case (Some j)
  from same_shape_SomeD [OF same_shape_sym [OF s] Some] obtain i where i: "F k = Some i" by blast
  have "is_duplicate_confirmed j = is_duplicate_confirmed i \<and> latest_invalid_ancestor j = latest_invalid_ancestor i"
    using m i Some by (simp add: same_marks_def)
  moreover have "confirmed_child (fm infos) j \<Longrightarrow> is_duplicate_confirmed i \<and> latest_invalid_ancestor i = None"
    using conf [OF i] confirmed_child_same [OF t s m i Some] by (simp add: node_inv_def derived_def)
  ultimately have "is_duplicate_confirmed (apply_op (fm infos) k op j) = is_duplicate_confirmed i \<and>
      latest_invalid_ancestor (apply_op (fm infos) k op j) = latest_invalid_ancestor i"
    using op by (cases op) auto
  with m i Some show ?thesis by (auto simp: apply_at_def same_marks_def)
qed

lemma process_votes:
  fixes infos :: "'h::linorder fork_infos"
  assumes loop: "loop_inv root fin (rev ops) (fm infos)" and v: "vote_ops (fm infos) {} ops"
    and conf: "\<And>k i. fm infos k = Some i \<Longrightarrow> node_inv (fm infos) k i \<and> derived (fm infos) k i"
    and ok: "btm_ok infos"
  shows "\<exists>infos'. run_list process_update_operation (rev ops) infos = Some infos' \<and>
    loop_inv root fin [] (fm infos') \<and> same_shape (fm infos) (fm infos') \<and> same_marks (fm infos) (fm infos') \<and>
    btm_ok infos'"
proof -
  let ?L = "{L_Aggregate, L_Add, L_Subtract}"
  let ?Q = "\<lambda>(R :: 'h op_list) G. same_shape (fm infos) (fm G) \<and> same_marks (fm infos) (fm G) \<and> btm_ok G \<and>
    (\<forall>p \<in> set R. label_of (snd p) \<in> ?L)"
  have t: "tree_ok root (fm infos)" using loop by (simp add: loop_inv_def)
  have bok: "btm_ok ops" using v by (simp add: vote_ops_def)
  have l: "label_of (snd p) \<in> ?L" if "p \<in> set ops" for p
  proof -
    obtain k l op where p: "p = ((k, l), op)" by (metis surj_pair)
    with that btm_get_Some_iff [OF bok] have "btm_get (k, l) ops = Some op" by blast
    from vote_opsD(1) [OF v this] p show ?thesis by auto
  qed
  have "\<exists>infos'. run_list process_update_operation (rev ops) infos = Some infos' \<and>
      loop_inv root fin [] (fm infos') \<and> ?Q [] infos'"
  proof (rule process_run [where Q = ?Q, OF loop])
    show "?Q (rev ops) infos" using ok l by simp
    fix k l op R G
    assume q: "?Q (((k, l), op) # R) G"
    then have op: "label_of op \<in> ?L" by simp
    from q same_shape_trans [OF _ apply_at_same_shape] have "same_shape (fm infos) (fm (apply_at k op G))" by blast
    moreover from q same_marks_step [OF t conf _ _ op] have "same_marks (fm infos) (fm (apply_at k op G))" by blast
    moreover from q have "btm_ok (apply_at k op G)" by (simp add: apply_at_btm_ok)
    ultimately show "?Q R (apply_at k op G)" using q by simp
  qed
  then show ?thesis by blast
qed

lemma sum_exchange:
  fixes f :: "'a \<Rightarrow> nat"
  assumes "finite A" "finite B"
  shows "sum f A + sum f (B - A) = sum f B + sum f (A - B)"
  using assms sum.union_disjoint [of A "B - A" f] sum.union_disjoint [of B "A - B" f]
  by (simp add: Un_commute)

text \<open>
  A block's weight before the batch and the stake that the batch moves to it come from different
  accounts: a latest vote inside the subtree is not replaced by a vote for its root.
\<close>

lemma moved_votes_bound:
  assumes inv: "fc_inv stake_of voters s" and ok: "stakes_ok stake_of cap voters"
    and g: "gen_inv (fm (fork_infos s)) stake_of voters (latest_votes s) seen (votes, ops, observed)"
    and k: "btm_get k (fork_infos s) = Some i"
  shows "stake_voted_subtree i + got_add ops k < 2 ^ 64"
proof -
  let ?F = "fm (fork_infos s)" and ?V = "latest_votes s"
  let ?A = "\<Union>n \<in> subtree ?F k. voted_for ?V n" and ?B = "voted_for votes k - voted_for ?V k"
  have t: "tree_ok (tree_root s) ?F" and v: "fst ` set ?V \<subseteq> voters" using inv by (simp_all add: fc_inv_def)
  have v': "fst ` set votes \<subseteq> voters" using g by (simp add: gen_inv_def)
  have "k \<in> dom ?F" using k by blast
  from sum_tally [OF ok v subtree_finite [OF t this]]
  have w: "stake_voted_subtree i \<le> sum cap ?A" by (simp add: fc_inv_weight [OF inv k])
  have "?B \<subseteq> voters" using voted_for_voters [OF v'] by blast
  from cap_sum(1,3) [OF ok this] have a: "got_add ops k \<le> sum cap ?B" "finite ?B"
    using g by (auto simp: gen_inv_def)
  have "p \<notin> ?B" if p: "p \<in> ?A" for p
  proof
    assume b: "p \<in> ?B"
    from p obtain n where n: "n \<in> subtree ?F k" "btm_get p ?V = Some n" by (auto simp: voted_for_def)
    from b have kp: "btm_get p votes = Some k" "n \<noteq> k" using n by (auto simp: voted_for_def)
    with g n(2) have "later k n" by (fastforce simp: gen_inv_def)
    with subtree_slot [OF t n(1)] kp(2) show False by (auto simp: later_def)
  qed
  then have dis: "?A \<inter> ?B = {}" by blast
  have sub: "?A \<subseteq> voters" using voted_for_voters [OF v] by blast
  have "?A \<union> ?B \<subseteq> voters" using sub voted_for_voters [OF v'] by blast
  from cap_sum(2) [OF ok this] have "sum cap ?A + sum cap ?B < 2 ^ 64"
    using dis a(2) cap_sum(3) [OF ok sub] by (simp add: sum.union_disjoint)
  with w a show ?thesis by linarith
qed

lemma votes_loop_inv:
  assumes inv: "fc_inv stake_of voters s" and ok: "stakes_ok stake_of cap voters"
    and g: "gen_inv (fm (fork_infos s)) stake_of voters (latest_votes s) seen (votes, ops, observed)"
  shows "loop_inv (tree_root s) (tally stake_of votes) (rev ops) (fm (fork_infos s))"
proof -
  let ?F = "fm (fork_infos s)" and ?V = "latest_votes s"
  have t: "tree_ok (tree_root s) ?F" and v: "fst ` set ?V \<subseteq> voters" using inv by (simp_all add: fc_inv_def)
  have v': "fst ` set votes \<subseteq> voters" and vo: "vote_ops ?F {} ops" using g by (auto simp: gen_inv_def)
  note amounts = vote_ops_amounts [OF vo] and loop = vote_ops_loop [OF vo]
  have subs: "got_sub ops k = sum (stake_of (fst k)) (voted_for ?V k - voted_for votes k)"
    and adds: "got_add ops k = sum (stake_of (fst k)) (voted_for votes k - voted_for ?V k)" for k
    using g by (auto simp: gen_inv_def)
  have f: "finite (voted_for ?V k)" "finite (voted_for votes k)" for k
    using cap_sum(3) [OF ok voted_for_voters [OF v]] cap_sum(3) [OF ok voted_for_voters [OF v']] by auto
  have total: "sum (tally stake_of votes) (dom ?F) < 2 ^ 64"
  proof -
    have "sum (tally stake_of votes) (dom ?F) \<le> sum cap (\<Union>k \<in> dom ?F. voted_for votes k)"
      by (rule sum_tally [OF ok v' tree_ok_finite [OF t]])
    also have "\<dots> < 2 ^ 64" using voted_for_voters [OF v'] by (intro cap_sum(2) [OF ok]) blast
    finally show ?thesis .
  qed
  have "block_inv (tally stake_of votes) (rev ops) ?F k i" if k: "?F k = Some i" for k i
  proof -
    from inv k have n: "node_inv ?F k i" "derived ?F k i" "stake_voted_at i = tally stake_of ?V k"
      by (auto simp: fc_inv_def)
    have "got_sub ops k \<le> stake_voted_at i" unfolding n(3) tally_def subs using f by (intro sum_mono2) auto
    moreover have "stake_voted_at i + got_add ops k = tally stake_of votes k + got_sub ops k"
      unfolding n(3) tally_def subs adds by (rule sum_exchange [OF f(1) f(2)])
    moreover have "stake_voted_at i \<le> stake_voted_subtree i" using n(2) by (simp add: derived_def weight_of_def)
    moreover note moved_votes_bound [OF inv ok g k]
    ultimately show ?thesis using n loop(3) amounts by (auto simp: block_inv_def)
  qed
  with t loop total show ?thesis unfolding loop_inv_block by blast
qed

lemma add_votes_ok:
  assumes inv: "fc_inv stake_of voters s" and ok: "stakes_ok stake_of cap voters"
    and pv: "distinct (map fst pv)" "fst ` set pv \<subseteq> voters"
  shows "\<exists>best s'. add_votes stake_of pv s = Some (best, s') \<and> fc_inv stake_of voters s' \<and>
    best_overall_slot s' = Some best \<and> tree_root s' = tree_root s \<and>
    same_shape (fm (fork_infos s)) (fm (fork_infos s')) \<and> same_marks (fm (fork_infos s)) (fm (fork_infos s')) \<and>
    (\<forall>p. btm_get p (latest_votes s') = vote_after (fst (tree_root s)) pv (latest_votes s) p)"
proof -
  let ?F = "fm (fork_infos s)" and ?V = "latest_votes s"
  from inv have t: "tree_ok (tree_root s) ?F" and v: "fst ` set ?V \<subseteq> voters" and b: "btm_ok (fork_infos s)"
    and m: "marks_ok ?F" and conf: "\<And>k i. ?F k = Some i \<Longrightarrow> node_inv ?F k i \<and> derived ?F k i"
    by (auto simp: fc_inv_def)
  have "gen_inv ?F stake_of voters ?V {} (?V, [], [])"
    using inv by (auto simp: gen_inv_def fc_inv_def vote_ops_def got_add_def got_sub_def btm_get_def)
  from generate_run [OF t ok v this pv(1) _ pv(2), of "fst (tree_root s)"] obtain votes ops observed where
    gen: "run_list (generate_for_vote stake_of (fork_infos s) (fst (tree_root s))) pv (?V, [], []) =
      Some (votes, ops, observed)" and
    g: "gen_inv ?F stake_of voters ?V (fst ` set pv) (votes, ops, observed)" and
    after: "\<And>p. btm_get p votes = vote_after (fst (tree_root s)) pv ?V p" by auto
  from g have vo: "vote_ops ?F {} ops" and v': "btm_ok votes" "fst ` set votes \<subseteq> voters"
    by (auto simp: gen_inv_def)
  from process_votes [OF votes_loop_inv [OF inv ok g] vo conf b] obtain infos where
    p: "run_list process_update_operation (rev ops) (fork_infos s) = Some infos"
      "loop_inv (tree_root s) (tally stake_of votes) [] (fm infos)" "same_shape ?F (fm infos)"
      "same_marks ?F (fm infos)" "btm_ok infos" by blast
  let ?s = "s\<lparr>latest_votes := votes, fork_infos := infos\<rparr>"
  from p(2) tree_ok_root [of "tree_root s" "fm infos"] obtain i where "btm_get (tree_root s) infos = Some i"
    by (auto simp: loop_inv_def)
  then have best: "best_overall_slot ?s = Some (best_slot i)"
    by (simp add: best_overall_slot_def fc_best_slot_def)
  have "fc_inv stake_of voters ?s"
    using p v' marks_ok_same [OF t p(3,4) m] by (auto simp: fc_inv_def loop_inv_def keys_of_def)
  moreover have "add_votes stake_of pv s = Some (best_slot i, ?s)"
    using gen p(1) best
    by (simp add: add_votes_def generate_update_operations_def process_update_operations_def)
  ultimately show ?thesis using best p after by auto
qed

end
