(* ===== verification/Fork_Leaf.thy ===== *)
theory Fork_Leaf
  imports Fork_Votes
begin

text \<open>
  Adding a block: the two shortcuts of \<open>propagate_new_leaf\<close>, which walk up from the new leaf and
  stop early, leave every block with the best and deepest descendant its children prescribe.
\<close>

section \<open>The parts of the invariant that the two walks restore\<close>

definition deep_ok :: "'h::linorder fork_map \<Rightarrow> 'h slot_hash_key \<Rightarrow> 'h fork_info \<Rightarrow> bool" where
  "deep_ok F k i \<longleftrightarrow> height i = height_of F i \<and> deepest_slot i = deepest_of F k i"

definition best_ok :: "'h::linorder fork_map \<Rightarrow> 'h slot_hash_key \<Rightarrow> 'h fork_info \<Rightarrow> bool" where
  "best_ok F k i \<longleftrightarrow> (is_candidate i \<longrightarrow> best_slot i = best_of F k i)"

definition base_ok :: "'h::linorder fork_map \<Rightarrow> 'h fork_info \<Rightarrow> bool" where
  "base_ok F i \<longleftrightarrow> stake_voted_subtree i = weight_of F i \<and> (confirmed_child F i \<longrightarrow> is_duplicate_confirmed i)"

lemma derived_iff: "derived F k i \<longleftrightarrow> base_ok F i \<and> deep_ok F k i \<and> best_ok F k i"
  by (auto simp: derived_def base_ok_def deep_ok_def best_ok_def)

lemma deepest_child_cong:
  assumes "set (children i) = set (children j)"
    and "\<And>c. c \<in> set (children i) \<Longrightarrow> height (info F c) = height (info G c) \<and> weight F c = weight G c"
  shows "deepest_child F i = deepest_child G j"
  unfolding deepest_child_def
  by (rule champion_cong) (auto simp: assms deeper_linear deeper_def heavier_def)

lemma heaviest_child_cong:
  assumes "children i = children j"
    and "\<And>c. c \<in> set (children i) \<Longrightarrow> is_candidate (info F c) = is_candidate (info G c) \<and> weight F c = weight G c"
  shows "heaviest_child F i = heaviest_child G j"
  unfolding heaviest_child_def
  by (rule champion_cong) (auto simp: assms heavier_linear heavier_def candidates_def)

lemma deep_ok_cong:
  assumes "children i = children j" "height i = height j" "deepest_slot i = deepest_slot j"
    and c: "\<And>c. c \<in> set (children i) \<Longrightarrow> height (info F c) = height (info G c) \<and> weight F c = weight G c \<and>
      deepest_slot (info F c) = deepest_slot (info G c)"
  shows "deep_ok F k i = deep_ok G k j"
proof -
  have d: "deepest_child F i = deepest_child G j" using assms by (intro deepest_child_cong) auto
  show ?thesis
  proof (cases "deepest_child G j")
    case None
    with d assms show ?thesis by (simp add: deep_ok_def height_of_def deepest_of_def)
  next
    case (Some x)
    with d deepest_child_in [of F i x] c [of x] assms show ?thesis
      by (simp add: deep_ok_def height_of_def deepest_of_def)
  qed
qed

lemma best_ok_cong:
  assumes "children i = children j" "is_candidate i = is_candidate j" "best_slot i = best_slot j"
    and c: "\<And>c. c \<in> set (children i) \<Longrightarrow> is_candidate (info F c) = is_candidate (info G c) \<and> weight F c = weight G c \<and>
      best_slot (info F c) = best_slot (info G c)"
  shows "best_ok F k i = best_ok G k j"
proof -
  have d: "heaviest_child F i = heaviest_child G j" using assms by (intro heaviest_child_cong) auto
  show ?thesis
  proof (cases "heaviest_child G j")
    case None
    with d assms show ?thesis by (simp add: best_ok_def best_of_def)
  next
    case (Some x)
    with d heaviest_child_in [of F i x] c [of x] assms show ?thesis
      by (simp add: best_ok_def best_of_def)
  qed
qed

lemma base_ok_cong:
  assumes "children i = children j" "stake_voted_at i = stake_voted_at j" "stake_voted_subtree i = stake_voted_subtree j"
    "is_duplicate_confirmed i = is_duplicate_confirmed j"
    and c: "\<And>c. c \<in> set (children i) \<Longrightarrow> weight F c = weight G c \<and>
      is_duplicate_confirmed (info F c) = is_duplicate_confirmed (info G c)"
  shows "base_ok F i = base_ok G j"
  using assms by (simp add: base_ok_def weight_of_def confirmed_child_def cong: map_cong)

section \<open>Comparing a block with its siblings\<close>

lemma all_children_eq:
  "(\<And>c. c \<in> set cs \<Longrightarrow> f c = Some (P c)) \<Longrightarrow> all_children f cs = Some (\<forall>c \<in> set cs. P c)"
  by (induction cs) auto

lemma fc_lookups:
  assumes "fm infos k = Some i"
  shows "fc_stake_voted_subtree infos k = Some (weight (fm infos) k)" "fc_height infos k = Some (height i)"
    "fc_parent infos k = parent i" "fc_children infos k = Some (children i)" "fc_is_candidate infos k = Some (is_candidate i)"
  using assms
  by (simp_all add: fc_stake_voted_subtree_def fc_height_def fc_parent_def fc_children_def fc_is_candidate_def weight_def)

lemma is_best_child_eq:
  assumes t: "tree_ok root (fm infos)" and a: "fm infos a = Some i" and c: "c \<in> set (children i)"
  shows "is_best_child infos c =
    Some (\<forall>d \<in> set (candidates (fm infos) i). \<not> heavier (fm infos) d c)"
proof -
  from tree_ok_child [OF t a c] obtain j where j: "fm infos c = Some j" "parent j = Some a" by blast
  have "(do { child_weight \<leftarrow> fc_stake_voted_subtree infos d;
            candidate \<leftarrow> fc_is_candidate infos d;
            Some (\<not> candidate \<or> \<not> (child_weight > weight (fm infos) c \<or> weight (fm infos) c = child_weight \<and> d < c)) }) =
       Some (is_candidate (info (fm infos) d) \<longrightarrow> \<not> heavier (fm infos) d c)" if "d \<in> set (children i)" for d
  proof -
    from tree_ok_child [OF t a that] obtain x where "fm infos d = Some x" by blast
    then show ?thesis by (auto simp: fc_lookups heavier_def)
  qed
  note eq = all_children_eq [of "children i", OF this]
  show ?thesis
    unfolding is_best_child_def fc_lookups [OF j(1)] using j(2) fc_lookups(4) [OF a] eq
    by (auto simp: candidates_def)
qed

lemma is_deepest_child_eq:
  assumes t: "tree_ok root (fm infos)" and a: "fm infos a = Some i" and c: "c \<in> set (children i)"
  shows "is_deepest_child infos c = Some (deepest_child (fm infos) i = Some c)"
proof -
  from tree_ok_child [OF t a c] obtain j where j: "fm infos c = Some j" "parent j = Some a" by blast
  have "(do { child_height \<leftarrow> fc_height infos d;
            child_weight \<leftarrow> fc_stake_voted_subtree infos d;
            Some (case (cmp child_height (height j), cmp child_weight (weight (fm infos) c), cmp d c) of
                    (Greater, _, _) \<Rightarrow> False
                  | (Equal, Greater, _) \<Rightarrow> False
                  | (Equal, Equal, Less) \<Rightarrow> False
                  | _ \<Rightarrow> True) }) = Some (\<not> deeper (fm infos) d c)" if "d \<in> set (children i)" for d
  proof -
    from tree_ok_child [OF t a that] obtain x where x: "fm infos d = Some x" by blast
    with j show ?thesis by (simp add: fc_lookups deeper_def heavier_def cmp_def)
  qed
  note eq = all_children_eq [of "children i", OF this]
  have "(\<forall>d \<in> set (children i). \<not> deeper (fm infos) d c) \<longleftrightarrow> deepest_child (fm infos) i = Some c"
    unfolding deepest_child_def using champion_member [OF deeper_linear c] by simp
  then show ?thesis
    unfolding is_deepest_child_def fc_lookups [OF j(1)] using j(2) fc_lookups(4) [OF a] eq by auto
qed

section \<open>The walk that spreads the best block\<close>

definition upd_best :: "'h slot_hash_key set \<Rightarrow> 'h slot_hash_key \<Rightarrow> 'h fork_map \<Rightarrow> 'h fork_map" where
  "upd_best D leaf F = (\<lambda>n. map_option (\<lambda>i. if n \<in> D then i\<lparr>best_slot := leaf\<rparr> else i) (F n))"

lemma upd_best_empty [simp]: "upd_best {} leaf F = F"
  by (rule ext) (simp add: upd_best_def option.map_ident)

lemma upd_best_insert:
  "F a = Some i \<Longrightarrow> upd_best (insert a D) leaf F = upd_best D leaf (F(a \<mapsto> i\<lparr>best_slot := leaf\<rparr>))"
  by (rule ext) (simp add: upd_best_def)

lemma upd_best_shape: "same_shape F (upd_best D leaf F)"
  unfolding same_shape_def upd_best_def by (auto simp: dom_def split: if_splits)

text \<open>The blocks that the walk from \<open>a\<close> updates.\<close>

definition walked ::
  "'h fork_map \<Rightarrow> 'h slot_hash_key \<Rightarrow> 'h slot_hash_key \<Rightarrow> 'h slot_hash_key set \<Rightarrow> bool" where
  "walked F best0 a D \<longleftrightarrow> D \<subseteq> {n. a \<in> subtree F n} \<and> (best_slot (info F a) = best0 \<longleftrightarrow> a \<in> D) \<and>
     (\<forall>n \<in> D. best_slot (info F n) = best0) \<and>
     (\<forall>n \<in> D. n = a \<or> (\<exists>c \<in> D. (n, c) \<in> child_rel F)) \<and>
     (\<forall>n c. c \<in> D \<longrightarrow> (n, c) \<in> child_rel F \<longrightarrow> best_slot (info F n) = best0 \<longrightarrow> n \<in> D)"

lemma walked_step:
  assumes t: "tree_ok root F" and a: "F a = Some i" and p: "parent i = Some p" and b: "best_slot i = best0"
    and w: "walked (F(a \<mapsto> i\<lparr>best_slot := leaf\<rparr>)) best0 p D"
  shows "walked F best0 a (insert a D)"
proof -
  let ?F = "F(a \<mapsto> i\<lparr>best_slot := leaf\<rparr>)"
  have s: "same_shape F ?F" using a by (intro same_shape_upd) simp_all
  note rel = child_rel_same_shape [OF s, symmetric] and sub = subtree_same_shape [OF s, symmetric]
  have pa: "(p, a) \<in> child_rel F" using a p by (auto simp: child_rel_iff_parent [OF t])
  have slot_p: "fst p < fst a" using tree_ok_parent [OF t a p] by blast
  have up: "fst n \<le> fst p" if "p \<in> subtree F n" for n using subtree_slot [OF t that] by auto
  have D: "p \<in> subtree F n" "best_slot (info F n) = best0" "n \<noteq> a" if "n \<in> D" for n
  proof -
    from w that show n: "p \<in> subtree F n" unfolding walked_def sub by blast
    with up [OF n] slot_p show "n \<noteq> a" by auto
    with w that show "best_slot (info F n) = best0" unfolding walked_def by auto
  qed
  have "a \<in> subtree F n" if "n \<in> D" for n
    using D(1) [OF that] subtree_trans [of p F n a] subtree_child [OF pa] subtree_refl [of a F] by blast
  moreover have "\<exists>c \<in> insert a D. (n, c) \<in> child_rel F" if "n \<in> D" for n
  proof -
    from w that have "n = p \<or> (\<exists>c \<in> D. (n, c) \<in> child_rel F)" unfolding walked_def rel by simp
    with pa show ?thesis by auto
  qed
  moreover have "n \<in> insert a D"
    if c: "c \<in> insert a D" "(n, c) \<in> child_rel F" "best_slot (info F n) = best0" for n c
  proof (cases "c = a")
    case True
    with child_rel_parent [OF t c(2)] a p have n: "n = p" by auto
    have "best_slot (info ?F p) = best0" using c(3) n slot_p by auto
    with w n show ?thesis by (simp add: walked_def)
  next
    case False
    with c have cD: "c \<in> D" by simp
    have "fst n < fst c" using child_rel_parent [OF t c(2)] by blast
    with up [OF D(1) [OF cD]] slot_p have "n \<noteq> a" by auto
    with c cD w show ?thesis unfolding walked_def rel by (metis info_upd insertI2)
  qed
  ultimately show ?thesis using a b D(2) unfolding walked_def by auto
qed

lemma propagate_best_ok:
  assumes "tree_ok root (fm G)" "fm G a = Some i" "btm_ok G"
  shows "\<exists>G' D. propagate_best leaf best0 (Some a) G = Some G' \<and> fm G' = upd_best D leaf (fm G) \<and> btm_ok G' \<and>
    walked (fm G) best0 a D"
  using assms
proof (induction "fst a" arbitrary: a i G rule: less_induct)
  case less
  note a = less.prems(2)
  note unfold = propagate_best.simps [of leaf best0 "Some a" G]
  let ?G = "btm_put a (i\<lparr>best_slot := leaf\<rparr>) G"
  show ?case
  proof (cases "best_slot i = best0")
    case False
    with a have "walked (fm G) best0 a {}" by (simp add: walked_def)
    moreover have "propagate_best leaf best0 (Some a) G = Some G" using False a by (subst unfold) simp
    ultimately show ?thesis using less.prems(3) upd_best_empty by metis
  next
    case True
    have s: "same_shape (fm G) (fm ?G)" using a by (simp add: same_shape_upd)
    have t': "tree_ok root (fm ?G)" using tree_ok_same_shape [OF s less.prems(1)] .
    show ?thesis
    proof (cases "parent i")
      case None
      have "walked (fm G) best0 a {a}"
        using a True None child_rel_parent [OF less.prems(1), of _ a] by (auto simp: walked_def)
      moreover have "propagate_best leaf best0 (Some a) G = Some ?G"
        using True a None by (subst unfold) (simp add: propagate_best.simps [of _ _ None])
      moreover have "fm ?G = upd_best {a} leaf (fm G)" using upd_best_insert [of "fm G" a i "{}" leaf] a by simp
      ultimately show ?thesis using less.prems(3) by blast
    next
      case (Some p)
      from tree_ok_parent [OF less.prems(1) a Some] obtain j where p: "fm G p = Some j" "fst p < fst a" by blast
      then have p': "fm ?G p = Some j" by (auto simp: btm_get_put)
      from less.hyps [OF p(2) t' p'] less.prems(3) obtain G' D where
        G': "propagate_best leaf best0 (Some p) ?G = Some G'" "fm G' = upd_best D leaf (fm ?G)" "btm_ok G'"
          "walked (fm ?G) best0 p D" by blast
      from walked_step [OF less.prems(1) a Some True] G'(4) have "walked (fm G) best0 a (insert a D)" by simp
      moreover have "propagate_best leaf best0 (Some a) G = Some G'"
        using True a Some G'(1) by (subst unfold) simp
      moreover have "fm G' = upd_best (insert a D) leaf (fm G)"
        using G'(2) upd_best_insert [of "fm G" a i D leaf] a by simp
      ultimately show ?thesis using G'(3) by blast
    qed
  qed
qed

section \<open>The walk that spreads the deepest block\<close>

definition deep_frame :: "'h fork_map \<Rightarrow> 'h fork_map \<Rightarrow> bool" where
  "deep_frame F G \<longleftrightarrow> (\<forall>k. G k =
     map_option (\<lambda>i. i\<lparr>height := height (info G k), deepest_slot := deepest_slot (info G k)\<rparr>) (F k))"

lemma deep_frame_refl: "deep_frame F F"
  unfolding deep_frame_def
proof
  fix k
  show "F k = map_option (\<lambda>i. i\<lparr>height := height (info F k), deepest_slot := deepest_slot (info F k)\<rparr>) (F k)"
    by (cases "F k") simp_all
qed

lemma deep_frame_SomeD:
  assumes "deep_frame F G" "F k = Some i"
  shows "\<exists>h d. G k = Some (i\<lparr>height := h, deepest_slot := d\<rparr>)"
proof -
  have "G k = map_option (\<lambda>i. i\<lparr>height := height (info G k), deepest_slot := deepest_slot (info G k)\<rparr>) (F k)"
    using assms(1) unfolding deep_frame_def by (rule spec)
  with assms(2) show ?thesis by (metis option.map(2))
qed

lemma deep_frame_NoneD: "deep_frame F G \<Longrightarrow> F k = None \<Longrightarrow> G k = None"
  unfolding deep_frame_def by (metis option.map(1))

lemma deep_frame_trans:
  assumes "deep_frame F G" "deep_frame G H"
  shows "deep_frame F H"
  unfolding deep_frame_def
proof
  fix k
  show "H k = map_option (\<lambda>i. i\<lparr>height := height (info H k), deepest_slot := deepest_slot (info H k)\<rparr>) (F k)"
  proof (cases "F k")
    case None
    with assms deep_frame_NoneD show ?thesis by (metis option.map(1))
  next
    case (Some i)
    from deep_frame_SomeD [OF assms(1) Some] obtain h d where g: "G k = Some (i\<lparr>height := h, deepest_slot := d\<rparr>)" by blast
    from deep_frame_SomeD [OF assms(2) g] obtain h' d' where
      "H k = Some (i\<lparr>height := h', deepest_slot := d'\<rparr>)" by auto
    with Some show ?thesis by simp
  qed
qed

lemma deep_frame_upd:
  assumes "F a = Some i"
  shows "deep_frame F (F(a \<mapsto> i\<lparr>height := h, deepest_slot := d\<rparr>))"
  unfolding deep_frame_def
proof
  fix k
  show "(F(a \<mapsto> i\<lparr>height := h, deepest_slot := d\<rparr>)) k =
    map_option (\<lambda>j. j\<lparr>height := height (info (F(a \<mapsto> i\<lparr>height := h, deepest_slot := d\<rparr>)) k),
      deepest_slot := deepest_slot (info (F(a \<mapsto> i\<lparr>height := h, deepest_slot := d\<rparr>)) k)\<rparr>) (F k)"
    using assms by (cases "F k") auto
qed

text \<open>
  Before the walk continues at \<open>a\<close>: its child \<open>c\<close> now reaches \<open>leaf\<close> at height \<open>h\<close>, every block but
  \<open>a\<close> is right, and \<open>a\<close> is right unless \<open>c\<close> has become its deepest child.
\<close>

definition deep_pending ::
  "'h::linorder fork_map \<Rightarrow> 'h slot_hash_key \<Rightarrow> 'h slot_hash_key \<Rightarrow> nat \<Rightarrow> 'h slot_hash_key \<Rightarrow> bool" where
  "deep_pending F a c h leaf \<longleftrightarrow> (\<forall>n j. F n = Some j \<longrightarrow> n \<noteq> a \<longrightarrow> deep_ok F n j) \<and>
     height (info F c) = h \<and> deepest_slot (info F c) = leaf \<and> c \<in> set (children (info F a)) \<and>
     (deepest_child F (info F a) \<noteq> Some c \<longrightarrow> deep_ok F a (info F a)) \<and>
     (deepest_child F (info F a) = Some c \<longrightarrow> height (info F a) \<le> h + 1)"

lemma deepest_child_max:
  assumes "deepest_child F i = Some c" "d \<in> set (children i)"
  shows "height (info F d) \<le> height (info F c)"
proof (cases "d = c")
  case False
  with assms have "deeper F c d" by (simp add: deepest_child_def champion_iff [OF deeper_linear])
  then show ?thesis by (auto simp: deeper_def)
qed simp

lemma deep_pending_up:
  assumes t: "tree_ok root F" and a: "F a = Some i" and p: "parent i = Some p"
    and pend: "deep_pending F a c h leaf" and c: "deepest_child F i = Some c"
  shows "deep_pending (F(a \<mapsto> i\<lparr>height := h + 1, deepest_slot := leaf\<rparr>)) p a (h + 1) leaf"
proof -
  let ?i = "i\<lparr>height := h + 1, deepest_slot := leaf\<rparr>"
  let ?F = "F(a \<mapsto> ?i)"
  from tree_ok_parent [OF t a p] obtain q where q: "F p = Some q" "a \<in> set (children q)" "fst p < fst a" by blast
  have pa: "p \<noteq> a" using q by auto
  have ac: "a \<notin> set (children i)" using tree_ok_child [OF t a, of a] by auto
  have w: "weight ?F n = weight F n" for n using a by (simp add: weight_def)
  have le: "height i \<le> h + 1" using pend a c by (simp add: deep_pending_def)
  have hc: "height (info F c) = h" "deepest_slot (info F c) = leaf" using pend by (simp_all add: deep_pending_def)
  have "c \<noteq> a" using deepest_child_in [OF c] ac by auto
  have ch: "deepest_child ?F ?i = Some c"
    using c ac w by (subst deepest_child_cong [of ?i i ?F F]) auto
  then have a_ok: "deep_ok ?F a ?i" using \<open>c \<noteq> a\<close> hc by (simp add: deep_ok_def height_of_def deepest_of_def)
  have other: "deep_ok ?F n j" if n: "F n = Some j" "n \<noteq> a" "n \<noteq> p" for n j
  proof -
    have "a \<notin> set (children j)"
      using tree_ok_child [OF t n(1), of a] a p n(3) by auto
    then have "deep_ok ?F n j = deep_ok F n j" using w by (intro deep_ok_cong) auto
    with pend n show ?thesis by (simp add: deep_pending_def)
  qed
  have p_ok: "deep_ok F p q" using pend q pa by (simp add: deep_pending_def)
  have keep: "deepest_child F q = Some d" if d: "deepest_child ?F q = Some d" "d \<noteq> a" for d
  proof -
    have top: "d \<in> set (children q)" "\<And>e. e \<in> set (children q) \<Longrightarrow> e \<noteq> d \<Longrightarrow> deeper ?F d e"
      using d(1) by (auto simp: deepest_child_def champion_iff [OF deeper_linear])
    have "deeper F d e" if "e \<in> set (children q)" "e \<noteq> d" for e
      using top(2) [OF that] d(2) le a w by (cases "e = a") (auto simp: deeper_def heavier_def)
    with top(1) show ?thesis by (simp add: deepest_child_def champion_iff [OF deeper_linear])
  qed
  have ne: "deepest_child G q \<noteq> None" for G using q(2) deeper_linear [of G] by (auto simp: deepest_child_def)
  have first: "deep_ok ?F p q" if "deepest_child ?F q \<noteq> Some a"
  proof -
    from ne [of ?F] that obtain d where d: "deepest_child ?F q = Some d" "d \<noteq> a" by auto
    with keep [OF d] p_ok show ?thesis by (simp add: deep_ok_def height_of_def deepest_of_def)
  qed
  have second: "height q \<le> h + 1 + 1" if "deepest_child ?F q = Some a"
  proof -
    from ne [of F] obtain d where d: "deepest_child F q = Some d" by auto
    from deepest_child_max [OF that deepest_child_in [OF d]] have "height (info ?F d) \<le> h + 1" by simp
    then have "height (info F d) \<le> h + 1" using le a by (cases "d = a") auto
    with p_ok d show ?thesis by (simp add: deep_ok_def height_of_def)
  qed
  show ?thesis
    unfolding deep_pending_def using a_ok other q pa first second by auto
qed

lemma propagate_deepest_ok:
  assumes "tree_ok root (fm G)" "fm G a = Some i" "btm_ok G" "deep_pending (fm G) a c h leaf"
  shows "\<exists>G'. propagate_deepest leaf (Some a) c h G = Some G' \<and> btm_ok G' \<and> deep_frame (fm G) (fm G') \<and>
    (\<forall>n j. fm G' n = Some j \<longrightarrow> deep_ok (fm G') n j)"
  using assms
proof (induction "fst a" arbitrary: a i c h G rule: less_induct)
  case less
  note t = less.prems(1) and a = less.prems(2) and pend = less.prems(4)
  note unfold = propagate_deepest.simps [of leaf "Some a" c h G]
  have c: "c \<in> set (children i)" using pend a by (simp add: deep_pending_def)
  note test = is_deepest_child_eq [OF t a c]
  let ?i = "i\<lparr>height := h + 1, deepest_slot := leaf\<rparr>"
  let ?G = "btm_put a ?i G"
  show ?case
  proof (cases "deepest_child (fm G) i = Some c")
    case False
    with pend a have "\<forall>n j. fm G n = Some j \<longrightarrow> deep_ok (fm G) n j" unfolding deep_pending_def by (metis info_Some)
    moreover have "propagate_deepest leaf (Some a) c h G = Some G" using False test by (subst unfold) simp
    ultimately show ?thesis using less.prems(3) deep_frame_refl by blast
  next
    case True
    have fr: "deep_frame (fm G) (fm ?G)" using deep_frame_upd [of "fm G" a i] a by simp
    have s: "same_shape (fm G) (fm ?G)" using a by (simp add: same_shape_upd)
    have t': "tree_ok root (fm ?G)" using tree_ok_same_shape [OF s t] .
    show ?thesis
    proof (cases "parent i")
      case None
      have "deep_ok (fm ?G) n j" if n: "fm ?G n = Some j" for n j
      proof -
        have ac: "a \<notin> set (children i)" using tree_ok_child [OF t a, of a] by auto
        have w: "weight (fm ?G) n = weight (fm G) n" for n using a by (simp add: weight_def)
        show ?thesis
        proof (cases "n = a")
          case True
          then have j: "j = ?i" using n by (simp add: btm_get_put)
          have "c \<noteq> a" using c ac by auto
          have "deepest_child (fm ?G) ?i = Some c"
            using \<open>deepest_child (fm G) i = Some c\<close> ac w by (subst deepest_child_cong [of ?i i _ "fm G"]) auto
          with j True \<open>c \<noteq> a\<close> pend show ?thesis by (simp add: deep_ok_def height_of_def deepest_of_def deep_pending_def)
        next
          case False
          then have j: "fm G n = Some j" using n by (simp add: btm_get_put)
          have "a \<notin> set (children j)" using tree_ok_child [OF t j, of a] a None by auto
          then have "deep_ok (fm ?G) n j = deep_ok (fm G) n j" using w by (intro deep_ok_cong) auto
          with pend j False show ?thesis by (simp add: deep_pending_def)
        qed
      qed
      moreover have "propagate_deepest leaf (Some a) c h G = Some ?G"
        using True test a None by (subst unfold) (simp add: propagate_deepest.simps [of _ None])
      ultimately show ?thesis using less.prems(3) fr by blast
    next
      case (Some p)
      from tree_ok_parent [OF t a Some] obtain j where p: "fm G p = Some j" "fst p < fst a" by blast
      then have p': "fm ?G p = Some j" by (auto simp: btm_get_put)
      have pend': "deep_pending (fm ?G) p a (h + 1) leaf" using deep_pending_up [OF t a Some pend True] by simp
      from less.hyps [OF p(2) t' p' _ pend'] less.prems(3) obtain G' where
        G': "propagate_deepest leaf (Some p) a (h + 1) ?G = Some G'" "btm_ok G'" "deep_frame (fm ?G) (fm G')"
          "\<forall>n j. fm G' n = Some j \<longrightarrow> deep_ok (fm G') n j" by blast
      moreover have "propagate_deepest leaf (Some a) c h G = Some G'"
        using True test a Some G'(1) by (subst unfold) simp
      ultimately show ?thesis using deep_frame_trans [OF fr] by blast
    qed
  qed
qed

section \<open>The tree with the new leaf\<close>

definition with_leaf :: "'h::linorder fork_map \<Rightarrow> 'h slot_hash_key \<Rightarrow> 'h slot_hash_key \<Rightarrow> 'h fork_info \<Rightarrow> 'h fork_map" where
  "with_leaf F leaf p i = F(leaf \<mapsto> new_leaf_info leaf (Some p) (latest_invalid_ancestor i),
     p \<mapsto> i\<lparr>children := insort_insert leaf (children i)\<rparr>)"

definition leaf_pre :: "'h::linorder slot_hash_key \<Rightarrow> 'h fork_map \<Rightarrow> 'h slot_hash_key \<Rightarrow> 'h slot_hash_key \<Rightarrow> 'h fork_info \<Rightarrow> bool" where
  "leaf_pre root F leaf p i \<longleftrightarrow> tree_ok root F \<and> F leaf = None \<and> F p = Some i \<and> fst p < fst leaf \<and> marks_ok F \<and>
     (\<forall>k j. F k = Some j \<longrightarrow> node_inv F k j \<and> derived F k j)"

lemma leaf_preD:
  assumes "leaf_pre root F leaf p i"
  shows "tree_ok root F" "F leaf = None" "F p = Some i" "fst p < fst leaf" "p \<noteq> leaf" "marks_ok F"
    "\<And>k j. F k = Some j \<Longrightarrow> node_inv F k j" "\<And>k j. F k = Some j \<Longrightarrow> derived F k j"
    "\<And>k j. F k = Some j \<Longrightarrow> leaf \<notin> set (children j)"
proof -
  show t: "tree_ok root F" and n: "F leaf = None" and "F p = Some i" and "fst p < fst leaf" and "p \<noteq> leaf"
    and "marks_ok F" and "\<And>k j. F k = Some j \<Longrightarrow> node_inv F k j" and "\<And>k j. F k = Some j \<Longrightarrow> derived F k j"
    using assms by (auto simp: leaf_pre_def)
  show "leaf \<notin> set (children j)" if "F k = Some j" for k j
    using tree_ok_child [OF t that, of leaf] n by auto
qed

lemma with_leaf_leaf [simp]:
  "p \<noteq> leaf \<Longrightarrow> with_leaf F leaf p i leaf = Some (new_leaf_info leaf (Some p) (latest_invalid_ancestor i))"
  by (simp add: with_leaf_def)

lemma with_leaf_parent [simp]:
  "with_leaf F leaf p i p = Some (i\<lparr>children := insort_insert leaf (children i)\<rparr>)"
  by (simp add: with_leaf_def)

lemma with_leaf_other [simp]: "n \<noteq> leaf \<Longrightarrow> n \<noteq> p \<Longrightarrow> with_leaf F leaf p i n = F n"
  by (simp add: with_leaf_def)

lemma new_leaf_info_fields [simp]:
  "stake_voted_at (new_leaf_info k p a) = 0" "stake_voted_subtree (new_leaf_info k p a) = 0"
  "height (new_leaf_info k p a) = 1" "best_slot (new_leaf_info k p a) = k" "deepest_slot (new_leaf_info k p a) = k"
  "parent (new_leaf_info k p a) = p" "children (new_leaf_info k p a) = []"
  "latest_invalid_ancestor (new_leaf_info k p a) = a" "is_duplicate_confirmed (new_leaf_info k p a) = (p = None)"
  by (simp_all add: new_leaf_info_def)

lemma with_leaf_info:
  assumes "F p = Some i" "n \<noteq> leaf"
  shows "info (with_leaf F leaf p i) n =
    (if n = p then i\<lparr>children := insort_insert leaf (children i)\<rparr> else info F n)"
  using assms by (simp add: with_leaf_def)

lemma with_leaf_fields:
  assumes "F p = Some i" "n \<noteq> leaf"
  shows "weight (with_leaf F leaf p i) n = weight F n"
    "height (info (with_leaf F leaf p i) n) = height (info F n)"
    "deepest_slot (info (with_leaf F leaf p i) n) = deepest_slot (info F n)"
    "best_slot (info (with_leaf F leaf p i) n) = best_slot (info F n)"
    "is_candidate (info (with_leaf F leaf p i) n) = is_candidate (info F n)"
    "is_duplicate_confirmed (info (with_leaf F leaf p i) n) = is_duplicate_confirmed (info F n)"
    "latest_invalid_ancestor (info (with_leaf F leaf p i) n) = latest_invalid_ancestor (info F n)"
  using assms by (auto simp: with_leaf_info weight_def is_candidate_def)

lemma with_leaf_cases:
  assumes "with_leaf F leaf p i n = Some j" "p \<noteq> leaf" "F p = Some i"
  obtains (new) "n = leaf" "j = new_leaf_info leaf (Some p) (latest_invalid_ancestor i)"
    | (parent) "n = p" "j = i\<lparr>children := insort_insert leaf (children i)\<rparr>"
    | (old) "n \<noteq> leaf" "n \<noteq> p" "F n = Some j"
  using assms by (cases "n = leaf"; cases "n = p") auto

lemma with_leaf_tree:
  assumes pre: "leaf_pre root F leaf p i"
  shows "tree_ok root (with_leaf F leaf p i)"
proof -
  note l = leaf_preD [OF pre]
  let ?F = "with_leaf F leaf p i"
  have ext: "\<exists>j. ?F c = Some j \<and> parent j = parent x \<and> (c \<noteq> p \<longrightarrow> children j = children x) \<and>
      set (children x) \<subseteq> set (children j)" if "F c = Some x" for c x
    using that l(2,3,5) by (cases "c = p") (auto simp: with_leaf_def set_insort_insert)
  show ?thesis
  proof (rule tree_okI)
    show "finite (dom ?F)" using tree_ok_finite [OF l(1)] by (simp add: with_leaf_def)
    show "\<exists>j. ?F root = Some j \<and> parent j = None" using tree_ok_root [OF l(1)] ext by metis
  next
    fix k j
    assume k: "?F k = Some j"
    then show "sorted (children j) \<and> distinct (children j)"
      using l(5,3)
    proof (cases rule: with_leaf_cases)
      case parent
      with tree_ok_children [OF l(1,3)] l(9) [OF l(3)] show ?thesis
        by (simp add: insort_insert_key_def distinct_insort sorted_insort)
    next
      case old
      with tree_ok_children [OF l(1)] show ?thesis by blast
    qed simp
  next
    fix k j c
    assume k: "?F k = Some j" and c: "c \<in> set (children j)"
    from k l(5,3) show "fst k < fst c \<and> (\<exists>x. ?F c = Some x \<and> parent x = Some k)"
    proof (cases rule: with_leaf_cases)
      case new
      with c show ?thesis by simp
    next
      case parent
      show ?thesis
      proof (cases "c = leaf")
        case True
        with parent l show ?thesis by simp
      next
        case False
        with c parent have "c \<in> set (children i)" by (simp add: set_insort_insert)
        with tree_ok_child [OF l(1,3), of c] ext [of c] parent show ?thesis by metis
      qed
    next
      case old
      with tree_ok_child [OF l(1) old(3) c] ext [of c] show ?thesis by metis
    qed
  next
    fix k j
    assume k: "?F k = Some j" and "k \<noteq> root"
    from k l(5,3) show "\<exists>q x. parent j = Some q \<and> ?F q = Some x \<and> k \<in> set (children x)"
    proof (cases rule: with_leaf_cases)
      case new
      then show ?thesis by (auto simp: set_insort_insert)
    next
      case parent
      with tree_ok_has_parent [OF l(1,3)] \<open>k \<noteq> root\<close> obtain q x where
        "parent j = Some q" "F q = Some x" "k \<in> set (children x)" by auto
      with ext [of q x] show ?thesis by blast
    next
      case old
      with tree_ok_has_parent [OF l(1)] \<open>k \<noteq> root\<close> obtain q x where
        "parent j = Some q" "F q = Some x" "k \<in> set (children x)" by blast
      with ext [of q x] show ?thesis by blast
    qed
  qed
qed

lemma child_rel_with_leaf:
  assumes pre: "leaf_pre root F leaf p i"
  shows "child_rel (with_leaf F leaf p i) = insert (p, leaf) (child_rel F)"
proof (intro equalityI subsetI)
  note l = leaf_preD [OF pre]
  fix x
  assume "x \<in> child_rel (with_leaf F leaf p i)"
  then obtain k c j where x: "x = (k, c)" "with_leaf F leaf p i k = Some j" "c \<in> set (children j)"
    by (auto simp: child_rel_def)
  from x(2) l(5,3) show "x \<in> insert (p, leaf) (child_rel F)"
    using x l(3) by (cases rule: with_leaf_cases) (auto simp: set_insort_insert intro: child_relI)
next
  note l = leaf_preD [OF pre]
  fix x
  assume "x \<in> insert (p, leaf) (child_rel F)"
  then show "x \<in> child_rel (with_leaf F leaf p i)"
  proof
    assume "x = (p, leaf)"
    then show ?thesis by (auto simp: child_rel_def set_insort_insert)
  next
    assume "x \<in> child_rel F"
    then obtain k c j where x: "x = (k, c)" "F k = Some j" "c \<in> set (children j)" by (auto simp: child_rel_def)
    with l(2,3) show ?thesis by (cases "k = p") (auto simp: child_rel_def set_insort_insert with_leaf_def)
  qed
qed

lemma subtree_with_leaf:
  assumes pre: "leaf_pre root F leaf p i"
  shows "subtree F k \<subseteq> subtree (with_leaf F leaf p i) k" "p \<in> subtree F k \<Longrightarrow> leaf \<in> subtree (with_leaf F leaf p i) k"
proof -
  show sub: "subtree F k \<subseteq> subtree (with_leaf F leaf p i) k"
    unfolding subtree_def child_rel_with_leaf [OF pre] using rtrancl_mono [of "child_rel F" "insert (p, leaf) (child_rel F)"] by auto
  assume "p \<in> subtree F k"
  with sub have "(k, p) \<in> (child_rel (with_leaf F leaf p i))\<^sup>*" by (auto simp: subtree_def)
  moreover have "(p, leaf) \<in> child_rel (with_leaf F leaf p i)" by (simp add: child_rel_with_leaf [OF pre])
  ultimately show "leaf \<in> subtree (with_leaf F leaf p i) k" by (simp add: subtree_def rtrancl.rtrancl_into_rtrancl)
qed

lemma with_leaf_facts:
  assumes pre: "leaf_pre root F leaf p i" and k: "with_leaf F leaf p i k = Some j"
  shows "node_inv (with_leaf F leaf p i) k j" "base_ok (with_leaf F leaf p i) j"
    "k \<noteq> p \<Longrightarrow> deep_ok (with_leaf F leaf p i) k j" "k \<noteq> p \<Longrightarrow> best_ok (with_leaf F leaf p i) k j"
proof -
  note l = leaf_preD [OF pre]
  let ?F = "with_leaf F leaf p i"
  note fields = with_leaf_fields [where F = F and leaf = leaf, OF l(3)]
  have view: "c \<noteq> leaf" if "F n = Some x" "c \<in> set (children x)" for n x c using l(9) [OF that(1)] that(2) by auto
  have "node_inv ?F k j \<and> base_ok ?F j \<and> (k \<noteq> p \<longrightarrow> deep_ok ?F k j \<and> best_ok ?F k j)"
    using k l(5,3)
  proof (cases rule: with_leaf_cases)
    case new
    have "\<And>a. latest_invalid_ancestor i = Some a \<Longrightarrow> a \<le> fst leaf"
      using l(7) [OF l(3)] l(4) by (fastforce simp: node_inv_def)
    with new show ?thesis
      by (simp add: node_inv_def base_ok_def weight_of_def confirmed_child_def deep_ok_def best_ok_def height_of_def
          deepest_of_def best_of_def deepest_child_def heaviest_child_def candidates_def)
  next
    case parent
    have "\<forall>c \<in> set (children i). weight ?F c = weight F c \<and>
        is_duplicate_confirmed (info ?F c) = is_duplicate_confirmed (info F c)"
      using fields view [OF l(3)] by auto
    moreover have "weight ?F leaf = 0" "\<not> is_duplicate_confirmed (info ?F leaf)" using l(5) by (simp_all add: weight_def)
    moreover have "distinct (children i)" "leaf \<notin> set (children i)"
      using tree_ok_children [OF l(1,3)] l(9) [OF l(3)] by auto
    ultimately have "base_ok ?F j = base_ok F i"
      using parent l(9) [OF l(3)]
      by (simp add: base_ok_def weight_of_def confirmed_child_def sum_list_distinct_conv_sum_set
          insort_insert_key_def distinct_insort set_insort_key)
    moreover have "node_inv ?F k j" using l(7) [OF l(3)] parent subtree_with_leaf(1) [OF pre, of p]
      by (auto simp: node_inv_def)
    ultimately show ?thesis using parent l(8) [OF l(3)] by (simp add: derived_iff)
  next
    case old
    note v = view [OF old(3)]
    have "deep_ok ?F k j = deep_ok F k j" by (rule deep_ok_cong) (simp_all add: fields v)
    moreover have "best_ok ?F k j = best_ok F k j" by (rule best_ok_cong) (simp_all add: fields v)
    moreover have "base_ok ?F j = base_ok F j" by (rule base_ok_cong) (simp_all add: fields v)
    moreover have "node_inv ?F k j" using l(7) [OF old(3)] subtree_with_leaf(1) [OF pre, of k]
      by (auto simp: node_inv_def)
    ultimately show ?thesis using l(8) [OF old(3)] by (simp add: derived_iff)
  qed
  then show "node_inv ?F k j" "base_ok ?F j" "k \<noteq> p \<Longrightarrow> deep_ok ?F k j" "k \<noteq> p \<Longrightarrow> best_ok ?F k j" by auto
qed

lemma with_leaf_marks:
  assumes pre: "leaf_pre root F leaf p i"
  shows "marks_ok (with_leaf F leaf p i)"
  unfolding marks_ok_def
proof (intro allI impI)
  note l = leaf_preD [OF pre]
  fix k j a c
  assume k: "with_leaf F leaf p i k = Some j" and a: "latest_invalid_ancestor j = Some a" and c: "c \<in> set (children j)"
  have ext: "\<exists>b. latest_invalid_ancestor (info (with_leaf F leaf p i) c) = Some b \<and> a \<le> b"
    if "F k = Some x" "latest_invalid_ancestor x = Some a" "c \<in> set (children x)" for x
    using l(6) that l(9) [OF that(1)] with_leaf_fields(7) [where F = F and leaf = leaf and n = c, OF l(3)] unfolding marks_ok_def by metis
  from k l(5,3) show "\<exists>b. latest_invalid_ancestor (info (with_leaf F leaf p i) c) = Some b \<and> a \<le> b"
  proof (cases rule: with_leaf_cases)
    case new
    with c show ?thesis by simp
  next
    case parent
    with a c l(3,5) ext [of i] show ?thesis by (cases "c = leaf") (auto simp: set_insort_insert)
  next
    case old
    with a c ext show ?thesis by blast
  qed
qed

text \<open>Where the leaf is not the winner among the children of its parent, the winner is the old one.\<close>

lemma with_leaf_heaviest:
  assumes pre: "leaf_pre root F leaf p i"
    and d: "heaviest_child (with_leaf F leaf p i) (i\<lparr>children := insort_insert leaf (children i)\<rparr>) = Some d" "d \<noteq> leaf"
  shows "heaviest_child F i = Some d"
proof -
  note l = leaf_preD [OF pre]
  note fields = with_leaf_fields [where F = F and leaf = leaf, OF l(3)]
  let ?F = "with_leaf F leaf p i"
  have d': "d \<in> set (candidates F i)"
    using heaviest_child_in [OF d(1)] d(2) fields by (auto simp: candidates_def set_insort_insert)
  have "heavier F d e" if e: "e \<in> set (candidates F i)" "e \<noteq> d" for e
  proof -
    have el: "e \<noteq> leaf" using e l(9) [OF l(3)] by (auto simp: candidates_def)
    then have "e \<in> set (candidates ?F (i\<lparr>children := insort_insert leaf (children i)\<rparr>))"
      using e fields by (auto simp: candidates_def set_insort_insert)
    with d(1) e(2) have "heavier ?F d e" by (simp add: heaviest_child_def champion_iff [OF heavier_linear])
    with fields d(2) el show ?thesis by (simp add: heavier_def)
  qed
  with d' show ?thesis by (simp add: heaviest_child_def champion_iff [OF heavier_linear])
qed

lemma with_leaf_deepest:
  assumes pre: "leaf_pre root F leaf p i"
    and d: "deepest_child (with_leaf F leaf p i) (i\<lparr>children := insort_insert leaf (children i)\<rparr>) = Some d" "d \<noteq> leaf"
  shows "deepest_child F i = Some d"
proof -
  note l = leaf_preD [OF pre]
  note fields = with_leaf_fields [where F = F and leaf = leaf, OF l(3)]
  let ?F = "with_leaf F leaf p i"
  have d': "d \<in> set (children i)" using deepest_child_in [OF d(1)] d(2) by (auto simp: set_insort_insert)
  have "deeper F d e" if e: "e \<in> set (children i)" "e \<noteq> d" for e
  proof -
    have el: "e \<noteq> leaf" using e l(9) [OF l(3)] by auto
    from d(1) e have "deeper ?F d e"
      by (simp add: deepest_child_def champion_iff [OF deeper_linear] set_insort_insert)
    with fields d(2) el show ?thesis by (simp add: deeper_def heavier_def)
  qed
  with d' show ?thesis by (simp add: deepest_child_def champion_iff [OF deeper_linear])
qed

lemma with_leaf_pending:
  assumes pre: "leaf_pre root F leaf p i"
  shows "deep_pending (with_leaf F leaf p i) p leaf 1 leaf"
proof -
  note l = leaf_preD [OF pre]
  note fields = with_leaf_fields [where F = F and leaf = leaf, OF l(3)]
  let ?F = "with_leaf F leaf p i" and ?i = "i\<lparr>children := insort_insert leaf (children i)\<rparr>"
  have ok: "deep_ok F p i" using l(8) [OF l(3)] by (simp add: derived_iff)
  have ne: "deepest_child ?F ?i \<noteq> None"
    using deeper_linear [of ?F] by (auto simp: deepest_child_def set_empty [symmetric] set_insort_insert simp del: set_empty)
  have first: "deep_ok ?F p ?i" if "deepest_child ?F ?i \<noteq> Some leaf"
  proof -
    from ne that obtain d where d: "deepest_child ?F ?i = Some d" "d \<noteq> leaf" by auto
    with with_leaf_deepest [OF pre d] ok fields show ?thesis by (simp add: deep_ok_def height_of_def deepest_of_def)
  qed
  have second: "height i \<le> 1 + 1" if "deepest_child ?F ?i = Some leaf"
  proof (cases "deepest_child F i")
    case None
    with ok show ?thesis by (simp add: deep_ok_def height_of_def)
  next
    case (Some d)
    from deepest_child_in [OF Some] l(9) [OF l(3)] have d: "d \<in> set (children i)" "d \<noteq> leaf" by auto
    from deepest_child_max [OF that, of d] d have "height (info ?F d) \<le> 1" using l(5) by (simp add: set_insort_insert)
    with fields d(2) ok Some show ?thesis by (simp add: deep_ok_def height_of_def)
  qed
  show ?thesis
    unfolding deep_pending_def using with_leaf_facts(3) [OF pre] l(5) first second by (auto simp: set_insort_insert)
qed

section \<open>After both walks\<close>

lemma upd_best_fields:
  "weight (upd_best D leaf F) n = weight F n" "height (info (upd_best D leaf F) n) = height (info F n)"
  "deepest_slot (info (upd_best D leaf F) n) = deepest_slot (info F n)"
  "is_candidate (info (upd_best D leaf F) n) = is_candidate (info F n)"
  "is_duplicate_confirmed (info (upd_best D leaf F) n) = is_duplicate_confirmed (info F n)"
  "latest_invalid_ancestor (info (upd_best D leaf F) n) = latest_invalid_ancestor (info F n)"
  "children (info (upd_best D leaf F) n) = children (info F n)"
  "F n \<noteq> None \<Longrightarrow> best_slot (info (upd_best D leaf F) n) = (if n \<in> D then leaf else best_slot (info F n))"
  by (cases "F n"; simp add: upd_best_def info_def weight_def is_candidate_def)+

lemma upd_best_SomeD:
  "upd_best D leaf F n = Some j \<Longrightarrow> \<exists>x. F n = Some x \<and> j = (if n \<in> D then x\<lparr>best_slot := leaf\<rparr> else x)"
  by (auto simp: upd_best_def)

lemma upd_best_own:
  assumes "F n = Some x" "upd_best D leaf F n = Some j"
  shows "children j = children x" "height j = height x" "deepest_slot j = deepest_slot x"
    "is_candidate j = is_candidate x" "stake_voted_at j = stake_voted_at x" "parent j = parent x"
    "stake_voted_subtree j = stake_voted_subtree x" "is_duplicate_confirmed j = is_duplicate_confirmed x"
    "latest_invalid_ancestor j = latest_invalid_ancestor x"
  using assms by (auto simp: upd_best_def is_candidate_def split: if_splits)

lemma upd_best_deep_ok:
  assumes "F n = Some x" "upd_best D leaf F n = Some j"
  shows "deep_ok (upd_best D leaf F) n j = deep_ok F n x"
  by (rule deep_ok_cong) (simp_all add: upd_best_fields upd_best_own [OF assms])

lemma walkedD:
  assumes "walked F best0 a D"
  shows "n \<in> D \<Longrightarrow> a \<in> subtree F n" "n \<in> D \<Longrightarrow> best_slot (info F n) = best0"
    "best_slot (info F a) = best0 \<Longrightarrow> a \<in> D" "n \<in> D \<Longrightarrow> n \<noteq> a \<Longrightarrow> \<exists>c \<in> D. (n, c) \<in> child_rel F"
    "c \<in> D \<Longrightarrow> (n, c) \<in> child_rel F \<Longrightarrow> best_slot (info F n) = best0 \<Longrightarrow> n \<in> D"
  using assms unfolding walked_def by blast+

lemma upd_best_pending:
  assumes p: "F p = Some i" and pend: "deep_pending F p c h leaf'"
  shows "deep_pending (upd_best D leaf F) p c h leaf'"
proof -
  let ?G = "upd_best D leaf F"
  obtain j where j: "?G p = Some j" using p by (simp add: upd_best_def)
  have d: "deepest_child ?G j = deepest_child F i"
    by (rule deepest_child_cong) (simp_all add: upd_best_fields upd_best_own [OF p j])
  have "deep_ok ?G n x" if "?G n = Some x" "n \<noteq> p" for n x
  proof -
    from upd_best_SomeD [OF that(1)] obtain y where y: "F n = Some y" by blast
    with upd_best_deep_ok [OF y that(1)] pend that(2) show ?thesis by (simp add: deep_pending_def)
  qed
  moreover have "height j = height i" "children j = children i" using upd_best_own [OF p j] by simp_all
  moreover note upd_best_deep_ok [OF p j]
  ultimately show ?thesis
    using pend p j d unfolding deep_pending_def by (simp add: upd_best_fields)
qed

text \<open>The best block is right everywhere once the walk has stopped.\<close>

lemma upd_best_best_ok:
  assumes pre: "leaf_pre root F leaf p i" and w: "walked (with_leaf F leaf p i) (best_slot i) p D"
    and win: "is_candidate i \<Longrightarrow>
      heaviest_child (with_leaf F leaf p i) (i\<lparr>children := insort_insert leaf (children i)\<rparr>) = Some leaf"
    and n: "upd_best D leaf (with_leaf F leaf p i) n = Some j"
  shows "best_ok (upd_best D leaf (with_leaf F leaf p i)) n j"
proof -
  note l = leaf_preD [OF pre]
  let ?F = "with_leaf F leaf p i"
  let ?G = "upd_best D leaf ?F" and ?b = "best_slot i"
  have t: "tree_ok root ?F" by (rule with_leaf_tree [OF pre])
  obtain x where x: "?F n = Some x" "j = (if n \<in> D then x\<lparr>best_slot := leaf\<rparr> else x)" using upd_best_SomeD [OF n] by blast
  have heavy: "heaviest_child ?G j = heaviest_child ?F x" using x by (intro heaviest_child_cong) (auto simp: upd_best_fields)
  have b: "?b \<in> subtree ?F p" using with_leaf_facts(1) [OF pre with_leaf_parent] by (simp add: node_inv_def)
  have D: "p \<in> subtree ?F m" "best_slot (info ?F m) = ?b" if "m \<in> D" for m using walkedD(1,2) [OF w that] .
  have dom: "?F c \<noteq> None" if "c \<in> set (children x)" for c using tree_ok_child [OF t x(1) that] by auto
  show ?thesis
  proof (cases "n = p")
    case True
    have "p \<in> D" by (rule walkedD(3) [OF w]) simp
    moreover have "x = i\<lparr>children := insort_insert leaf (children i)\<rparr>" using x True by simp
    moreover have "best_slot (info ?G leaf) = leaf" using upd_best_fields(8) [of ?F leaf D leaf] l(5) by simp
    ultimately show ?thesis using win x True heavy by (auto simp: best_ok_def best_of_def is_candidate_def)
  next
    case False
    have ok: "best_ok ?F n x" by (rule with_leaf_facts(4) [OF pre x(1) False])
    show ?thesis
    proof (cases "is_candidate x")
      case False
      with x show ?thesis by (auto simp: best_ok_def is_candidate_def)
    next
      case cand: True
      show ?thesis
      proof (cases "heaviest_child ?F x")
        case None
        have "n \<notin> D"
        proof
          assume nD: "n \<in> D"
          from ok cand None x D(2) [OF nD] have "?b = n" by (simp add: best_ok_def best_of_def)
          with b subtree_slot [OF t D(1) [OF nD]] subtree_slot [OF t b] False show False by auto
        qed
        with ok x heavy None show ?thesis by (simp add: best_ok_def best_of_def)
      next
        case (Some d)
        from heaviest_child_in [OF Some] have d: "d \<in> set (children x)" by blast
        have nd: "(n, d) \<in> child_rel ?F" using x(1) d by (rule child_relI)
        have best: "best_slot x = best_slot (info ?F d)" using ok cand Some by (simp add: best_ok_def best_of_def)
        have iff: "n \<in> D \<longleftrightarrow> d \<in> D"
        proof
          assume nD: "n \<in> D"
          with walkedD(4) [OF w nD False] obtain c where c: "c \<in> D" "(n, c) \<in> child_rel ?F" by blast
          show "d \<in> D"
          proof (rule ccontr)
            assume "d \<notin> D"
            with c have dc: "d \<noteq> c" by auto
            from dom [OF d] obtain y where y: "?F d = Some y" by blast
            from with_leaf_facts(1) [OF pre y] y have "best_slot (info ?F d) \<in> subtree ?F d" by (simp add: node_inv_def)
            moreover have "best_slot (info ?F d) = ?b" using D(2) [OF nD] best x by simp
            moreover have "?b \<in> subtree ?F c" using subtree_trans [OF D(1) [OF c(1)] b] .
            ultimately show False using children_disjoint [OF t nd c(2) dc] by auto
          qed
        next
          assume dD: "d \<in> D"
          with D(2) [OF dD] best x have "best_slot (info ?F n) = ?b" by simp
          with walkedD(5) [OF w dD nd] show "n \<in> D" by blast
        qed
        show ?thesis
          using heavy Some x iff best upd_best_fields(8) [of ?F d D leaf, OF dom [OF d]] by (simp add: best_ok_def best_of_def)
      qed
    qed
  qed
qed

lemma deep_frame_fields:
  assumes "deep_frame F G"
  shows "weight G n = weight F n" "best_slot (info G n) = best_slot (info F n)"
    "is_candidate (info G n) = is_candidate (info F n)"
    "is_duplicate_confirmed (info G n) = is_duplicate_confirmed (info F n)"
    "latest_invalid_ancestor (info G n) = latest_invalid_ancestor (info F n)"
proof -
  have "weight G n = weight F n \<and> best_slot (info G n) = best_slot (info F n) \<and>
    is_candidate (info G n) = is_candidate (info F n) \<and>
    is_duplicate_confirmed (info G n) = is_duplicate_confirmed (info F n) \<and>
    latest_invalid_ancestor (info G n) = latest_invalid_ancestor (info F n)"
  proof (cases "F n")
    case None
    with deep_frame_NoneD [OF assms None] show ?thesis by (simp add: weight_def info_def)
  next
    case (Some i)
    with deep_frame_SomeD [OF assms Some] show ?thesis by (auto simp: weight_def is_candidate_def)
  qed
  then show "weight G n = weight F n" "best_slot (info G n) = best_slot (info F n)"
    "is_candidate (info G n) = is_candidate (info F n)"
    "is_duplicate_confirmed (info G n) = is_duplicate_confirmed (info F n)"
    "latest_invalid_ancestor (info G n) = latest_invalid_ancestor (info F n)"
    by auto
qed

lemma deep_frame_rev:
  assumes "deep_frame F G" "G k = Some j"
  shows "\<exists>i h d. F k = Some i \<and> j = i\<lparr>height := h, deepest_slot := d\<rparr>"
proof (cases "F k")
  case None
  with deep_frame_NoneD [OF assms(1)] assms(2) show ?thesis by simp
next
  case (Some i)
  with deep_frame_SomeD [OF assms(1) Some] assms(2) show ?thesis by auto
qed

lemma deep_frame_shape: "deep_frame F G \<Longrightarrow> same_shape F G"
proof (rule same_shapeI)
  assume f: "deep_frame F G"
  show "dom F = dom G"
    using deep_frame_SomeD [OF f] deep_frame_rev [OF f] by (auto simp: dom_def) (metis, metis)
  show "\<exists>j. G k = Some j \<and> parent j = parent i \<and> children j = children i" if "F k = Some i" for k i
    using deep_frame_SomeD [OF f that] by auto
qed

lemma propagated_ok:
  assumes pre: "leaf_pre root F leaf p i" and s: "same_shape (with_leaf F leaf p i) G"
    and rest: "\<And>n j. G n = Some j \<Longrightarrow> best_ok G n j \<and> deep_ok G n j"
    and view: "\<And>n. weight G n = weight (with_leaf F leaf p i) n \<and>
      is_duplicate_confirmed (info G n) = is_duplicate_confirmed (info (with_leaf F leaf p i) n) \<and>
      latest_invalid_ancestor (info G n) = latest_invalid_ancestor (info (with_leaf F leaf p i) n)"
    and own: "\<And>n j x. G n = Some j \<Longrightarrow> with_leaf F leaf p i n = Some x \<Longrightarrow>
      stake_voted_at j = stake_voted_at x \<and> (best_slot j = best_slot x \<or> best_slot j = leaf \<and> p \<in> subtree (with_leaf F leaf p i) n)"
  shows "tree_ok root G" "marks_ok G" "\<And>n j. G n = Some j \<Longrightarrow> node_inv G n j \<and> derived G n j"
proof -
  let ?F = "with_leaf F leaf p i"
  have t: "tree_ok root ?F" by (rule with_leaf_tree [OF pre])
  show "tree_ok root G" by (rule tree_ok_same_shape [OF s t])
  have m: "same_marks ?F G" unfolding same_marks_def using view by (metis info_Some)
  show "marks_ok G" by (rule marks_ok_same [OF t s m with_leaf_marks [OF pre]])
  have pl: "(p, leaf) \<in> child_rel ?F" by (simp add: child_rel_with_leaf [OF pre])
  fix n j
  assume n: "G n = Some j"
  from same_shape_SomeD [OF same_shape_sym [OF s] n] obtain x where
    x: "?F n = Some x" "parent x = parent j" "children x = children j" by auto
  note f = with_leaf_facts [OF pre x(1)]
  have v: "stake_voted_subtree j = stake_voted_subtree x" "is_duplicate_confirmed j = is_duplicate_confirmed x"
    "latest_invalid_ancestor j = latest_invalid_ancestor x"
    using view [of n] n x(1) by (simp_all add: weight_def)
  have "leaf \<in> subtree ?F n" if "p \<in> subtree ?F n"
    using subtree_trans [OF that, of leaf] subtree_child [OF pl] subtree_refl [of leaf ?F] by blast
  then have "best_slot j \<in> subtree ?F n" using own [OF n x(1)] f(1) by (auto simp: node_inv_def)
  then have "node_inv G n j" using f(1) v by (simp add: node_inv_def subtree_same_shape [OF s])
  moreover have "base_ok G j = base_ok ?F x"
    using x v own [OF n x(1)] view by (intro base_ok_cong) simp_all
  ultimately show "node_inv G n j \<and> derived G n j" using f(2) rest [OF n] by (simp add: derived_iff)
qed

lemma propagate_new_leaf_ok:
  assumes pre: "leaf_pre root F leaf p i" and G: "fm G = with_leaf F leaf p i" "btm_ok G"
  shows "\<exists>G'. propagate_new_leaf leaf p G = Some G' \<and> btm_ok G' \<and> same_shape (fm G) (fm G') \<and>
    tree_ok root (fm G') \<and> marks_ok (fm G') \<and> same_marks (fm G) (fm G') \<and>
    (\<forall>n j. fm G' n = Some j \<longrightarrow> node_inv (fm G') n j \<and> derived (fm G') n j \<and>
       stake_voted_at j = stake_voted_at (info (fm G) n))"
proof -
  note l = leaf_preD [OF pre]
  let ?F = "with_leaf F leaf p i" and ?i = "i\<lparr>children := insort_insert leaf (children i)\<rparr>"
  have t: "tree_ok root (fm G)" using with_leaf_tree [OF pre] G(1) by simp
  have p: "fm G p = Some ?i" using fun_cong [OF G(1), of p] by simp
  have c: "leaf \<in> set (children ?i)" by (simp add: set_insort_insert)
  define best where "best = (\<forall>d \<in> set (candidates ?F ?i). \<not> heavier ?F d leaf)"
  have test: "is_best_child G leaf = Some best"
    using is_best_child_eq [OF t p c] by (simp only: G(1) best_def)
  have win: "best \<longleftrightarrow> heaviest_child ?F ?i = Some leaf" if "is_candidate i"
  proof -
    have "leaf \<in> set (candidates ?F ?i)" using that l(5) by (simp add: candidates_def set_insort_insert is_candidate_def)
    from champion_member [OF heavier_linear this] show ?thesis by (simp add: best_def heaviest_child_def)
  qed
  have "\<exists>G2 D. (if best then propagate_best leaf (best_slot i) (Some p) G else Some G) = Some G2 \<and> btm_ok G2 \<and>
      fm G2 = upd_best D leaf ?F \<and> (\<forall>n \<in> D. p \<in> subtree ?F n) \<and> (\<forall>n j. fm G2 n = Some j \<longrightarrow> best_ok (fm G2) n j)"
  proof (cases best)
    case True
    from propagate_best_ok [OF t p G(2), of leaf "best_slot i"] obtain G2 D where
      G2: "propagate_best leaf (best_slot i) (Some p) G = Some G2" "fm G2 = upd_best D leaf ?F" "btm_ok G2"
        "walked ?F (best_slot i) p D" unfolding G(1) by blast
    have "best_ok (fm G2) n j" if "fm G2 n = Some j" for n j
      using upd_best_best_ok [OF pre G2(4), of n j] win True that fun_cong [OF G2(2), of n] unfolding G2(2) by simp
    with True G2 walkedD(1) [OF G2(4)] show ?thesis by auto
  next
    case False
    have "best_ok ?F n j" if n: "?F n = Some j" for n j
    proof (cases "n = p")
      case True
      then have j: "j = ?i" using n by simp
      show ?thesis
      proof (cases "is_candidate i")
        case cand: True
        have "leaf \<in> set (candidates ?F ?i)" using cand l(5) by (simp add: candidates_def set_insort_insert is_candidate_def)
        then have "heaviest_child ?F ?i \<noteq> None" using heavier_linear [of ?F] by (auto simp: heaviest_child_def)
        then obtain d where d: "heaviest_child ?F ?i = Some d" by blast
        with win [OF cand] False have "d \<noteq> leaf" by auto
        with with_leaf_heaviest [OF pre d] d l(8) [OF l(3)] j True cand with_leaf_fields(4) [of F p i d leaf, OF l(3)]
        show ?thesis by (simp add: best_ok_def best_of_def derived_def)
      qed (auto simp: best_ok_def j is_candidate_def)
    qed (rule with_leaf_facts(4) [OF pre n])
    moreover have "fm G = upd_best {} leaf ?F" by (simp only: G(1) upd_best_empty)
    ultimately show ?thesis using False G fun_cong [OF G(1)] by (intro exI [of _ G] exI [of _ "{}"]) simp
  qed
  then obtain G2 D where G2: "(if best then propagate_best leaf (best_slot i) (Some p) G else Some G) = Some G2"
      "btm_ok G2" "fm G2 = upd_best D leaf ?F" "\<And>n. n \<in> D \<Longrightarrow> p \<in> subtree ?F n"
      "\<And>n j. fm G2 n = Some j \<Longrightarrow> best_ok (fm G2) n j" by blast
  have s2: "same_shape ?F (fm G2)" unfolding G2(3) by (rule upd_best_shape)
  have t2: "tree_ok root (fm G2)" by (rule tree_ok_same_shape [OF s2 with_leaf_tree [OF pre]])
  have pend: "deep_pending (fm G2) p leaf 1 leaf"
    unfolding G2(3) by (rule upd_best_pending [OF with_leaf_parent with_leaf_pending [OF pre]])
  from same_shape_SomeD [OF s2 with_leaf_parent] obtain i2 where "fm G2 p = Some i2" by blast
  from propagate_deepest_ok [OF t2 this G2(2) pend] obtain G3 where
    G3: "propagate_deepest leaf (Some p) leaf 1 G2 = Some G3" "btm_ok G3" "deep_frame (fm G2) (fm G3)"
      "\<And>n j. fm G3 n = Some j \<Longrightarrow> deep_ok (fm G3) n j" by blast
  note fr = deep_frame_fields [OF G3(3)]
  have run: "propagate_new_leaf leaf p G = Some G3"
    using p test G2(1) G3(1) unfolding propagate_new_leaf_def by (cases best) simp_all
  have s3: "same_shape ?F (fm G3)" by (rule same_shape_trans [OF s2 deep_frame_shape [OF G3(3)]])
  have view: "weight (fm G3) n = weight ?F n \<and>
      is_duplicate_confirmed (info (fm G3) n) = is_duplicate_confirmed (info ?F n) \<and>
      latest_invalid_ancestor (info (fm G3) n) = latest_invalid_ancestor (info ?F n)" for n
    by (simp only: fr G2(3) upd_best_fields)
  have best3: "best_ok (fm G3) n j" if n: "fm G3 n = Some j" for n j
  proof -
    from deep_frame_rev [OF G3(3) n] obtain x h d where x: "fm G2 n = Some x" "j = x\<lparr>height := h, deepest_slot := d\<rparr>" by blast
    have "best_ok (fm G3) n j = best_ok (fm G2) n x"
      by (rule best_ok_cong) (simp_all add: x(2) fr is_candidate_def)
    with G2(5) [OF x(1)] show ?thesis by simp
  qed
  have own: "stake_voted_at j = stake_voted_at x \<and> (best_slot j = best_slot x \<or> best_slot j = leaf \<and> p \<in> subtree ?F n)"
    if n: "fm G3 n = Some j" "?F n = Some x" for n j x
  proof -
    from deep_frame_rev [OF G3(3) n(1)] obtain y h d where y: "fm G2 n = Some y" "j = y\<lparr>height := h, deepest_slot := d\<rparr>" by blast
    from y(1) n(2) fun_cong [OF G2(3), of n] have "y = (if n \<in> D then x\<lparr>best_slot := leaf\<rparr> else x)" by (simp add: upd_best_def)
    with y(2) G2(4) [of n] show ?thesis by auto
  qed
  from best3 G3(4) have rest: "best_ok (fm G3) n j \<and> deep_ok (fm G3) n j" if "fm G3 n = Some j" for n j
    using that by blast
  note ok = propagated_ok [OF pre s3 rest view own]
  have "stake_voted_at j = stake_voted_at (info ?F n)" if n: "fm G3 n = Some j" for n j
  proof -
    from same_shape_SomeD [OF same_shape_sym [OF s3] n] obtain x where "?F n = Some x" by blast
    with own [OF n this] show ?thesis by simp
  qed
  moreover have "same_marks ?F (fm G3)" unfolding same_marks_def using view by (metis info_Some)
  ultimately show ?thesis using run G3(2) s3 ok unfolding G(1) by blast
qed

lemma add_new_leaf_ok:
  assumes inv: "fc_inv stake_of voters s" and new: "btm_get leaf (fork_infos s) = None"
    and p: "btm_get p (fork_infos s) = Some i" "fst p < fst leaf"
    and votes: "voted_for (latest_votes s) leaf = {}"
  shows "\<exists>s'. add_new_leaf_slot leaf (Some p) s = Some s' \<and> fc_inv stake_of voters s' \<and>
    tree_root s' = tree_root s \<and> latest_votes s' = latest_votes s \<and>
    same_shape (with_leaf (fm (fork_infos s)) leaf p i) (fm (fork_infos s')) \<and>
    same_marks (with_leaf (fm (fork_infos s)) leaf p i) (fm (fork_infos s'))"
proof -
  let ?F = "fm (fork_infos s)"
  have pre: "leaf_pre (tree_root s) ?F leaf p i" using inv new p by (auto simp: leaf_pre_def fc_inv_def)
  have ne: "p \<noteq> leaf" using p by auto
  let ?G1 = "btm_put leaf (new_leaf_info leaf (Some p) (latest_invalid_ancestor i)) (fork_infos s)"
  let ?G = "btm_put p (i\<lparr>children := insort_insert leaf (children i)\<rparr>) ?G1"
  have G: "fm ?G = with_leaf ?F leaf p i" "btm_ok ?G"
    using inv by (auto simp: with_leaf_def btm_get_put fc_inv_def)
  from propagate_new_leaf_ok [OF pre G] obtain G' where
    G': "propagate_new_leaf leaf p ?G = Some G'" "btm_ok G'" "same_shape (fm ?G) (fm G')"
      "tree_ok (tree_root s) (fm G')" "marks_ok (fm G')" "same_marks (fm ?G) (fm G')"
      "\<And>n j. fm G' n = Some j \<Longrightarrow> node_inv (fm G') n j \<and> derived (fm G') n j \<and>
         stake_voted_at j = stake_voted_at (info (fm ?G) n)" by blast
  have run: "add_new_leaf_slot leaf (Some p) s = Some (s\<lparr>fork_infos := G'\<rparr>)"
    using new p(1) ne G'(1)
    by (simp add: add_new_leaf_slot_def fc_latest_invalid_ancestor_def btm_get_put Let_def)
  have "stake_voted_at j = tally stake_of (latest_votes s) n" if n: "fm G' n = Some j" for n j
  proof -
    from same_shape_SomeD [OF same_shape_sym [OF G'(3) [unfolded G(1)]] n]
    obtain x where x: "with_leaf ?F leaf p i n = Some x" by blast
    then have "stake_voted_at x = tally stake_of (latest_votes s) n"
      using ne p(1)
    proof (cases rule: with_leaf_cases)
      case new
      with votes show ?thesis by (simp add: tally_def)
    next
      case parent
      with inv p(1) show ?thesis by (simp add: fc_inv_def)
    next
      case old
      with inv show ?thesis by (simp add: fc_inv_def)
    qed
    with G'(7) [OF n] x show ?thesis unfolding G(1) by simp
  qed
  then have "fc_inv stake_of voters (s\<lparr>fork_infos := G'\<rparr>)" using inv G'(2,4,5,7) by (simp add: fc_inv_def)
  with run G'(3,6) show ?thesis unfolding G(1) by simp
qed

end
