(* ===== verification/Fork_Marks.thy ===== *)
theory Fork_Marks
  imports Fork_Leaf
begin

text \<open>
  Walking the tree (\<open>subtree_diff\<close>, \<open>AncestorIterator\<close>) and marking forks: a block that was found
  to be a duplicate is invalid with everything below it, a duplicate confirmed block is valid again
  with its ancestors.
\<close>

section \<open>Walks\<close>

text \<open>The blocks below \<open>k\<close> that are not reached through \<open>r\<close>.\<close>

definition cut :: "'h fork_map \<Rightarrow> 'h slot_hash_key \<Rightarrow> 'h slot_hash_key \<Rightarrow> 'h slot_hash_key set" where
  "cut F r k = {n \<in> subtree F k. \<not> (r \<in> subtree F k \<and> n \<in> subtree F r)}"

lemma cut_same: "cut F k k = {}"
  by (auto simp: cut_def)

lemma cut_unfold:
  assumes t: "tree_ok root F" and i: "F k = Some i" and k: "k \<noteq> r"
  shows "cut F r k = insert k (\<Union>c \<in> set (children i). cut F r c)"
proof (intro equalityI subsetI)
  have sub: "subtree F k = insert k (\<Union>c \<in> set (children i). subtree F c)"
    by (rule subtree_unfold_info [of F k i, OF i])
  have kc: "(k, c) \<in> child_rel F" if "c \<in> set (children i)" for c using i that by (rule child_relI)
  {
    fix n
    assume "n \<in> cut F r k"
    then have n: "n \<in> subtree F k" "\<not> (r \<in> subtree F k \<and> n \<in> subtree F r)" by (auto simp: cut_def)
    show "n \<in> insert k (\<Union>c \<in> set (children i). cut F r c)"
    proof (cases "n = k")
      case False
      with n sub obtain c where c: "c \<in> set (children i)" "n \<in> subtree F c" by auto
      have "r \<in> subtree F c \<Longrightarrow> r \<in> subtree F k" using subtree_child [OF kc [OF c(1)]] by blast
      with c n(2) show ?thesis by (auto simp: cut_def)
    qed simp
  next
    fix n
    assume n: "n \<in> insert k (\<Union>c \<in> set (children i). cut F r c)"
    show "n \<in> cut F r k"
    proof (cases "n = k")
      case True
      have "\<not> (r \<in> subtree F k \<and> k \<in> subtree F r)"
        using subtree_slot [OF t, of r k] subtree_slot [OF t, of k r] k by auto
      with True show ?thesis by (simp add: cut_def)
    next
      case False
      with n obtain c where c: "c \<in> set (children i)" "n \<in> subtree F c" "\<not> (r \<in> subtree F c \<and> n \<in> subtree F r)"
        by (auto simp: cut_def)
      have "\<not> (r \<in> subtree F k \<and> n \<in> subtree F r)"
      proof
        assume r: "r \<in> subtree F k \<and> n \<in> subtree F r"
        with k sub obtain d where d: "d \<in> set (children i)" "r \<in> subtree F d" by auto
        with subtree_trans [OF d(2)] r have "n \<in> subtree F d" by blast
        with c(2) children_disjoint [OF t kc [OF c(1)] kc [OF d(1)]] have "c = d" by blast
        with c(3) d(2) r show False by blast
      qed
      with c subtree_child [OF kc [OF c(1)]] show ?thesis by (auto simp: cut_def)
    qed
  }
qed

lemma subtree_diff_loop_ok:
  assumes t: "tree_ok root (fm infos)"
    and "set pending \<subseteq> dom (fm infos)" "sorted reach" "distinct reach"
  shows "\<exists>xs. subtree_diff_loop infos r pending reach = Some xs \<and> sorted xs \<and> distinct xs \<and>
    set xs = set reach \<union> (\<Union>k \<in> set pending. cut (fm infos) r k)"
  using assms(2-)
proof (induction "sum_list (map (\<lambda>k. card (subtree (fm infos) k)) pending)" arbitrary: pending reach rule: less_induct)
  case less
  let ?F = "fm infos" and ?c = "\<lambda>k. card (subtree (fm infos) k)"
  note unfold = subtree_diff_loop.simps [of infos r pending reach]
  show ?case
  proof (cases pending)
    case Nil
    with less.prems show ?thesis by (subst unfold) simp
  next
    case (Cons k rest)
    with less.prems(1) obtain i where i: "?F k = Some i" by auto
    have "finite (subtree ?F k)" using subtree_finite [OF t] i by blast
    then have pos: "0 < ?c k" using subtree_refl [of k ?F] by (metis card_gt_0_iff empty_iff)
    show ?thesis
    proof (cases "k = r")
      case True
      have "sum_list (map ?c rest) < sum_list (map ?c pending)" using Cons pos by simp
      moreover have "set rest \<subseteq> dom ?F" using less.prems(1) Cons by simp
      ultimately obtain xs where "subtree_diff_loop infos r rest reach = Some xs" "sorted xs" "distinct xs"
        "set xs = set reach \<union> (\<Union>k \<in> set rest. cut ?F r k)"
        using less.hyps less.prems(2,3) by blast
      with True Cons show ?thesis by (subst unfold) (simp add: cut_same)
    next
      case False
      let ?p = "rev (children i) @ rest" and ?r = "insort_insert k reach"
      have "?c k = 1 + sum_list (map ?c (children i))" using sum_subtree [OF t i, of "\<lambda>_. 1"] by simp
      then have "sum_list (map ?c ?p) < sum_list (map ?c pending)" using Cons by (simp add: rev_map [symmetric] sum_list_rev)
      moreover have "set (children i) \<subseteq> dom ?F" using tree_ok_child [OF t i] by blast
      then have "set ?p \<subseteq> dom ?F" using less.prems(1) Cons by simp
      moreover have "sorted ?r" "distinct ?r"
        using less.prems(2,3) by (auto simp: insort_insert_key_def sorted_insort distinct_insort)
      ultimately obtain xs where xs: "subtree_diff_loop infos r ?p ?r = Some xs" "sorted xs" "distinct xs"
        "set xs = set ?r \<union> (\<Union>k \<in> set ?p. cut ?F r k)"
        using less.hyps by blast
      have "set xs = set reach \<union> (\<Union>k \<in> set pending. cut ?F r k)"
        unfolding xs(4) using Cons cut_unfold [OF t i False] by (auto simp: set_insort_insert)
      with xs False Cons i show ?thesis by (subst unfold) (simp add: fc_lookups(4))
    qed
  qed
qed

lemma subtree_diff_ok:
  assumes t: "tree_ok root (fm infos)" and k: "btm_get k infos \<noteq> None"
  shows "\<exists>xs. subtree_diff infos k r = Some xs \<and> sorted xs \<and> distinct xs \<and> set xs = cut (fm infos) r k"
  using subtree_diff_loop_ok [OF t, of "[k]" "[]" r] k by (auto simp: subtree_diff_def)

text \<open>The proper ancestors of a block.\<close>

definition above :: "'h fork_map \<Rightarrow> 'h slot_hash_key \<Rightarrow> 'h slot_hash_key set" where
  "above F k = {n. k \<in> subtree F n \<and> n \<noteq> k}"

lemma above_parent:
  assumes t: "tree_ok root F" and i: "F k = Some i" and p: "parent i = Some p"
  shows "above F k = insert p (above F p)"
proof (intro equalityI subsetI)
  have pk: "(p, k) \<in> child_rel F" using i p by (auto simp: child_rel_iff_parent [OF t])
  have slot: "fst p < fst k" using tree_ok_parent [OF t i p] by blast
  fix n
  show "n \<in> insert p (above F p)" if "n \<in> above F k"
    using subtree_parent [OF t, of k n] that i p by (auto simp: above_def)
  show "n \<in> above F k" if n: "n \<in> insert p (above F p)"
  proof -
    have pn: "p \<in> subtree F n" using n by (auto simp: above_def)
    have "k \<in> subtree F n" using subtree_trans [OF pn, of k] subtree_child [OF pk] subtree_refl [of k F] by blast
    moreover have "n \<noteq> k" using subtree_slot [OF t pn] slot by auto
    ultimately show ?thesis by (simp add: above_def)
  qed
qed

lemma above_none:
  assumes t: "tree_ok root F" and k: "ancestor_next infos k = None" "F = fm infos"
  shows "above F k = {}"
proof -
  have "n = k" if "k \<in> subtree F n" for n
  proof (rule ccontr)
    assume "n \<noteq> k"
    from subtree_parent [OF t that] this k show False by (auto simp: ancestor_next_def)
  qed
  then show ?thesis by (auto simp: above_def)
qed

lemma ancestor_iterator_ok:
  assumes t: "tree_ok root (fm infos)"
  shows "\<exists>ps. ancestor_iterator infos k = Some ps \<and> set ps = above (fm infos) k \<and>
    sorted_wrt (\<lambda>a b. fst b < fst a) (k # ps)"
proof (induction "fst k" arbitrary: k rule: less_induct)
  case less
  note unfold = ancestor_iterator.simps [of infos k]
  show ?case
  proof (cases "ancestor_next infos k")
    case None
    with above_none [OF t None] show ?thesis by (subst unfold) simp
  next
    case (Some p)
    then obtain i where i: "fm infos k = Some i" "parent i = Some p"
      by (auto simp: ancestor_next_def split: option.splits)
    have slot: "fst p < fst k" using tree_ok_parent [OF t i] by blast
    from less [OF slot] obtain ps where ps: "ancestor_iterator infos p = Some ps" "set ps = above (fm infos) p"
      "sorted_wrt (\<lambda>a b. fst b < fst a) (p # ps)" by blast
    then have "sorted_wrt (\<lambda>a b. fst b < fst a) (k # p # ps)" using slot by auto
    with ps Some above_parent [OF t i] show ?thesis by (subst unfold) simp
  qed
qed

lemma any_ancestor_ok:
  assumes t: "tree_ok root (fm infos)"
  shows "any_ancestor infos P k = Some (\<exists>n \<in> above (fm infos) k. P n)"
proof (induction "fst k" arbitrary: k rule: less_induct)
  case less
  note unfold = any_ancestor.simps [of infos P k]
  show ?case
  proof (cases "ancestor_next infos k")
    case None
    with above_none [OF t None] show ?thesis by (subst unfold) simp
  next
    case (Some p)
    then obtain i where i: "fm infos k = Some i" "parent i = Some p"
      by (auto simp: ancestor_next_def split: option.splits)
    have slot: "fst p < fst k" using tree_ok_parent [OF t i] by blast
    from less [OF slot] Some above_parent [OF t i] show ?thesis by (subst unfold) auto
  qed
qed

lemma is_strict_ancestor_ok:
  assumes t: "tree_ok root (fm (fork_infos s))"
  shows "is_strict_ancestor s a k = Some (a \<in> above (fm (fork_infos s)) k)"
proof -
  have "a \<notin> above (fm (fork_infos s)) k" if "a = k \<or> fst k < fst a"
    using that subtree_slot [OF t, of k a] by (auto simp: above_def)
  then show ?thesis
    using any_ancestor_ok [OF t] by (auto simp: is_strict_ancestor_def prod_eq_iff split: prod.splits)
qed

lemma insert_across_get:
  assumes t: "tree_ok root (fm infos)" and "btm_ok ops" "\<And>n. n \<in> above (fm infos) k \<Longrightarrow> btm_get (n, L_Aggregate) ops = None"
  shows "\<exists>ops'. do_insert_aggregate_operations_across_ancestors infos None k ops = Some ops' \<and> btm_ok ops' \<and>
    (\<forall>n l. btm_get (n, l) ops' =
       (if l = L_Aggregate \<and> n \<in> above (fm infos) k then Some Op_Aggregate else btm_get (n, l) ops))"
  using assms(2,3)
proof (induction "fst k" arbitrary: k ops rule: less_induct)
  case less
  note unfold = do_insert_aggregate_operations_across_ancestors.simps [of infos None k ops]
  show ?case
  proof (cases "ancestor_next infos k")
    case None
    with above_none [OF t None] less.prems(1) show ?thesis by (subst unfold) simp
  next
    case (Some p)
    then obtain i where i: "fm infos k = Some i" "parent i = Some p"
      by (auto simp: ancestor_next_def split: option.splits)
    have slot: "fst p < fst k" using tree_ok_parent [OF t i] by blast
    note ab = above_parent [OF t i]
    let ?ops = "btm_put (p, L_Aggregate) Op_Aggregate ops"
    have fresh: "btm_get (n, L_Aggregate) ?ops = None" if "n \<in> above (fm infos) p" for n
      using that less.prems(2) [of n] ab by (auto simp: btm_get_put above_def)
    from less.hyps [OF slot btm_ok_put [OF less.prems(1)] fresh] obtain ops' where
      ops': "do_insert_aggregate_operations_across_ancestors infos None p ?ops = Some ops'" "btm_ok ops'"
        "\<And>n l. btm_get (n, l) ops' = (if l = L_Aggregate \<and> n \<in> above (fm infos) p then Some Op_Aggregate else btm_get (n, l) ?ops)"
      by blast
    have none: "btm_get (p, L_Aggregate) ops = None" using less.prems(2) ab by auto
    have "btm_get (n, l) ops' = (if l = L_Aggregate \<and> n \<in> above (fm infos) k then Some Op_Aggregate else btm_get (n, l) ops)" for n l
      using ab by (auto simp: ops'(3) btm_get_put)
    with ops'(1,2) Some none show ?thesis
      by (subst unfold) (simp add: do_insert_aggregate_operation_def)
  qed
qed

section \<open>The batch that marks a fork\<close>

definition mark_ops ::
  "'h fork_map \<Rightarrow> 'h slot_hash_key \<Rightarrow> update_operation \<Rightarrow> 'h::linorder update_operations \<Rightarrow> bool" where
  "mark_ops F r op ops \<longleftrightarrow> btm_ok ops \<and> (\<forall>n l. btm_get (n, l) ops =
     (if l = L_Aggregate \<and> n \<in> subtree F r \<union> above F r then Some Op_Aggregate
      else if l = label_of op \<and> n \<in> subtree F r then Some op else None))"

definition is_mark :: "update_operation \<Rightarrow> slot \<Rightarrow> bool" where
  "is_mark op s \<longleftrightarrow> op = Op_MarkValid s \<or> op = Op_MarkInvalid s"

lemma insert_all_get:
  assumes "is_mark op s" "btm_ok ops" "distinct keys" "\<And>k l. k \<in> set keys \<Longrightarrow> btm_get (k, l) ops = None"
  shows "btm_ok (insert_all_aggregates op keys ops) \<and> (\<forall>n l. btm_get (n, l) (insert_all_aggregates op keys ops) =
    (if l = L_Aggregate \<and> n \<in> set keys then Some Op_Aggregate
     else if l = label_of op \<and> n \<in> set keys then Some op else btm_get (n, l) ops))"
  using assms(2-)
proof (induction keys arbitrary: ops)
  case Nil
  then show ?case by (simp add: insert_all_aggregates_def)
next
  case (Cons k keys)
  let ?ops = "btm_put (k, L_Aggregate) Op_Aggregate (btm_put (k, label_of op) op ops)"
  have step: "snd (do_insert_aggregate_operation (Some op) k ops) = ?ops"
    using assms(1) Cons.prems(3) [of k L_Aggregate] by (auto simp: is_mark_def do_insert_aggregate_operation_def)
  have l: "label_of op \<noteq> L_Aggregate" using assms(1) by (auto simp: is_mark_def)
  have "btm_ok ?ops" using Cons.prems(1) by blast
  moreover have "distinct keys" using Cons.prems(2) by simp
  moreover have "btm_get (n, l) ?ops = None" if "n \<in> set keys" for n l
    using that Cons.prems(2) Cons.prems(3) [of n l] by (auto simp: btm_get_put)
  ultimately have ih: "btm_ok (insert_all_aggregates op keys ?ops) \<and> (\<forall>n l. btm_get (n, l) (insert_all_aggregates op keys ?ops) =
    (if l = L_Aggregate \<and> n \<in> set keys then Some Op_Aggregate
     else if l = label_of op \<and> n \<in> set keys then Some op else btm_get (n, l) ?ops))"
    by (rule Cons.IH)
  have unfold: "insert_all_aggregates op (k # keys) ops = insert_all_aggregates op keys ?ops"
    by (simp add: insert_all_aggregates_def step)
  show ?case unfolding unfold using ih l by (auto simp: btm_get_put)
qed

lemma mark_batch:
  assumes t: "tree_ok root (fm infos)" and k: "btm_get r infos \<noteq> None" and d: "fst d < fst r"
    and op: "is_mark op s"
  shows "\<exists>keys ops. subtree_diff infos r d = Some keys \<and>
    insert_aggregate_operations infos r (insert_all_aggregates op keys []) = Some ops \<and> mark_ops (fm infos) r op ops"
proof -
  from subtree_diff_ok [OF t k] obtain keys where
    keys: "subtree_diff infos r d = Some keys" "distinct keys" "set keys = cut (fm infos) d r" by blast
  have "d \<notin> subtree (fm infos) r" using subtree_slot [OF t, of d r] d by auto
  with keys(3) have set_keys: "set keys = subtree (fm infos) r" by (auto simp: cut_def)
  let ?ops = "insert_all_aggregates op keys []"
  have get: "btm_ok ?ops" "\<And>n l. btm_get (n, l) ?ops =
    (if l = L_Aggregate \<and> n \<in> set keys then Some Op_Aggregate
     else if l = label_of op \<and> n \<in> set keys then Some op else None)"
    using insert_all_get [OF op, of "[]" keys] keys(2) by (auto simp: btm_get_def)
  have dis: "n \<notin> subtree (fm infos) r" if "n \<in> above (fm infos) r" for n
    using that subtree_slot [OF t, of r n] subtree_slot [OF t, of n r] by (auto simp: above_def)
  have l: "label_of op \<noteq> L_Aggregate" using op by (auto simp: is_mark_def)
  have fresh: "btm_get (n, L_Aggregate) ?ops = None" if "n \<in> above (fm infos) r" for n
    using dis [OF that] l by (auto simp: get set_keys)
  from insert_across_get [OF t get(1) fresh] obtain ops where
    ops: "insert_aggregate_operations infos r ?ops = Some ops" "btm_ok ops"
      "\<And>n l. btm_get (n, l) ops =
        (if l = L_Aggregate \<and> n \<in> above (fm infos) r then Some Op_Aggregate else btm_get (n, l) ?ops)"
    unfolding insert_aggregate_operations_def by blast
  have "mark_ops (fm infos) r op ops"
    unfolding mark_ops_def using ops(2) l by (auto simp: ops(3) get set_keys)
  with keys(1) ops(1) show ?thesis by blast
qed

lemma mark_ops_mem:
  assumes m: "mark_ops F r op ops" and op: "is_mark op s"
  shows "((n, l), op') \<in> set ops \<longleftrightarrow> l = L_Aggregate \<and> n \<in> subtree F r \<union> above F r \<and> op' = Op_Aggregate \<or>
    l = label_of op \<and> n \<in> subtree F r \<and> op' = op"
proof -
  have l: "label_of op \<noteq> L_Aggregate" using op by (auto simp: is_mark_def)
  have ok: "btm_ok ops" and g: "btm_get (n, l) ops =
     (if l = L_Aggregate \<and> n \<in> subtree F r \<union> above F r then Some Op_Aggregate
      else if l = label_of op \<and> n \<in> subtree F r then Some op else None)"
    using m by (auto simp: mark_ops_def)
  from btm_get_Some_iff [OF ok, of "(n, l)" op'] show ?thesis unfolding g using l by (auto split: if_splits)
qed

lemma mark_ops_keys:
  assumes m: "mark_ops F r op ops" and op: "is_mark op s"
  shows "(n, l) \<in> keys_of (rev ops) \<longleftrightarrow>
    l = L_Aggregate \<and> n \<in> subtree F r \<union> above F r \<or> l = label_of op \<and> n \<in> subtree F r"
proof -
  have "(n, l) \<in> keys_of (rev ops) \<longleftrightarrow> btm_get (n, l) ops \<noteq> None"
    by (simp add: keys_of_def btm_get_None_iff)
  also have "\<dots> \<longleftrightarrow> l = L_Aggregate \<and> n \<in> subtree F r \<union> above F r \<or> l = label_of op \<and> n \<in> subtree F r"
    using m unfolding mark_ops_def by simp
  finally show ?thesis .
qed

lemma unconfirmed_below:
  assumes t: "tree_ok root F" and d: "\<And>k i. F k = Some i \<Longrightarrow> derived F k i"
    and r: "\<not> is_duplicate_confirmed (info F r)" and n: "n \<in> subtree F r"
  shows "\<not> is_duplicate_confirmed (info F n)"
proof -
  from n have "(r, n) \<in> (child_rel F)\<^sup>*" by (simp add: subtree_def)
  then show ?thesis
  proof (induction rule: rtrancl_induct)
    case (step y z)
    from step.hyps(2) obtain i where i: "F y = Some i" "z \<in> set (children i)" by (auto simp: child_rel_def)
    with d [OF i(1)] step.IH show ?case by (auto simp: derived_def confirmed_child_def)
  qed (rule r)
qed

lemma mark_loop_inv:
  assumes inv: "fc_inv stake_of voters s" and ok: "stakes_ok stake_of cap voters"
    and m: "mark_ops (fm (fork_infos s)) r op ops" and op: "is_mark op (fst r)"
    and r: "op = Op_MarkInvalid (fst r) \<Longrightarrow> \<not> is_duplicate_confirmed (info (fm (fork_infos s)) r)"
  shows "loop_inv (tree_root s) (tally stake_of (latest_votes s)) (rev ops) (fm (fork_infos s))"
proof -
  let ?F = "fm (fork_infos s)" and ?V = "latest_votes s"
  have t: "tree_ok (tree_root s) ?F" and v: "fst ` set ?V \<subseteq> voters"
    and d: "\<And>k i. ?F k = Some i \<Longrightarrow> derived ?F k i"
    using inv by (auto simp: fc_inv_def)
  have l: "label_of op \<noteq> L_Aggregate" "label_of op \<noteq> L_Add" "label_of op \<noteq> L_Subtract" using op by (auto simp: is_mark_def)
  note mem = mark_ops_mem [OF m op] and mkeys = mark_ops_keys [OF m op]
  have keys: "(n, L_Aggregate) \<in> keys_of (rev ops) \<longleftrightarrow> n \<in> subtree ?F r \<union> above ?F r" for n
    using mkeys [of n L_Aggregate] l by auto
  have closed: "ops_closed ?F (rev ops)"
    unfolding ops_closed_def
  proof (intro allI impI)
    fix k l' op'
    assume "((k, l'), op') \<in> set (rev ops)"
    then have k: "l' = L_Aggregate \<and> k \<in> subtree ?F r \<union> above ?F r \<and> op' = Op_Aggregate \<or>
        l' = label_of op \<and> k \<in> subtree ?F r \<and> op' = op" using mem [of k l' op'] by simp
    have "p \<in> subtree ?F r \<union> above ?F r" if i: "?F k = Some i" "parent i = Some p" for i p
    proof (cases "k \<in> subtree ?F r")
      case True
      show ?thesis
      proof (cases "k = r")
        case True
        with above_parent [OF t i] show ?thesis by auto
      next
        case False
        with subtree_parent [OF t True] i show ?thesis by auto
      qed
    next
      case False
      with k have "r \<in> subtree ?F k" "k \<noteq> r" by (auto simp: above_def)
      moreover have "(p, k) \<in> child_rel ?F" using i by (auto simp: child_rel_iff_parent [OF t])
      ultimately have "r \<in> subtree ?F p" using subtree_child by blast
      then show ?thesis by (auto simp: above_def)
    qed
    moreover have "s \<le> fst k" if "op' = Op_MarkInvalid s \<or> op' = Op_MarkValid s" for s
      using that k op subtree_slot [OF t, of k r] by (auto simp: is_mark_def)
    ultimately show "l' = label_of op' \<and>
       (\<forall>i p. ?F k = Some i \<longrightarrow> parent i = Some p \<longrightarrow> (p, L_Aggregate) \<in> keys_of (rev ops)) \<and>
       (\<forall>s. op' = Op_MarkInvalid s \<or> op' = Op_MarkValid s \<longrightarrow> s \<le> fst k \<and> (k, L_Aggregate) \<in> keys_of (rev ops))"
      using k keys by auto
  qed
  have zero: "op_add (rev ops) k = 0" "op_sub (rev ops) k = 0" for k
    using l op by (auto intro!: op_zero [OF _ closed] simp: mem is_mark_def)
  have sorted: "sorted_wrt (>) (map fst (rev ops))"
    using m by (simp add: mark_ops_def btm_ok_def rev_map [symmetric] sorted_wrt_rev)
  have total: "sum (tally stake_of ?V) K < 2 ^ 64" if "finite K" for K
  proof -
    have "sum (tally stake_of ?V) K \<le> sum cap (\<Union>k \<in> K. voted_for ?V k)" by (rule sum_tally [OF ok v that])
    also have "\<dots> < 2 ^ 64" using voted_for_voters [OF v] by (intro cap_sum(2) [OF ok]) blast
    finally show ?thesis .
  qed
  have "block_inv (tally stake_of ?V) (rev ops) ?F k i" if k: "?F k = Some i" for k i
  proof -
    have "k \<in> dom ?F" using k by blast
    then have "stake_voted_subtree i < 2 ^ 64"
      using fc_inv_weight [OF inv k] total [OF subtree_finite [OF t]] by simp
    moreover have "\<not> is_duplicate_confirmed i" if "(k, L_MarkInvalid x) \<in> keys_of (rev ops)" for x
    proof -
      from that mkeys [of k "L_MarkInvalid x"] op have "op = Op_MarkInvalid (fst r)" "k \<in> subtree ?F r"
        by (auto simp: is_mark_def)
      with unconfirmed_below [OF t d r, of k] k show ?thesis by simp
    qed
    ultimately show ?thesis using inv k zero by (auto simp: block_inv_def fc_inv_def)
  qed
  with t sorted closed total [OF tree_ok_finite [OF t]] show ?thesis unfolding loop_inv_block by blast
qed

section \<open>Invalid forks\<close>

definition invalid_since :: "slot \<Rightarrow> slot option \<Rightarrow> slot" where
  "invalid_since s x = (case x of None \<Rightarrow> s | Some a \<Rightarrow> max a s)"

definition marked_invalid ::
  "slot \<Rightarrow> 'h slot_hash_key set \<Rightarrow> 'h fork_map \<Rightarrow> 'h fork_map \<Rightarrow> bool" where
  "marked_invalid s S F G \<longleftrightarrow> (\<forall>k i j. F k = Some i \<longrightarrow> G k = Some j \<longrightarrow>
     is_duplicate_confirmed j = is_duplicate_confirmed i \<and>
     latest_invalid_ancestor j =
       (if k \<in> S then Some (invalid_since s (latest_invalid_ancestor i)) else latest_invalid_ancestor i))"

lemma confirmed_child_view:
  assumes t: "tree_ok root F" and s: "same_shape F G" and k: "F k = Some i" "G k = Some j"
    and view: "\<And>c x y. c \<in> set (children i) \<Longrightarrow> F c = Some x \<Longrightarrow> G c = Some y \<Longrightarrow>
      is_duplicate_confirmed y = is_duplicate_confirmed x"
  shows "confirmed_child G j = confirmed_child F i"
proof -
  have c: "children j = children i" using s k by (simp add: same_shape_def)
  have "is_duplicate_confirmed (info G c) = is_duplicate_confirmed (info F c)" if "c \<in> set (children i)" for c
  proof -
    from tree_ok_child [OF t k(1) that] obtain x where x: "F c = Some x" by blast
    from same_shape_SomeD [OF s x] obtain y where "G c = Some y" by blast
    with view [OF that x] x show ?thesis by simp
  qed
  with c show ?thesis by (simp add: confirmed_child_def)
qed

lemma apply_at_lookup:
  "fm (apply_at k op infos) n = (if n = k then map_option (apply_op (fm infos) k op) (fm infos k) else fm infos n)"
  by (cases "fm infos k") (auto simp: apply_at_def btm_get_put)

lemma invalid_step:
  assumes t: "tree_ok root F" and conf: "\<And>k i. F k = Some i \<Longrightarrow> node_inv F k i \<and> derived F k i"
    and shape: "same_shape F (fm G)" and unconf: "\<And>n i. n \<in> S \<Longrightarrow> F n = Some i \<Longrightarrow> \<not> is_duplicate_confirmed i"
    and m: "marked_invalid s X F (fm G)" "X \<subseteq> S"
    and op: "op = Op_Aggregate \<and> Y = X \<or> op = Op_MarkInvalid s \<and> k \<in> S \<and> k \<notin> X \<and> Y = insert k X"
  shows "marked_invalid s Y F (fm (apply_at k op G))"
  unfolding marked_invalid_def
proof (intro allI impI)
  fix n i j
  assume i: "F n = Some i" and j: "fm (apply_at k op G) n = Some j"
  from same_shape_SomeD [OF shape i] obtain x where x: "fm G n = Some x" by blast
  have mx: "is_duplicate_confirmed x = is_duplicate_confirmed i" "latest_invalid_ancestor x =
      (if n \<in> X then Some (invalid_since s (latest_invalid_ancestor i)) else latest_invalid_ancestor i)"
    using m(1) i x by (auto simp: marked_invalid_def)
  have "confirmed_child (fm G) x = confirmed_child F i"
    by (rule confirmed_child_view [OF t shape i x]) (use m(1) in \<open>auto simp: marked_invalid_def\<close>)
  then have c: "confirmed_child (fm G) x \<Longrightarrow> is_duplicate_confirmed i \<and> latest_invalid_ancestor i = None \<and> n \<notin> X"
    using conf [OF i] unconf [of n i] i m(2) by (auto simp: node_inv_def derived_def)
  show "is_duplicate_confirmed j = is_duplicate_confirmed i \<and> latest_invalid_ancestor j =
      (if n \<in> Y then Some (invalid_since s (latest_invalid_ancestor i)) else latest_invalid_ancestor i)"
  proof (cases "n = k")
    case False
    with j x mx op show ?thesis by (auto simp: apply_at_lookup)
  next
    case True
    with j x have "j = apply_op (fm G) k op x" by (simp add: apply_at_lookup)
    with True mx op c show ?thesis
      by (auto simp: invalid_since_def max_def split: option.splits if_splits)
  qed
qed

lemma marks_okD:
  "marks_ok F \<Longrightarrow> F k = Some i \<Longrightarrow> latest_invalid_ancestor i = Some a \<Longrightarrow> c \<in> set (children i) \<Longrightarrow>
    \<exists>b. latest_invalid_ancestor (info F c) = Some b \<and> a \<le> b"
  unfolding marks_ok_def by blast

lemma marks_okI:
  assumes t: "tree_ok root F" and s: "same_shape F G"
    and step: "\<And>k c i j x y a. F k = Some i \<Longrightarrow> G k = Some j \<Longrightarrow> (k, c) \<in> child_rel F \<Longrightarrow> F c = Some x \<Longrightarrow> G c = Some y \<Longrightarrow>
      latest_invalid_ancestor j = Some a \<Longrightarrow> \<exists>b. latest_invalid_ancestor y = Some b \<and> a \<le> b"
  shows "marks_ok G"
  unfolding marks_ok_def
proof (intro allI impI)
  fix k j a c
  assume k: "G k = Some j" "latest_invalid_ancestor j = Some a" "c \<in> set (children j)"
  from same_shape_SomeD [OF same_shape_sym [OF s] k(1)] obtain i where i: "F k = Some i" "children i = children j" by auto
  from tree_ok_child [OF t i(1), of c] i(2) k(3) obtain x where x: "F c = Some x" by auto
  from same_shape_SomeD [OF s x] obtain y where y: "G c = Some y" by blast
  have "(k, c) \<in> child_rel F" using i k(3) by (auto simp: child_rel_def)
  from step [OF i(1) k(1) this x y k(2)] y show "\<exists>b. latest_invalid_ancestor (info G c) = Some b \<and> a \<le> b" by simp
qed

lemma marked_invalid_marks:
  assumes t: "tree_ok root F" and mo: "marks_ok F" and s: "same_shape F G" and m: "marked_invalid t (subtree F r) F G"
  shows "marks_ok G"
proof (rule marks_okI [OF assms(1,3)])
  fix k c i j x y a
  assume a: "F k = Some i" "G k = Some j" "(k, c) \<in> child_rel F" "F c = Some x" "G c = Some y"
    "latest_invalid_ancestor j = Some a"
  have below: "c \<in> subtree F r" if "k \<in> subtree F r"
    using subtree_trans [OF that, of c] subtree_child [OF a(3)] subtree_refl [of c F] by blast
  have mk: "latest_invalid_ancestor j =
        (if k \<in> subtree F r then Some (invalid_since t (latest_invalid_ancestor i)) else latest_invalid_ancestor i)"
      "latest_invalid_ancestor y =
        (if c \<in> subtree F r then Some (invalid_since t (latest_invalid_ancestor x)) else latest_invalid_ancestor x)"
    using m a by (simp_all add: marked_invalid_def)
  have c: "c \<in> set (children i)" using a(1,3) by (auto simp: child_rel_def)
  have "\<exists>b'. latest_invalid_ancestor x = Some b' \<and> b \<le> b'" if "latest_invalid_ancestor i = Some b" for b
    using marks_okD [OF mo a(1) that c] a(4) by simp
  with mk below a(6) show "\<exists>b. latest_invalid_ancestor y = Some b \<and> a \<le> b"
    by (cases "latest_invalid_ancestor i"; cases "latest_invalid_ancestor x")
      (auto simp: invalid_since_def max_def split: if_splits)
qed

lemma fc_inv_loop:
  assumes "fc_inv stake_of voters s" "loop_inv (tree_root s) (tally stake_of (latest_votes s)) [] (fm G)"
    "btm_ok G" "marks_ok (fm G)"
  shows "fc_inv stake_of voters (s\<lparr>fork_infos := G\<rparr>)"
  using assms by (simp add: fc_inv_def loop_inv_def keys_of_def)

lemma mark_invalid_ok:
  assumes inv: "fc_inv stake_of voters s" and ok: "stakes_ok stake_of cap voters"
    and r: "btm_get r (fork_infos s) = Some i" "\<not> is_duplicate_confirmed i" and d: "fst d < fst r"
  shows "\<exists>s'. mark_fork_invalid_candidate d r s = Some s' \<and> fc_inv stake_of voters s' \<and>
    tree_root s' = tree_root s \<and> latest_votes s' = latest_votes s \<and>
    same_shape (fm (fork_infos s)) (fm (fork_infos s')) \<and>
    marked_invalid (fst r) (subtree (fm (fork_infos s)) r) (fm (fork_infos s)) (fm (fork_infos s'))"
proof -
  let ?F = "fm (fork_infos s)" and ?op = "Op_MarkInvalid (fst r)"
  let ?S = "subtree ?F r"
  from inv have t: "tree_ok (tree_root s) ?F" and b: "btm_ok (fork_infos s)" and mo: "marks_ok ?F"
    and conf: "\<And>k i. ?F k = Some i \<Longrightarrow> node_inv ?F k i \<and> derived ?F k i" by (auto simp: fc_inv_def)
  have op: "is_mark ?op (fst r)" by (simp add: is_mark_def)
  have "btm_get r (fork_infos s) \<noteq> None" using r by simp
  from mark_batch [OF t this d op] obtain keys ops where
    batch: "subtree_diff (fork_infos s) r d = Some keys"
      "insert_aggregate_operations (fork_infos s) r (insert_all_aggregates ?op keys []) = Some ops"
      "mark_ops ?F r ?op ops" by blast
  have nr: "\<not> is_duplicate_confirmed (info ?F r)" using r by simp
  note loop = mark_loop_inv [OF inv ok batch(3) op nr]
  have unconf: "\<not> is_duplicate_confirmed i" if "n \<in> ?S" "?F n = Some i" for n i
    using unconfirmed_below [OF t _ nr that(1)] conf that(2) by (metis info_Some)
  note mem = mark_ops_mem [OF batch(3) op] and keys = mark_ops_keys [OF batch(3) op]
  let ?X = "\<lambda>R. {n \<in> ?S. (n, L_MarkInvalid (fst r)) \<notin> keys_of R}"
  let ?Q = "\<lambda>R G. same_shape ?F (fm G) \<and> btm_ok G \<and> set R \<subseteq> set ops \<and> marked_invalid (fst r) (?X R) ?F (fm G)"
  have "\<exists>G. run_list process_update_operation (rev ops) (fork_infos s) = Some G \<and>
      loop_inv (tree_root s) (tally stake_of (latest_votes s)) [] (fm G) \<and> ?Q [] G"
  proof (rule process_run [where Q = ?Q, OF loop])
    have "?X (rev ops) = {}" using keys by auto
    then have "marked_invalid (fst r) (?X (rev ops)) ?F ?F" by (simp only: marked_invalid_def) simp
    then show "?Q (rev ops) (fork_infos s)" using b by simp
    fix k l op' R G
    assume li: "loop_inv (tree_root s) (tally stake_of (latest_votes s)) (((k, l), op') # R) (fm G)"
      and q: "?Q (((k, l), op') # R) G"
    from li have sorted: "sorted_wrt (>) (map fst (((k, l), op') # R))" by (simp add: loop_inv_def)
    have notin: "(k, l) \<notin> keys_of R" using pending_less(2) [OF sorted, of k l] by auto
    from q mem [of k l op'] have "op' = Op_Aggregate \<and> l = L_Aggregate \<or> op' = ?op \<and> l = L_MarkInvalid (fst r) \<and> k \<in> ?S" by auto
    with notin have c: "op' = Op_Aggregate \<and> ?X R = ?X (((k, l), op') # R) \<or>
        op' = ?op \<and> k \<in> ?S \<and> k \<notin> ?X (((k, l), op') # R) \<and> ?X R = insert k (?X (((k, l), op') # R))" by auto
    from q have shp: "same_shape ?F (fm G)" and mi: "marked_invalid (fst r) (?X (((k, l), op') # R)) ?F (fm G)" by simp_all
    have sub: "?X (((k, l), op') # R) \<subseteq> ?S" by blast
    have "marked_invalid (fst r) (?X R) ?F (fm (apply_at k op' G))"
      by (rule invalid_step [OF t conf shp unconf mi sub c])
    moreover have "same_shape ?F (fm (apply_at k op' G))" using q same_shape_trans [OF _ apply_at_same_shape] by blast
    ultimately show "?Q R (apply_at k op' G)" using q by (simp add: apply_at_btm_ok)
  qed
  then obtain G where G: "run_list process_update_operation (rev ops) (fork_infos s) = Some G"
      "loop_inv (tree_root s) (tally stake_of (latest_votes s)) [] (fm G)" "same_shape ?F (fm G)" "btm_ok G"
      "marked_invalid (fst r) ?S ?F (fm G)" by (auto simp: keys_of_def)
  let ?s = "s\<lparr>fork_infos := G\<rparr>"
  have run: "mark_fork_invalid_candidate d r s = Some ?s"
    using r batch(1,2) G(1) by (simp add: mark_fork_invalid_candidate_def process_update_operations_def)
  have "fc_inv stake_of voters ?s"
    by (rule fc_inv_loop [OF inv G(2,4) marked_invalid_marks [OF t mo G(3,5)]])
  with run G(3,5) show ?thesis by auto
qed

section \<open>Valid forks\<close>

definition valid_since :: "slot \<Rightarrow> slot option \<Rightarrow> slot option" where
  "valid_since s x = (case x of None \<Rightarrow> None | Some a \<Rightarrow> if a \<le> s then None else Some a)"

text \<open>
  The marks while a fork is being made valid: \<open>X\<close> are the blocks of the fork already marked, \<open>Y\<close> its
  ancestors already aggregated.
\<close>

definition marked_valid ::
  "'h slot_hash_key \<Rightarrow> 'h slot_hash_key set \<Rightarrow> 'h slot_hash_key set \<Rightarrow> 'h fork_map \<Rightarrow> 'h fork_map \<Rightarrow> bool" where
  "marked_valid r X Y F G \<longleftrightarrow> (\<forall>k i j. F k = Some i \<longrightarrow> G k = Some j \<longrightarrow>
     is_duplicate_confirmed j = (k \<in> Y \<or> k \<in> X \<and> k = r \<or> is_duplicate_confirmed i) \<and>
     latest_invalid_ancestor j =
       (if k \<in> Y then None
        else if k \<in> X then valid_since (fst r) (latest_invalid_ancestor i) else latest_invalid_ancestor i))"

lemma above_child:
  assumes k: "k \<in> above F r"
  shows "\<exists>c. (k, c) \<in> child_rel F \<and> (c = r \<or> c \<in> above F r)"
proof -
  from k have "r \<in> subtree F k" "k \<noteq> r" by (auto simp: above_def)
  with subtree_unfold [of F k] obtain c where "(k, c) \<in> child_rel F" "r \<in> subtree F c" by auto
  then show ?thesis by (auto simp: above_def)
qed

lemma above_disjoint: "tree_ok root F \<Longrightarrow> n \<in> above F r \<Longrightarrow> n \<notin> subtree F r"
  using subtree_slot [of root F r n] subtree_slot [of root F n r] by (auto simp: above_def)

lemma above_dom: "tree_ok root F \<Longrightarrow> n \<in> above F r \<Longrightarrow> n \<in> dom F"
  using above_child [of n F r] by (auto simp: child_rel_def)

lemma valid_step:
  assumes t: "tree_ok root F" and conf: "\<And>k i. F k = Some i \<Longrightarrow> node_inv F k i \<and> derived F k i"
    and shape: "same_shape F (fm G)" and m: "marked_valid r X Y F (fm G)" "X \<subseteq> subtree F r" "Y \<subseteq> above F r"
    and op: "op = Op_MarkValid (fst r) \<and> k \<in> subtree F r \<and> k \<notin> X \<and> X' = insert k X \<and> Y' = Y \<or>
      op = Op_Aggregate \<and> k \<in> X \<and> X' = X \<and> Y' = Y \<or>
      op = Op_Aggregate \<and> k \<in> above F r \<and> (\<forall>c. (k, c) \<in> child_rel F \<longrightarrow> c = r \<or> c \<in> above F r \<longrightarrow> c \<in> X \<union> Y) \<and>
        X' = X \<and> Y' = insert k Y"
  shows "marked_valid r X' Y' F (fm (apply_at k op G))"
  unfolding marked_valid_def
proof (intro allI impI)
  fix n i j
  assume i: "F n = Some i" and j: "fm (apply_at k op G) n = Some j"
  from same_shape_SomeD [OF shape i] obtain x where x: "fm G n = Some x" "children x = children i" by blast
  have mx: "is_duplicate_confirmed x = (n \<in> Y \<or> n \<in> X \<and> n = r \<or> is_duplicate_confirmed i)"
    "latest_invalid_ancestor x = (if n \<in> Y then None
      else if n \<in> X then valid_since (fst r) (latest_invalid_ancestor i) else latest_invalid_ancestor i)"
    using m(1) i x by (simp_all add: marked_valid_def)
  show "is_duplicate_confirmed j = (n \<in> Y' \<or> n \<in> X' \<and> n = r \<or> is_duplicate_confirmed i) \<and>
      latest_invalid_ancestor j = (if n \<in> Y' then None
        else if n \<in> X' then valid_since (fst r) (latest_invalid_ancestor i) else latest_invalid_ancestor i)"
  proof (cases "n = k")
    case False
    with j x mx op show ?thesis by (auto simp: apply_at_lookup)
  next
    case True
    with j x have jx: "j = apply_op (fm G) k op x" by (simp add: apply_at_lookup)
    have marked: "fst k = fst r \<longleftrightarrow> k = r" if "k \<in> subtree F r" using subtree_slot [OF t that] by auto
    have fork: "is_duplicate_confirmed i \<and> latest_invalid_ancestor i = None" if "k \<in> X" "confirmed_child (fm G) x"
    proof -
      have "is_duplicate_confirmed z = is_duplicate_confirmed y"
        if c: "c \<in> set (children i)" "F c = Some y" "fm G c = Some z" for c y z
      proof -
        have kc: "(k, c) \<in> child_rel F" using i True c(1) by (auto simp: child_rel_def)
        have "c \<in> subtree F r" using \<open>k \<in> X\<close> m(2) subtree_child [OF kc] subtree_trans [of k F r c] subtree_refl [of c F] by blast
        moreover have "c \<noteq> r"
          using subtree_slot [OF t, of k r] \<open>k \<in> X\<close> m(2) child_rel_parent [OF t kc] by auto
        ultimately show ?thesis using m(1,3) c(2,3) above_disjoint [OF t, of c r] by (auto simp: marked_valid_def)
      qed
      then have "confirmed_child F i" using confirmed_child_view [OF t shape i x(1)] that(2) by blast
      with conf [OF i] show ?thesis by (simp add: derived_def node_inv_def)
    qed
    have up: "confirmed_child (fm G) x"
      if k: "k \<in> above F r" "\<forall>c. (k, c) \<in> child_rel F \<longrightarrow> c = r \<or> c \<in> above F r \<longrightarrow> c \<in> X \<union> Y"
    proof -
      from above_child [OF k(1)] obtain c where c: "(k, c) \<in> child_rel F" "c = r \<or> c \<in> above F r" by blast
      with k(2) have dn: "c \<in> X \<union> Y" by blast
      from child_rel_parent [OF t c(1)] obtain y where y: "F c = Some y" by blast
      from same_shape_SomeD [OF shape y] obtain z where z: "fm G c = Some z" by blast
      have "c \<in> X \<longrightarrow> c = r" using c(2) m(2) above_disjoint [OF t, of c r] by auto
      with dn m(1) y z have "is_duplicate_confirmed z" by (auto simp: marked_valid_def)
      moreover have "c \<in> set (children x)" using c(1) i True x(2) by (auto simp: child_rel_def)
      ultimately show ?thesis using z by (auto simp: confirmed_child_def intro!: bexI [of _ c])
    qed
    from op show ?thesis
    proof (elim disjE)
      assume o: "op = Op_MarkValid (fst r) \<and> k \<in> subtree F r \<and> k \<notin> X \<and> X' = insert k X \<and> Y' = Y"
      then have "k \<notin> Y" using above_disjoint [OF t, of k r] m(3) by auto
      with o True jx mx marked show ?thesis by (auto simp: Let_def valid_since_def)
    next
      assume o: "op = Op_Aggregate \<and> k \<in> X \<and> X' = X \<and> Y' = Y"
      with True jx mx fork show ?thesis by (auto simp: valid_since_def)
    next
      assume o: "op = Op_Aggregate \<and> k \<in> above F r \<and> (\<forall>c. (k, c) \<in> child_rel F \<longrightarrow> c = r \<or> c \<in> above F r \<longrightarrow> c \<in> X \<union> Y) \<and>
        X' = X \<and> Y' = insert k Y"
      with True jx up show ?thesis by auto
    qed
  qed
qed

lemma marked_valid_marks:
  assumes t: "tree_ok root F" and mo: "marks_ok F" and s: "same_shape F G"
    and m: "marked_valid r (subtree F r) (above F r) F G"
  shows "marks_ok G"
proof (rule marks_okI [OF t s])
  fix k c i j x y a
  assume a: "F k = Some i" "G k = Some j" "(k, c) \<in> child_rel F" "F c = Some x" "G c = Some y"
    "latest_invalid_ancestor j = Some a"
  have c: "c \<in> set (children i)" using a(1,3) by (auto simp: child_rel_def)
  have below: "c \<in> subtree F r" if "k \<in> subtree F r"
    using subtree_trans [OF that, of c] subtree_child [OF a(3)] subtree_refl [of c F] by blast
  have nk: "k \<notin> above F r" using m a by (auto simp: marked_valid_def)
  from child_rel_parent [OF t a(3)] a(4) have p: "parent x = Some k" by auto
  have nc: "c \<notin> above F r"
  proof
    assume "c \<in> above F r"
    then have "r \<in> subtree F c" by (simp add: above_def)
    then have "r \<in> subtree F k" using subtree_child [OF a(3)] by blast
    with nk have "k = r" by (simp add: above_def)
    with child_rel_parent [OF t a(3)] subtree_slot [OF t \<open>r \<in> subtree F c\<close>] show False by auto
  qed
  have "k \<in> subtree F r" if "c \<in> subtree F r"
  proof (cases "c = r")
    case True
    with above_parent [OF t a(4) p] nk show ?thesis by auto
  next
    case False
    with subtree_parent [OF t that False] a(4) p show ?thesis by auto
  qed
  with below have iff: "c \<in> subtree F r \<longleftrightarrow> k \<in> subtree F r" by blast
  have mk: "latest_invalid_ancestor j = (if k \<in> subtree F r then valid_since (fst r) (latest_invalid_ancestor i) else latest_invalid_ancestor i)"
    "latest_invalid_ancestor y = (if c \<in> subtree F r then valid_since (fst r) (latest_invalid_ancestor x) else latest_invalid_ancestor x)"
    using m a nk nc by (simp_all add: marked_valid_def)
  then have i: "latest_invalid_ancestor i = Some a" "k \<in> subtree F r \<longrightarrow> \<not> a \<le> fst r"
    using a(6) by (auto simp: valid_since_def split: if_splits option.splits)
  from marks_okD [OF mo a(1) i(1) c] a(4) obtain b where "latest_invalid_ancestor x = Some b" "a \<le> b" by auto
  with mk(2) i(2) iff show "\<exists>b. latest_invalid_ancestor y = Some b \<and> a \<le> b" by (auto simp: valid_since_def)
qed

lemma mark_valid_order:
  fixes R :: "'h::linorder op_list"
  assumes t: "tree_ok root F" and s: "sorted_wrt (>) (map fst (((k, L_Aggregate), op) # R))"
  shows "(k, L_MarkValid v) \<notin> keys_of (((k, L_Aggregate), op) # R)"
    and "(k, c) \<in> child_rel F \<Longrightarrow> (c, l) \<notin> keys_of (((k, L_Aggregate), op) # R)"
proof -
  show "(k, L_MarkValid v) \<notin> keys_of (((k, L_Aggregate), op) # R)"
    using pending_less(2) [OF s, of k "L_MarkValid v"] label_less(4) [of v] by (auto simp: less_prod_def)
  assume "(k, c) \<in> child_rel F"
  from child_rel_parent [OF t this] have "fst k < fst c" by auto
  then show "(c, l) \<notin> keys_of (((k, L_Aggregate), op) # R)"
    using pending_less(2) [OF s, of c l] by (auto simp: less_prod_def)
qed

lemma newly_confirmed_list:
  assumes "set ks \<subseteq> dom (fm infos)"
  shows "run_list (\<lambda>k newly. do {
      confirmed \<leftarrow> fc_is_duplicate_confirmed infos k; Some (if confirmed then newly else newly @ [k]) }) ks acc =
    Some (acc @ filter (\<lambda>k. \<not> is_duplicate_confirmed (info (fm infos) k)) ks)"
  using assms by (induction ks arbitrary: acc) (auto simp: fc_is_duplicate_confirmed_def info_def)

lemma mark_valid_ok:
  assumes inv: "fc_inv stake_of voters s" and ok: "stakes_ok stake_of cap voters"
    and r: "btm_get r (fork_infos s) = Some i" and d: "fst d < fst r"
  shows "\<exists>s' as newly. mark_fork_valid_candidate d r s = Some (newly, s') \<and> fc_inv stake_of voters s' \<and>
    tree_root s' = tree_root s \<and> latest_votes s' = latest_votes s \<and>
    same_shape (fm (fork_infos s)) (fm (fork_infos s')) \<and>
    marked_valid r (subtree (fm (fork_infos s)) r) (above (fm (fork_infos s)) r) (fm (fork_infos s)) (fm (fork_infos s')) \<and>
    ancestor_iterator (fork_infos s) r = Some as \<and>
    newly = filter (\<lambda>k. \<not> is_duplicate_confirmed (info (fm (fork_infos s)) k)) (r # as)"
proof -
  let ?F = "fm (fork_infos s)" and ?op = "Op_MarkValid (fst r)"
  let ?S = "subtree ?F r" and ?A = "above ?F r"
  from inv have t: "tree_ok (tree_root s) ?F" and b: "btm_ok (fork_infos s)" and mo: "marks_ok ?F"
    and conf: "\<And>k i. ?F k = Some i \<Longrightarrow> node_inv ?F k i \<and> derived ?F k i" by (auto simp: fc_inv_def)
  have op: "is_mark ?op (fst r)" by (simp add: is_mark_def)
  have "btm_get r (fork_infos s) \<noteq> None" using r by simp
  from mark_batch [OF t this d op] obtain keys ops where
    batch: "subtree_diff (fork_infos s) r d = Some keys"
      "insert_aggregate_operations (fork_infos s) r (insert_all_aggregates ?op keys []) = Some ops"
      "mark_ops ?F r ?op ops" by blast
  have loop: "loop_inv (tree_root s) (tally stake_of (latest_votes s)) (rev ops) ?F"
    by (rule mark_loop_inv [OF inv ok batch(3) op]) simp
  note mem = mark_ops_mem [OF batch(3) op] and keys = mark_ops_keys [OF batch(3) op]
  let ?X = "\<lambda>R. {n \<in> ?S. (n, L_MarkValid (fst r)) \<notin> keys_of R}"
  let ?Y = "\<lambda>R. {n \<in> ?A. (n, L_Aggregate) \<notin> keys_of R}"
  let ?Q = "\<lambda>R G. same_shape ?F (fm G) \<and> btm_ok G \<and> set R \<subseteq> set ops \<and> marked_valid r (?X R) (?Y R) ?F (fm G)"
  have "\<exists>G. run_list process_update_operation (rev ops) (fork_infos s) = Some G \<and>
      loop_inv (tree_root s) (tally stake_of (latest_votes s)) [] (fm G) \<and> ?Q [] G"
  proof (rule process_run [where Q = ?Q, OF loop])
    have "?X (rev ops) = {}" "?Y (rev ops) = {}" using keys by auto
    then have "marked_valid r (?X (rev ops)) (?Y (rev ops)) ?F ?F" by (simp only: marked_valid_def) simp
    then show "?Q (rev ops) (fork_infos s)" using b by simp
    fix k l op' R G
    assume li: "loop_inv (tree_root s) (tally stake_of (latest_votes s)) (((k, l), op') # R) (fm G)"
      and q: "?Q (((k, l), op') # R) G"
    let ?R = "((k, l), op') # R"
    from li have sorted: "sorted_wrt (>) (map fst ?R)" by (simp add: loop_inv_def)
    have notin: "(k, l) \<notin> keys_of R" using pending_less(2) [OF sorted, of k l] by auto
    from q mem [of k l op'] have cases: "l = L_Aggregate \<and> k \<in> ?S \<and> op' = Op_Aggregate \<or>
        l = L_Aggregate \<and> k \<in> ?A \<and> op' = Op_Aggregate \<or> op' = ?op \<and> l = L_MarkValid (fst r) \<and> k \<in> ?S" by auto
    have kA: "k \<notin> ?A" if "k \<in> ?S" using that above_disjoint [OF t, of k r] by blast
    have c: "op' = ?op \<and> k \<in> ?S \<and> k \<notin> ?X ?R \<and> ?X R = insert k (?X ?R) \<and> ?Y R = ?Y ?R \<or>
      op' = Op_Aggregate \<and> k \<in> ?X ?R \<and> ?X R = ?X ?R \<and> ?Y R = ?Y ?R \<or>
      op' = Op_Aggregate \<and> k \<in> ?A \<and> (\<forall>c. (k, c) \<in> child_rel ?F \<longrightarrow> c = r \<or> c \<in> ?A \<longrightarrow> c \<in> ?X ?R \<union> ?Y ?R) \<and>
        ?X R = ?X ?R \<and> ?Y R = insert k (?Y ?R)"
      using cases
    proof (elim disjE)
      assume a: "l = L_Aggregate \<and> k \<in> ?S \<and> op' = Op_Aggregate"
      then have "k \<in> ?X ?R" using mark_valid_order(1) [OF t, of k op' R "fst r"] sorted by simp
      with a kA show ?thesis by auto
    next
      assume a: "l = L_Aggregate \<and> k \<in> ?A \<and> op' = Op_Aggregate"
      then have "c \<in> ?X ?R \<union> ?Y ?R" if "(k, c) \<in> child_rel ?F" "c = r \<or> c \<in> ?A" for c
        using mark_valid_order(2) [OF t, of k op' R c] sorted that by auto
      moreover have "?Y R = insert k (?Y ?R)" "?X R = ?X ?R" using a notin by auto
      ultimately show ?thesis using a by blast
    qed (use notin in auto)
    from q have shp: "same_shape ?F (fm G)" and mv: "marked_valid r (?X ?R) (?Y ?R) ?F (fm G)" by simp_all
    have sub: "?X ?R \<subseteq> ?S" "?Y ?R \<subseteq> ?A" by blast+
    have "marked_valid r (?X R) (?Y R) ?F (fm (apply_at k op' G))"
      by (rule valid_step [OF t conf shp mv sub c])
    moreover have "same_shape ?F (fm (apply_at k op' G))" using q same_shape_trans [OF _ apply_at_same_shape] by blast
    ultimately show "?Q R (apply_at k op' G)" using q by (simp add: apply_at_btm_ok)
  qed
  then obtain G where G: "run_list process_update_operation (rev ops) (fork_infos s) = Some G"
      "loop_inv (tree_root s) (tally stake_of (latest_votes s)) [] (fm G)" "same_shape ?F (fm G)" "btm_ok G"
      "marked_valid r ?S ?A ?F (fm G)" by (auto simp: keys_of_def)
  from ancestor_iterator_ok [OF t, of r] obtain as where as: "ancestor_iterator (fork_infos s) r = Some as" "set as = ?A"
    by blast
  let ?s = "s\<lparr>fork_infos := G\<rparr>" and ?new = "filter (\<lambda>k. \<not> is_duplicate_confirmed (info ?F k)) (r # as)"
  have "?A \<subseteq> dom ?F" using above_dom [OF t] by (rule subsetI)
  then have "set (r # as) \<subseteq> dom ?F" using as(2) domI [of ?F, OF r] by simp
  from newly_confirmed_list [OF this, of "[]"]
  have run: "mark_fork_valid_candidate d r s = Some (?new, ?s)"
    using as(1) batch(1,2) G(1) by (simp add: mark_fork_valid_candidate_def process_update_operations_def)
  have "fc_inv stake_of voters ?s"
    by (rule fc_inv_loop [OF inv G(2,4) marked_valid_marks [OF t mo G(3,5)]])
  with run G(3,5) as(1) show ?thesis by auto
qed

end
