(* ===== verification/Fork_Root.thy ===== *)
theory Fork_Root
  imports Fork_Marks
begin

text \<open>
  Moving the root: \<open>set_tree_root\<close> keeps exactly the blocks below the new root, \<open>add_root_parent\<close>
  puts a block above the root, and the tree that starts from a root satisfies the invariant.
\<close>

section \<open>The tree below a block\<close>

definition rooted_at :: "'h slot_hash_key \<Rightarrow> 'h fork_map \<Rightarrow> 'h fork_map" where
  "rooted_at r F = (F |` subtree F r)(r := map_option (\<lambda>i. i\<lparr>parent := None\<rparr>) (F r))"

lemma rooted_at_lookup:
  "rooted_at r F n = (if n = r then map_option (\<lambda>i. i\<lparr>parent := None\<rparr>) (F n) else if n \<in> subtree F r then F n else None)"
  by (simp add: rooted_at_def restrict_map_def)

lemma rooted_at_SomeE:
  assumes "rooted_at r F n = Some j"
  obtains i where "F n = Some i" "n \<in> subtree F r" "j = i \<or> n = r \<and> j = i\<lparr>parent := None\<rparr>"
    "children j = children i" "is_candidate j = is_candidate i" "best_slot j = best_slot i"
    "stake_voted_at j = stake_voted_at i" "latest_invalid_ancestor j = latest_invalid_ancestor i"
    "is_duplicate_confirmed j = is_duplicate_confirmed i"
proof -
  from assms obtain i where "F n = Some i" "n \<in> subtree F r" "j = i \<or> n = r \<and> j = i\<lparr>parent := None\<rparr>"
    unfolding rooted_at_lookup by (auto split: if_splits)
  with that [of i] show ?thesis by (auto simp: is_candidate_def)
qed

lemma rooted_at_child:
  assumes t: "tree_ok root F" and n: "n \<in> subtree F r" "(n, c) \<in> child_rel F"
  shows "c \<noteq> r" "c \<in> subtree F r" "rooted_at r F c = F c"
proof -
  show "c \<noteq> r" using subtree_slot [OF t n(1)] child_rel_parent [OF t n(2)] by auto
  show "c \<in> subtree F r" using subtree_trans [OF n(1), of c] subtree_child [OF n(2)] subtree_refl [of c F] by blast
  with \<open>c \<noteq> r\<close> show "rooted_at r F c = F c" by (simp add: rooted_at_lookup)
qed

lemma rooted_at_child_rel:
  assumes t: "tree_ok root F"
  shows "child_rel (rooted_at r F) = {(p, c) \<in> child_rel F. p \<in> subtree F r}"
proof -
  have "(p, c) \<in> child_rel (rooted_at r F) \<longleftrightarrow> (p, c) \<in> child_rel F \<and> p \<in> subtree F r" for p c
    by (cases "F p") (auto simp: child_rel_def rooted_at_lookup)
  then show ?thesis by auto
qed

lemma rooted_at_subtree:
  assumes t: "tree_ok root F" and k: "k \<in> subtree F r"
  shows "subtree (rooted_at r F) k = subtree F k"
proof (intro equalityI subsetI)
  fix n
  assume "n \<in> subtree (rooted_at r F) k"
  then have "(k, n) \<in> (child_rel (rooted_at r F))\<^sup>*" by (simp add: subtree_def)
  moreover have "child_rel (rooted_at r F) \<subseteq> child_rel F" unfolding rooted_at_child_rel [OF t] by blast
  ultimately have "(k, n) \<in> (child_rel F)\<^sup>*" using rtrancl_mono by blast
  then show "n \<in> subtree F k" by (simp add: subtree_def)
next
  fix n
  assume "n \<in> subtree F k"
  then have "(k, n) \<in> (child_rel F)\<^sup>*" by (simp add: subtree_def)
  then show "n \<in> subtree (rooted_at r F) k"
  proof (induction rule: rtrancl_induct)
    case (step y z)
    have "y \<in> subtree F r" using subtree_trans [OF k, of y] step.hyps(1) by (simp add: subtree_def)
    with step.hyps(2) have "(y, z) \<in> child_rel (rooted_at r F)" unfolding rooted_at_child_rel [OF t] by blast
    with step.IH show ?case unfolding subtree_def mem_Collect_eq by (rule rtrancl.rtrancl_into_rtrancl)
  qed simp
qed

lemma rooted_at_tree_ok:
  assumes t: "tree_ok root F" and r: "r \<in> dom F"
  shows "tree_ok r (rooted_at r F)"
proof (rule tree_okI)
  have "dom (rooted_at r F) \<subseteq> dom F" by (auto simp: rooted_at_lookup split: if_splits)
  with tree_ok_finite [OF t] show "finite (dom (rooted_at r F))" by (rule rev_finite_subset)
  show "\<exists>i. rooted_at r F r = Some i \<and> parent i = None" using r by (auto simp: rooted_at_lookup)
  fix k j
  assume j: "rooted_at r F k = Some j"
  then obtain i where i: "F k = Some i" "k \<in> subtree F r" "j = i \<or> k = r \<and> j = i\<lparr>parent := None\<rparr>" "children j = children i"
    by (rule rooted_at_SomeE)
  from tree_ok_children [OF t i(1)] i(4) show "sorted (children j) \<and> distinct (children j)" by simp
  show "fst k < fst c \<and> (\<exists>x. rooted_at r F c = Some x \<and> parent x = Some k)" if "c \<in> set (children j)" for c
  proof -
    have kc: "(k, c) \<in> child_rel F" using i(1,4) that by (auto simp: child_rel_def)
    from child_rel_parent [OF t kc] rooted_at_child(3) [OF t i(2) kc] show ?thesis by auto
  qed
  show "\<exists>p x. parent j = Some p \<and> rooted_at r F p = Some x \<and> k \<in> set (children x)" if "k \<noteq> r"
  proof -
    from subtree_parent [OF t i(2) that] i(1) obtain p where p: "parent i = Some p" "p \<in> subtree F r" by auto
    from tree_ok_parent [OF t i(1) p(1)] obtain x where x: "F p = Some x" "k \<in> set (children x)" by blast
    from x p(2) have "\<exists>x. rooted_at r F p = Some x \<and> k \<in> set (children x)" by (auto simp: rooted_at_lookup)
    with p(1) i(3) that show ?thesis by auto
  qed
qed

lemma parent_upd [simp]:
  "node_inv F k (i\<lparr>parent := p\<rparr>) = node_inv F k i" "derived F k (i\<lparr>parent := p\<rparr>) = derived F k i"
proof -
  note c = own_fields_cong [of "i\<lparr>parent := p\<rparr>" i F, simplified]
  show "node_inv F k (i\<lparr>parent := p\<rparr>) = node_inv F k i" by (simp add: node_inv_def)
  show "derived F k (i\<lparr>parent := p\<rparr>) = derived F k i" by (simp add: derived_def is_candidate_def c)
qed

lemma rooted_at_node:
  assumes t: "tree_ok root F" and i: "F k = Some i" "node_inv F k i" "derived F k i"
    and j: "rooted_at r F k = Some j"
  shows "node_inv (rooted_at r F) k j \<and> derived (rooted_at r F) k j"
proof -
  from j obtain x where x: "F k = Some x" "k \<in> subtree F r" "j = x \<or> k = r \<and> j = x\<lparr>parent := None\<rparr>"
    by (rule rooted_at_SomeE) blast
  have "info F c = info (rooted_at r F) c" if "c \<in> set (children i)" for c
  proof -
    have "(k, c) \<in> child_rel F" using i(1) that by (auto simp: child_rel_def)
    from rooted_at_child(3) [OF t x(2) this] show ?thesis by (simp add: info_def)
  qed
  then have "derived (rooted_at r F) k i" using derived_cong [of i F "rooted_at r F" k] i(3) by simp
  moreover have "node_inv (rooted_at r F) k i" using i(2) rooted_at_subtree [OF t x(2)] by (simp add: node_inv_def)
  ultimately show ?thesis using x(1,3) i(1)
by auto
qed

lemma rooted_at_marks:
  assumes t: "tree_ok root F" and m: "marks_ok F"
  shows "marks_ok (rooted_at r F)"
  unfolding marks_ok_def
proof (intro allI impI)
  fix k j a c
  assume j: "rooted_at r F k = Some j" and a: "latest_invalid_ancestor j = Some a" and c: "c \<in> set (children j)"
  from j obtain i where i: "F k = Some i" "k \<in> subtree F r" "children j = children i"
    "latest_invalid_ancestor j = latest_invalid_ancestor i" by (rule rooted_at_SomeE)
  have kc: "(k, c) \<in> child_rel F" using i c by (auto simp: child_rel_def)
  have "info (rooted_at r F) c = info F c" using rooted_at_child(3) [OF t i(2) kc] by (simp add: info_def)
  moreover have "\<exists>b. latest_invalid_ancestor (info F c) = Some b \<and> a \<le> b"
    by (rule marks_okD [OF m i(1)]) (use i a c in auto)
  ultimately show "\<exists>b. latest_invalid_ancestor (info (rooted_at r F) c) = Some b \<and> a \<le> b" by simp
qed

lemma rooted_at_inv:
  assumes inv: "fc_inv stake_of voters s" and r: "r \<in> dom (fm (fork_infos s))"
    and G: "fm G = rooted_at r (fm (fork_infos s))" "btm_ok G"
  shows "fc_inv stake_of voters (s\<lparr>fork_infos := G, tree_root := r\<rparr>)"
proof -
  let ?F = "fm (fork_infos s)"
  from inv have t: "tree_ok (tree_root s) ?F" and m: "marks_ok ?F" by (auto simp: fc_inv_def)
  have "node_inv (rooted_at r ?F) k j \<and> derived (rooted_at r ?F) k j \<and> stake_voted_at j = tally stake_of (latest_votes s) k"
    if j: "rooted_at r ?F k = Some j" for k j
  proof -
    from j obtain i where i: "?F k = Some i" "stake_voted_at j = stake_voted_at i" by (rule rooted_at_SomeE)
    with inv have "node_inv ?F k i" "derived ?F k i" "stake_voted_at i = tally stake_of (latest_votes s) k"
      by (auto simp: fc_inv_def)
    with rooted_at_node [OF t i(1) _ _ j] i(2) show ?thesis by simp
  qed
  with inv G rooted_at_tree_ok [OF t r] rooted_at_marks [OF t m] show ?thesis
    by (simp add: fc_inv_def fun_cong [OF G(1)])
qed

section \<open>\<open>set_tree_root\<close>\<close>

lemma remove_run:
  assumes "distinct keys" "set keys \<subseteq> dom (fm infos)" "btm_ok infos"
  shows "\<exists>G. run_list remove_expect keys infos = Some G \<and> btm_ok G \<and> fm G = fm infos |` (- set keys)"
  using assms
proof (induction keys arbitrary: infos)
  case Nil
  then show ?case by simp
next
  case (Cons k keys)
  from Cons.prems obtain i where i: "btm_get k infos = Some i" by auto
  have "distinct keys" "set keys \<subseteq> dom (fm (btm_del k infos))" "btm_ok (btm_del k infos)" using Cons.prems by auto
  from Cons.IH [OF this] i show ?case by (auto simp: remove_expect_def restrict_map_def fun_eq_iff)
qed

lemma set_tree_root_ok:
  assumes inv: "fc_inv stake_of voters s" and r: "btm_get r (fork_infos s) \<noteq> None"
  shows "\<exists>s'. set_tree_root r s = Some s' \<and> fc_inv stake_of voters s' \<and> tree_root s' = r \<and>
    latest_votes s' = latest_votes s \<and> fm (fork_infos s') = rooted_at r (fm (fork_infos s))"
proof -
  let ?F = "fm (fork_infos s)"
  from inv have t: "tree_ok (tree_root s) ?F" and b: "btm_ok (fork_infos s)" by (auto simp: fc_inv_def)
  have dr: "r \<in> dom ?F" using r by auto
  from tree_ok_root [OF t] have "btm_get (tree_root s) (fork_infos s) \<noteq> None" by auto
  from subtree_diff_ok [OF t this] obtain keys where
    keys: "subtree_diff (fork_infos s) (tree_root s) r = Some keys" "distinct keys" "set keys = cut ?F r (tree_root s)"
    by blast
  have set_keys: "set keys = dom ?F - subtree ?F r"
    using keys(3) subtree_root [OF t] dr by (auto simp: cut_def)
  from remove_run [OF keys(2) _ b] set_keys obtain G where
    G: "run_list remove_expect keys (fork_infos s) = Some G" "btm_ok G" "fm G = ?F |` (- set keys)" by blast
  have "?F |` (- set keys) = ?F |` subtree ?F r" by (auto simp: set_keys restrict_map_def fun_eq_iff)
  with G(3) have G': "fm G = ?F |` subtree ?F r" by simp
  from dr obtain i where i: "?F r = Some i" by blast
  then have gr: "btm_get r G = Some i" using fun_cong [OF G', of r] by (simp add: restrict_map_def)
  let ?G = "btm_put r (i\<lparr>parent := None\<rparr>) G"
  have root: "fm ?G = rooted_at r ?F" using i G' by (simp add: rooted_at_def)
  have "fc_inv stake_of voters (s\<lparr>fork_infos := ?G, tree_root := r\<rparr>)"
    by (rule rooted_at_inv [OF inv dr root btm_ok_put [OF G(2)]])
  with root keys(1) G(1) gr show ?thesis by (simp add: set_tree_root_def)
qed

section \<open>\<open>add_root_parent\<close>\<close>

definition root_parent_info :: "'h slot_hash_key \<Rightarrow> 'h fork_info \<Rightarrow> 'h fork_info" where
  "root_parent_info root i =
     \<lparr>stake_voted_at = 0, stake_voted_subtree = stake_voted_subtree i, height = height i + 1,
      best_slot = best_slot i, deepest_slot = deepest_slot i, parent = None, children = [root],
      latest_invalid_ancestor = None, is_duplicate_confirmed = is_duplicate_confirmed i\<rparr>"

definition below_parent :: "'h slot_hash_key \<Rightarrow> 'h slot_hash_key \<Rightarrow> 'h fork_info \<Rightarrow> 'h fork_map \<Rightarrow> 'h fork_map" where
  "below_parent p root i F = F(root \<mapsto> i\<lparr>parent := Some p\<rparr>, p \<mapsto> root_parent_info root i)"

definition new_root_pre :: "'h::linorder slot_hash_key \<Rightarrow> 'h slot_hash_key \<Rightarrow> 'h fork_info \<Rightarrow> 'h fork_map \<Rightarrow> bool" where
  "new_root_pre p root i F \<longleftrightarrow> tree_ok root F \<and> F root = Some i \<and> F p = None \<and> fst p < fst root"

lemma new_root_preD:
  assumes "new_root_pre p root i F"
  shows "tree_ok root F" "F root = Some i" "F p = None" "p \<noteq> root" "fst p < fst root" "parent i = None"
    "\<And>k j. F k = Some j \<Longrightarrow> root \<notin> set (children j) \<and> p \<notin> set (children j)"
proof -
  show t: "tree_ok root F" and i: "F root = Some i" and p: "F p = None" and "fst p < fst root" and "p \<noteq> root"
    using assms by (auto simp: new_root_pre_def)
  from tree_ok_root [OF t] i show n: "parent i = None" by simp
  fix k j
  assume j: "F k = Some j"
  from tree_ok_child [OF t j, of root] tree_ok_child [OF t j, of p] i p n
  show "root \<notin> set (children j) \<and> p \<notin> set (children j)" by auto
qed

lemma below_parent_cases:
  assumes "below_parent p root i F n = Some j" "new_root_pre p root i F"
  obtains (new) "n = p" "j = root_parent_info root i"
  | (old) x where "F n = Some x" "n \<noteq> p" "children j = children x" "j = x \<and> n \<noteq> root \<or> n = root \<and> j = x\<lparr>parent := Some p\<rparr>"
  using assms new_root_preD [OF assms(2)] by (auto simp: below_parent_def split: if_splits)

lemma below_parent_info:
  assumes "new_root_pre p root i F" "F k = Some j" "c \<in> set (children j)"
  shows "info (below_parent p root i F) c = info F c"
  using new_root_preD(7) [OF assms(1,2)] assms(3) by (auto simp: below_parent_def)

lemma below_parent_tree:
  assumes pre: "new_root_pre p root i F"
  shows "tree_ok p (below_parent p root i F)"
proof (rule tree_okI)
  note d = new_root_preD [OF pre]
  let ?G = "below_parent p root i F"
  have old: "?G n = (if n = root then Some (i\<lparr>parent := Some p\<rparr>) else F n)" if "n \<noteq> p" for n
    using that by (simp add: below_parent_def)
  show "finite (dom ?G)" using tree_ok_finite [OF d(1)] by (simp add: below_parent_def)
  show "\<exists>i. ?G p = Some i \<and> parent i = None" by (simp add: below_parent_def root_parent_info_def)
  fix k j
  assume j: "?G k = Some j"
  show "sorted (children j) \<and> distinct (children j)"
    using j pre
  proof (cases rule: below_parent_cases)
    case (old x)
    with tree_ok_children [OF d(1) old(1)] show ?thesis by simp
  qed (simp add: root_parent_info_def)
  show "fst k < fst c \<and> (\<exists>y. ?G c = Some y \<and> parent y = Some k)" if c: "c \<in> set (children j)" for c
    using j pre
  proof (cases rule: below_parent_cases)
    case new
    with c d(4,5) old [of root] show ?thesis by (simp add: root_parent_info_def)
  next
    case (old x)
    with c have cx: "c \<in> set (children x)" by simp
    from d(7) [OF old(1)] cx have "c \<noteq> root" "c \<noteq> p" by auto
    then have "?G c = F c" by (simp add: below_parent_def)
    with tree_ok_child [OF d(1) old(1) cx] show ?thesis by simp
  qed
  show "\<exists>q y. parent j = Some q \<and> ?G q = Some y \<and> k \<in> set (children y)" if k: "k \<noteq> p"
    using j pre
  proof (cases rule: below_parent_cases)
    case new
    with k show ?thesis by simp
  next
    case (old x)
    show ?thesis
    proof (cases "k = root")
      case True
      with old(4) show ?thesis by (auto simp: below_parent_def root_parent_info_def)
    next
      case False
      from tree_ok_has_parent [OF d(1) old(1) False] obtain q y where
        q: "parent x = Some q" "F q = Some y" "k \<in> set (children y)" by blast
      have "q \<noteq> p" using q(2) d(3) by auto
      then have "\<exists>z. ?G q = Some z \<and> children z = children y" using q(2) d(2) by (auto simp: below_parent_def)
      with q old(4) False show ?thesis by auto
    qed
  qed
qed

lemma below_parent_subtree:
  assumes pre: "new_root_pre p root i F" and k: "k \<in> dom F"
  shows "subtree F k \<subseteq> subtree (below_parent p root i F) k"
proof -
  note d = new_root_preD [OF pre]
  have "child_rel F \<subseteq> child_rel (below_parent p root i F)"
  proof
    fix x
    assume "x \<in> child_rel F"
    then obtain n c j where x: "x = (n, c)" "F n = Some j" "c \<in> set (children j)" by (auto simp: child_rel_def)
    then have "n \<noteq> p" using d(3) by auto
    with x d(2) show "x \<in> child_rel (below_parent p root i F)" by (auto simp: child_rel_def below_parent_def)
  qed
  then show ?thesis unfolding subtree_def using rtrancl_mono by blast
qed

lemma below_parent_node:
  assumes pre: "new_root_pre p root i F" and cand: "is_candidate i"
    and all: "\<And>k x. F k = Some x \<Longrightarrow> node_inv F k x \<and> derived F k x"
    and j: "below_parent p root i F k = Some j"
  shows "node_inv (below_parent p root i F) k j \<and> derived (below_parent p root i F) k j"
  using j pre
proof (cases rule: below_parent_cases)
  note d = new_root_preD [OF pre]
  let ?G = "below_parent p root i F"
  have root: "info ?G root = i\<lparr>parent := Some p\<rparr>" using d(4) by (simp add: below_parent_def)
  case new
  have "(p, root) \<in> child_rel ?G" by (auto simp: child_rel_def below_parent_def root_parent_info_def)
  from subtree_child [OF this] below_parent_subtree [OF pre, of root] d(2) all [OF d(2)]
  have "best_slot i \<in> subtree ?G p" by (auto simp: node_inv_def)
  with cand all [OF d(2)] have "node_inv ?G p (root_parent_info root i)"
    by (auto simp: node_inv_def root_parent_info_def is_candidate_def)
  moreover have "heaviest_child ?G (root_parent_info root i) = Some root" "deepest_child ?G (root_parent_info root i) = Some root"
    using cand root by (simp_all add: heaviest_child_def deepest_child_def candidates_def root_parent_info_def
        champion_def is_candidate_def)
  ultimately show ?thesis unfolding new derived_def
    using root by (simp add: root_parent_info_def weight_of_def weight_def height_of_def deepest_of_def best_of_def confirmed_child_def)
next
  let ?G = "below_parent p root i F"
  case (old x)
  have "derived F k x = derived ?G k x" by (rule derived_cong) (simp add: below_parent_info [OF pre old(1)])
  moreover have "node_inv F k x \<Longrightarrow> node_inv ?G k x"
    using below_parent_subtree [OF pre, of k] old(1) by (auto simp: node_inv_def)
  ultimately show ?thesis using all [OF old(1)] old(4) by auto
qed

lemma below_parent_marks:
  assumes pre: "new_root_pre p root i F" and cand: "is_candidate i" and m: "marks_ok F"
  shows "marks_ok (below_parent p root i F)"
  unfolding marks_ok_def
proof (intro allI impI)
  fix k j a c
  assume j: "below_parent p root i F k = Some j" and a: "latest_invalid_ancestor j = Some a" and c: "c \<in> set (children j)"
  from j pre show "\<exists>b. latest_invalid_ancestor (info (below_parent p root i F) c) = Some b \<and> a \<le> b"
  proof (cases rule: below_parent_cases)
    case new
    with a show ?thesis by (simp add: root_parent_info_def)
  next
    case (old x)
    with a c have "latest_invalid_ancestor x = Some a" "c \<in> set (children x)" by auto
    with marks_okD [OF m old(1)] below_parent_info [OF pre old(1)] show ?thesis by simp
  qed
qed

lemma add_root_parent_ok:
  assumes inv: "fc_inv stake_of voters s" and root: "btm_get (tree_root s) (fork_infos s) = Some i" "is_candidate i"
    and p: "btm_get p (fork_infos s) = None" "fst p < fst (tree_root s)" and votes: "voted_for (latest_votes s) p = {}"
  shows "\<exists>s'. add_root_parent p s = Some s' \<and> fc_inv stake_of voters s' \<and> tree_root s' = p \<and>
    latest_votes s' = latest_votes s \<and> fm (fork_infos s') = below_parent p (tree_root s) i (fm (fork_infos s))"
proof -
  let ?F = "fm (fork_infos s)" and ?r = "tree_root s"
  let ?G = "btm_put p (root_parent_info ?r i) (btm_put ?r (i\<lparr>parent := Some p\<rparr>) (fork_infos s))"
  from inv have t: "tree_ok ?r ?F" and m: "marks_ok ?F"
    and all: "\<And>k x. ?F k = Some x \<Longrightarrow> node_inv ?F k x \<and> derived ?F k x" by (auto simp: fc_inv_def)
  have pre: "new_root_pre p ?r i ?F" using t root p by (simp add: new_root_pre_def)
  have G: "fm ?G = below_parent p ?r i ?F" by (simp add: below_parent_def)
  have "stake_voted_at j = tally stake_of (latest_votes s) k" if "below_parent p ?r i ?F k = Some j" for k j
    using that pre
  proof (cases rule: below_parent_cases)
    case new
    with votes show ?thesis by (simp add: root_parent_info_def tally_def)
  next
    case (old x)
    with inv show ?thesis by (auto simp: fc_inv_def)
  qed
  with inv below_parent_tree [OF pre] below_parent_marks [OF pre root(2) m] below_parent_node [OF pre root(2) all]
  have "fc_inv stake_of voters (s\<lparr>fork_infos := ?G, tree_root := p\<rparr>)"
    unfolding fc_inv_def by (simp add: G fun_cong [OF G] btm_ok_put)
  moreover have "add_root_parent p s = Some (s\<lparr>fork_infos := ?G, tree_root := p\<rparr>)"
    using root(1) p by (simp add: add_root_parent_def root_parent_info_def Let_def)
  ultimately show ?thesis using G by simp
qed

section \<open>A new tree\<close>

lemma fork_choice_new_ok:
  fixes root :: "'h::linorder slot_hash_key" and voters :: "'p::linorder set"
  shows "\<exists>s. fork_choice_new root = Some s \<and> fc_inv stake_of voters s \<and> tree_root s = root \<and> latest_votes s = [] \<and>
    fork_infos s = [(root, new_leaf_info root None None)]"
proof -
  let ?s = "\<lparr>fork_infos = [(root, new_leaf_info root None None)], latest_votes = [], tree_root = root\<rparr> :: ('h, 'p) fork_choice"
  have g: "btm_get k [(root, i)] = (if k = root then Some i else None)" for k and i :: "'h fork_info"
    by (simp add: btm_get_def)
  have "fork_choice_new root = Some ?s" by (simp add: fork_choice_new_def add_new_leaf_slot_def btm_get_def)
  moreover have "fc_inv stake_of voters ?s"
    by (auto simp: fc_inv_def g tree_ok_def marks_ok_def new_leaf_info_def node_inv_def derived_def tally_def voted_for_def
        btm_get_def weight_of_def height_of_def deepest_of_def best_of_def heaviest_child_def deepest_child_def
        candidates_def confirmed_child_def dom_def)
  ultimately show ?thesis by simp
qed

end
