(* ===== verification/Fork_Runs.thy ===== *)
theory Fork_Runs
  imports Fork_Leaf Fork_Root
begin

text \<open>
  The life of a fork choice: the calls that replay makes on it, what each caller has to establish,
  the states that are reached, and the rule that the best block of a reached state obeys.
\<close>

section \<open>Calls and reachable states\<close>

datatype ('h, 'p) fc_call =
    Add_leaf "'h slot_hash_key" "'h slot_hash_key"
  | Add_votes "('p \<times> 'h slot_hash_key) list"
  | Mark_invalid "'h slot_hash_key"
  | Mark_valid "'h slot_hash_key"
  | Set_root "'h slot_hash_key"
  | Add_root_parent "'h slot_hash_key"

fun fc_run ::
  "(slot \<Rightarrow> 'p \<Rightarrow> nat) \<Rightarrow> 'h slot_hash_key \<Rightarrow> ('h::linorder, 'p::linorder) fc_call \<Rightarrow> ('h, 'p) fork_choice \<Rightarrow>
    ('h, 'p) fork_choice option" where
  "fc_run stake_of d (Add_leaf leaf p) s = add_new_leaf_slot leaf (Some p) s"
| "fc_run stake_of d (Add_votes pv) s = map_option snd (add_votes stake_of pv s)"
| "fc_run stake_of d (Mark_invalid r) s = mark_fork_invalid_candidate d r s"
| "fc_run stake_of d (Mark_valid r) s = map_option snd (mark_fork_valid_candidate d r s)"
| "fc_run stake_of d (Set_root r) s = set_tree_root r s"
| "fc_run stake_of d (Add_root_parent p) s = add_root_parent p s"

text \<open>
  What the callers guarantee: a leaf hangs below a known block of a smaller slot, no vote was counted
  for a block before it was added, a batch has at most one vote for a voter, and a confirmed block is
  never marked invalid.
\<close>

fun fc_allowed ::
  "'p set \<Rightarrow> 'h slot_hash_key \<Rightarrow> ('h::linorder, 'p::linorder) fc_call \<Rightarrow> ('h, 'p) fork_choice \<Rightarrow> bool" where
  "fc_allowed voters d (Add_leaf leaf p) s \<longleftrightarrow> btm_get p (fork_infos s) \<noteq> None \<and> fst p < fst leaf \<and>
     (btm_get leaf (fork_infos s) = None \<longrightarrow> leaf \<notin> snd ` set (latest_votes s))"
| "fc_allowed voters d (Add_votes pv) s \<longleftrightarrow> distinct (map fst pv) \<and> fst ` set pv \<subseteq> voters"
| "fc_allowed voters d (Mark_invalid r) s \<longleftrightarrow> (case btm_get r (fork_infos s) of
     None \<Rightarrow> True | Some i \<Rightarrow> \<not> is_duplicate_confirmed i \<and> fst d < fst r)"
| "fc_allowed voters d (Mark_valid r) s \<longleftrightarrow> btm_get r (fork_infos s) \<noteq> None \<and> fst d < fst r"
| "fc_allowed voters d (Set_root r) s \<longleftrightarrow> btm_get r (fork_infos s) \<noteq> None"
| "fc_allowed voters d (Add_root_parent p) s \<longleftrightarrow> btm_get p (fork_infos s) = None \<and> fst p < fst (tree_root s) \<and>
     p \<notin> snd ` set (latest_votes s) \<and>
     (case btm_get (tree_root s) (fork_infos s) of None \<Rightarrow> False | Some i \<Rightarrow> is_candidate i)"

inductive fc_reach ::
  "(slot \<Rightarrow> 'p \<Rightarrow> nat) \<Rightarrow> 'p set \<Rightarrow> 'h slot_hash_key \<Rightarrow> ('h::linorder, 'p::linorder) fork_choice \<Rightarrow> bool"
  for stake_of :: "slot \<Rightarrow> 'p \<Rightarrow> nat" and voters :: "'p set" and d :: "'h slot_hash_key" where
  new: "fork_choice_new root = Some s \<Longrightarrow> fc_reach stake_of voters d s"
| call: "fc_reach stake_of voters d s \<Longrightarrow> fc_allowed voters d c s \<Longrightarrow> fc_run stake_of d c s = Some s' \<Longrightarrow>
    fc_reach stake_of voters d s'"

lemma voted_for_absent: "k \<notin> snd ` set votes \<Longrightarrow> voted_for votes k = {}"
  by (force simp: voted_for_def btm_get_def dest: map_of_SomeD)

lemma fc_run_ok:
  assumes inv: "fc_inv stake_of voters s" and ok: "stakes_ok stake_of cap voters" and a: "fc_allowed voters d c s"
  shows "\<exists>s'. fc_run stake_of d c s = Some s' \<and> fc_inv stake_of voters s'"
proof (cases c)
  case (Add_leaf leaf p)
  show ?thesis
  proof (cases "btm_get leaf (fork_infos s)")
    case None
    from a Add_leaf obtain i where "btm_get p (fork_infos s) = Some i" by auto
    with add_new_leaf_ok [OF inv None this] a Add_leaf None voted_for_absent [of leaf "latest_votes s"] show ?thesis by auto
  next
    case (Some x)
    with inv Add_leaf show ?thesis by (simp add: add_new_leaf_slot_def)
  qed
next
  case (Add_votes pv)
  with add_votes_ok [OF inv ok, of pv] a show ?thesis by auto
next
  case (Mark_invalid r)
  show ?thesis
  proof (cases "btm_get r (fork_infos s)")
    case None
    with inv Mark_invalid show ?thesis by (simp add: mark_fork_invalid_candidate_def)
  next
    case (Some i)
    with mark_invalid_ok [OF inv ok Some, of d] a Mark_invalid show ?thesis by auto
  qed
next
  case (Mark_valid r)
  with a obtain i where "btm_get r (fork_infos s) = Some i" by auto
  with mark_valid_ok [OF inv ok this, of d] a Mark_valid show ?thesis by auto
next
  case (Set_root r)
  with set_tree_root_ok [OF inv, of r] a show ?thesis by auto
next
  case (Add_root_parent p)
  with a obtain i where "btm_get (tree_root s) (fork_infos s) = Some i" "is_candidate i" by (auto split: option.splits)
  with add_root_parent_ok [OF inv this, of p] a Add_root_parent voted_for_absent [of p "latest_votes s"] show ?thesis by auto
qed

lemma fc_reach_inv:
  assumes "fc_reach stake_of voters d s" "stakes_ok stake_of cap voters"
  shows "fc_inv stake_of voters s"
  using assms
proof (induction rule: fc_reach.induct)
  case (new root s)
  then show ?case using fork_choice_new_ok [of root stake_of voters] by auto
next
  case (call s c s')
  with fc_run_ok [of stake_of voters s cap d c] show ?case by auto
qed

section \<open>The weight of a block\<close>

text \<open>The stake of the voters whose latest vote is for \<open>k\<close> or a block below it.\<close>

definition vote_weight :: "(slot \<Rightarrow> 'p \<Rightarrow> nat) \<Rightarrow> ('h, 'p) fork_choice \<Rightarrow> 'h slot_hash_key \<Rightarrow> nat" where
  "vote_weight stake_of s k =
     (\<Sum>p | \<exists>n. btm_get p (latest_votes s) = Some n \<and> n \<in> subtree (fm (fork_infos s)) k.
        stake_of (fst (the (btm_get p (latest_votes s)))) p)"

lemma voted_for_finite: "finite (voted_for votes k)"
proof (rule finite_subset)
  show "voted_for votes k \<subseteq> fst ` set votes" using btm_get_key by (fastforce simp: voted_for_def)
qed simp

lemma vote_weight_tally:
  assumes "finite (subtree (fm (fork_infos s)) k)"
  shows "vote_weight stake_of s k = sum (tally stake_of (latest_votes s)) (subtree (fm (fork_infos s)) k)"
proof -
  let ?S = "subtree (fm (fork_infos s)) k" and ?V = "latest_votes s"
  have "{p. \<exists>n. btm_get p ?V = Some n \<and> n \<in> ?S} = (\<Union>n \<in> ?S. voted_for ?V n)" by (auto simp: voted_for_def)
  then have "vote_weight stake_of s k = (\<Sum>n \<in> ?S. \<Sum>p \<in> voted_for ?V n. stake_of (fst (the (btm_get p ?V))) p)"
    unfolding vote_weight_def using assms voted_for_finite
    by (simp only:) (rule sum.UNION_disjoint, auto simp: voted_for_def)
  also have "\<dots> = sum (tally stake_of ?V) ?S"
    unfolding tally_def by (intro sum.cong refl) (simp add: voted_for_def)
  finally show ?thesis .
qed

lemma fc_inv_tree: "fc_inv stake_of voters s \<Longrightarrow> tree_ok (tree_root s) (fm (fork_infos s))"
  by (simp add: fc_inv_def)

lemma fc_inv_block:
  assumes "fc_inv stake_of voters s" "btm_get k (fork_infos s) = Some i"
  shows "node_inv (fm (fork_infos s)) k i" "derived (fm (fork_infos s)) k i"
    "stake_voted_at i = tally stake_of (latest_votes s) k"
  using assms by (auto simp: fc_inv_def)

lemma subtree_weight_votes:
  assumes inv: "fc_inv stake_of voters s" and k: "btm_get k (fork_infos s) = Some i"
  shows "stake_voted_subtree i = vote_weight stake_of s k"
proof -
  have "k \<in> dom (fm (fork_infos s))" using k by blast
  with fc_inv_weight [OF inv k] vote_weight_tally [OF subtree_finite [OF fc_inv_tree [OF inv]]]
  show ?thesis by simp
qed

lemma vote_weight_bound:
  assumes inv: "fc_inv stake_of voters s" and ok: "stakes_ok stake_of cap voters"
  shows "vote_weight stake_of s k \<le> sum cap voters"
proof -
  let ?P = "{p. \<exists>n. btm_get p (latest_votes s) = Some n \<and> n \<in> subtree (fm (fork_infos s)) k}"
  have "fst ` set (latest_votes s) \<subseteq> voters" using inv by (simp add: fc_inv_def)
  then have sub: "?P \<subseteq> voters" using btm_get_key by fastforce
  have fin: "finite voters" and le: "\<And>n p. stake_of n p \<le> cap p" using ok by (auto simp: stakes_ok_def)
  have "vote_weight stake_of s k \<le> sum cap ?P" unfolding vote_weight_def by (rule sum_mono) (rule le)
  also have "\<dots> \<le> sum cap voters" by (rule sum_mono2 [OF fin sub]) simp
  finally show ?thesis .
qed

section \<open>The fork choice rule\<close>

definition candidate_child :: "('h, 'p) fork_choice \<Rightarrow> 'h slot_hash_key \<Rightarrow> 'h slot_hash_key \<Rightarrow> bool" where
  "candidate_child s k c \<longleftrightarrow> (k, c) \<in> child_rel (fm (fork_infos s)) \<and> fc_is_candidate (fork_infos s) c = Some True"

definition outweighs :: "(slot \<Rightarrow> 'p \<Rightarrow> nat) \<Rightarrow> ('h::linorder, 'p) fork_choice \<Rightarrow> 'h slot_hash_key \<Rightarrow> 'h slot_hash_key \<Rightarrow> bool" where
  "outweighs stake_of s c d \<longleftrightarrow> vote_weight stake_of s c > vote_weight stake_of s d \<or>
     vote_weight stake_of s c = vote_weight stake_of s d \<and> c < d"

text \<open>
  Starting at \<open>k\<close>, go to the candidate child that outweighs every other candidate child, until there
  is none; the walk ends at \<open>b\<close>.
\<close>

inductive heaviest_path ::
  "(slot \<Rightarrow> 'p \<Rightarrow> nat) \<Rightarrow> ('h::linorder, 'p) fork_choice \<Rightarrow> 'h slot_hash_key \<Rightarrow> 'h slot_hash_key \<Rightarrow> bool"
  for stake_of :: "slot \<Rightarrow> 'p \<Rightarrow> nat" and s :: "('h::linorder, 'p) fork_choice" where
  stop: "(\<And>c. \<not> candidate_child s k c) \<Longrightarrow> heaviest_path stake_of s k k"
| down: "candidate_child s k c \<Longrightarrow> (\<And>e. candidate_child s k e \<Longrightarrow> e \<noteq> c \<Longrightarrow> outweighs stake_of s c e) \<Longrightarrow>
    heaviest_path stake_of s c b \<Longrightarrow> heaviest_path stake_of s k b"

lemma candidate_child_iff:
  assumes inv: "fc_inv stake_of voters s" and k: "btm_get k (fork_infos s) = Some i"
  shows "candidate_child s k c \<longleftrightarrow> c \<in> set (candidates (fm (fork_infos s)) i)"
proof -
  have "\<exists>j. btm_get c (fork_infos s) = Some j" if "c \<in> set (children i)"
    using tree_ok_child [OF fc_inv_tree [OF inv], of k i c] k that by auto
  with k show ?thesis
    by (auto simp: candidate_child_def candidates_def child_rel_def fc_is_candidate_def)
qed

lemma outweighs_heavier:
  assumes inv: "fc_inv stake_of voters s" and "btm_get c (fork_infos s) = Some i" "btm_get e (fork_infos s) = Some j"
  shows "outweighs stake_of s c e = heavier (fm (fork_infos s)) c e"
  using subtree_weight_votes [OF inv assms(2)] subtree_weight_votes [OF inv assms(3)] assms(2,3)
  by (simp add: outweighs_def heavier_def weight_def)

lemma best_slot_path:
  assumes inv: "fc_inv stake_of voters s" and k: "btm_get k (fork_infos s) = Some i" "is_candidate i"
  shows "heaviest_path stake_of s k (best_slot i)"
  using fc_inv_tree [OF inv] k
proof (induction k arbitrary: i rule: tree_induct)
  case (node k)
  let ?F = "fm (fork_infos s)"
  note t = fc_inv_tree [OF inv]
  have b: "best_slot i = best_of ?F k i" using fc_inv_block(2) [OF inv node.prems(1)] node.prems(2) by (simp add: derived_def)
  note cc = candidate_child_iff [OF inv node.prems(1)]
  have there: "\<exists>j. btm_get c (fork_infos s) = Some j" if "c \<in> set (candidates ?F i)" for c
    using tree_ok_child [OF t, of k i c] node.prems(1) that by (auto simp: candidates_def)
  show ?case
  proof (cases "heaviest_child ?F i")
    case None
    then have "candidates ?F i = []" using champion_sound [OF heavier_linear [of ?F], of "candidates ?F i"] by (simp add: heaviest_child_def)
    with cc have "\<not> candidate_child s k c" for c by simp
    then have "heaviest_path stake_of s k k" by (rule heaviest_path.stop)
    with b None show ?thesis by (simp add: best_of_def)
  next
    case (Some c)
    then have c: "c \<in> set (candidates ?F i)" "\<forall>e \<in> set (candidates ?F i). e \<noteq> c \<longrightarrow> heavier ?F c e"
      unfolding heaviest_child_def champion_iff [OF heavier_linear] by blast+
    from there [OF c(1)] obtain j where j: "btm_get c (fork_infos s) = Some j" by blast
    have "(k, c) \<in> child_rel ?F" "is_candidate j" using c(1) j node.prems(1) by (auto simp: child_rel_def candidates_def)
    with node.IH [of c j] j have path: "heaviest_path stake_of s c (best_slot j)" by blast
    have "outweighs stake_of s c e" if "candidate_child s k e" "e \<noteq> c" for e
    proof -
      from that cc have e: "e \<in> set (candidates ?F i)" by simp
      from there [OF e] obtain x where "btm_get e (fork_infos s) = Some x" by blast
      from outweighs_heavier [OF inv j this] c(2) e that(2) show ?thesis by simp
    qed
    moreover have "candidate_child s k c" using c(1) cc by simp
    ultimately have "heaviest_path stake_of s k (best_slot j)"
      using heaviest_path.down [where stake_of = stake_of and s = s and k = k and c = c] path by blast
    with b Some j show ?thesis by (simp add: best_of_def)
  qed
qed

lemma outweighs_asym: "outweighs stake_of s c e \<Longrightarrow> \<not> outweighs stake_of s e c"
  by (auto simp: outweighs_def)

lemma heaviest_path_unique:
  assumes "heaviest_path stake_of s k a" "heaviest_path stake_of s k b"
  shows "a = b"
  using assms
proof (induction arbitrary: b rule: heaviest_path.induct)
  case (stop k)
  from stop.prems stop.hyps show ?case by (cases rule: heaviest_path.cases) auto
next
  case (down k c a)
  from down.prems show ?case
  proof (cases rule: heaviest_path.cases)
    case stop
    with down.hyps(1) show ?thesis by blast
  next
    case (down e)
    have "e = c"
    proof (rule ccontr)
      assume ne: "e \<noteq> c"
      have "outweighs stake_of s e c" using \<open>candidate_child s k c\<close> ne by (intro down(2)) auto
      moreover have "outweighs stake_of s c e"
        using \<open>\<And>e. candidate_child s k e \<Longrightarrow> e \<noteq> c \<Longrightarrow> outweighs stake_of s c e\<close> [OF down(1) ne] .
      ultimately show False using outweighs_asym by blast
    qed
    with down(3) \<open>\<And>b. heaviest_path stake_of s c b \<Longrightarrow> a = b\<close> show ?thesis by blast
  qed
qed

text \<open>The walk stays on candidates, below its start.\<close>

lemma heaviest_path_candidate:
  assumes "heaviest_path stake_of s k b" "fc_is_candidate (fork_infos s) k = Some True"
  shows "fc_is_candidate (fork_infos s) b = Some True \<and> b \<in> subtree (fm (fork_infos s)) k"
  using assms
proof (induction rule: heaviest_path.induct)
  case (down k c b)
  then show ?case using subtree_child [of k c "fm (fork_infos s)"] by (auto simp: candidate_child_def)
qed simp

section \<open>Heights\<close>

lemma height_path:
  assumes inv: "fc_inv stake_of voters s" and k: "btm_get k (fork_infos s) = Some i"
  shows "0 < height i \<and> (k, deepest_slot i) \<in> child_rel (fm (fork_infos s)) ^^ (height i - 1) \<and>
    (\<forall>m n. (k, n) \<in> child_rel (fm (fork_infos s)) ^^ m \<longrightarrow> m < height i)"
  using fc_inv_tree [OF inv] k
proof (induction k arbitrary: i rule: tree_induct)
  case (node k)
  let ?F = "fm (fork_infos s)"
  have d: "height i = height_of ?F i" "deepest_slot i = deepest_of ?F k i"
    using fc_inv_block(2) [OF inv node.prems] by (auto simp: derived_def)
  have child: "\<exists>m' c j. m = Suc m' \<and> c \<in> set (children i) \<and> btm_get c (fork_infos s) = Some j \<and> m' < height j"
    if m: "(k, n) \<in> child_rel ?F ^^ m" "0 < m" for m n
  proof -
    from m(2) obtain m' where m': "m = Suc m'" by (cases m) simp_all
    with relpow_Suc_D2 [of k n m' "child_rel ?F"] m(1) obtain c where
      c: "m = Suc m'" "(k, c) \<in> child_rel ?F" "(c, n) \<in> child_rel ?F ^^ m'" by blast
    from child_rel_parent [OF fc_inv_tree [OF inv] c(2)] node.prems obtain j where
      "c \<in> set (children i)" "btm_get c (fork_infos s) = Some j" by auto
    with node.IH [OF c(2), of j] c show ?thesis by blast
  qed
  show ?case
  proof (cases "deepest_child ?F i")
    case None
    then have "children i = []"
      using champion_sound [OF deeper_linear [of ?F], of "children i"] by (simp add: deepest_child_def)
    with child have "m = 0" if "(k, n) \<in> child_rel ?F ^^ m" for m n using that by fastforce
    with d None show ?thesis by (auto simp: height_of_def deepest_of_def)
  next
    case (Some c)
    then have c: "c \<in> set (children i)" "\<forall>e \<in> set (children i). e \<noteq> c \<longrightarrow> deeper ?F c e"
      unfolding deepest_child_def champion_iff [OF deeper_linear] by blast+
    then have kc: "(k, c) \<in> child_rel ?F" using node.prems by (auto simp: child_rel_def)
    from child_rel_parent [OF fc_inv_tree [OF inv] kc] obtain j where j: "btm_get c (fork_infos s) = Some j" by blast
    have i: "height i = Suc (height j)" "deepest_slot i = deepest_slot j"
      using d Some j by (simp_all add: height_of_def deepest_of_def)
    from node.IH [OF kc j] have ih: "0 < height j" "(c, deepest_slot j) \<in> child_rel ?F ^^ (height j - 1)" by blast+
    from relpow_Suc_I2 [OF kc ih(2)] ih(1) have "(k, deepest_slot j) \<in> child_rel ?F ^^ height j" by simp
    moreover have "m < Suc (height j)" if m: "(k, n) \<in> child_rel ?F ^^ m" for m n
    proof (cases "0 < m")
      case True
      from child [OF m True] obtain m' e x where
        e: "m = Suc m'" "e \<in> set (children i)" "btm_get e (fork_infos s) = Some x" "m' < height x" by blast
      have "height x \<le> height j" using c(2) e(2,3) j by (cases "e = c") (auto simp: deeper_def)
      with e show ?thesis by simp
    qed simp
    ultimately show ?thesis using i by auto
  qed
qed

lemma deepest_below:
  assumes "fc_inv stake_of voters s" "btm_get k (fork_infos s) = Some i"
  shows "deepest_slot i \<in> subtree (fm (fork_infos s)) k"
  using height_path [OF assms] relpow_imp_rtrancl unfolding subtree_def by blast

section \<open>Stored fields against a full recomputation\<close>

lemma btm_put_same: "btm_ok m \<Longrightarrow> btm_get k m = Some v \<Longrightarrow> btm_put k v m = m"
  by (induction m) (auto simp: btm_get_def btm_ok_Cons split: if_splits dest!: map_of_SomeD)

lemma aggregate_stable:
  assumes inv: "fc_inv stake_of voters s" and ok: "stakes_ok stake_of cap voters"
    and k: "btm_get k (fork_infos s) = Some i" "is_candidate i"
  shows "aggregate_slot k (fork_infos s) = Some (fork_infos s)"
proof -
  let ?F = "fm (fork_infos s)"
  note t = fc_inv_tree [OF inv] and d = fc_inv_block(2) [OF inv k(1)] and n = fc_inv_block(1) [OF inv k(1)]
  have c: "\<forall>c \<in> set (children i). ?F c \<noteq> None" "k \<notin> set (children i)"
    using tree_ok_child [OF t, of k i] k(1) by fastforce+
  have "weight_of ?F i < 2 ^ 64"
    using d subtree_weight_votes [OF inv k(1)] vote_weight_bound [OF inv ok, of k] ok by (simp add: derived_def stakes_ok_def)
  note eq = aggregate_slot_eq [OF k(1) c this]
  have "aggregated ?F k i = i"
    using d n k(2) by (cases i) (auto simp: aggregated_def derived_def node_inv_def set_duplicate_confirmed_def)
  with eq k(1) inv show ?thesis by (simp add: btm_put_same fc_inv_def)
qed

end
