(* ===== verification/Fork_Props.thy ===== *)
theory Fork_Props
  imports Fork_Runs
begin

text \<open>
  The properties of the fork choice over every reachable state: the calls do not panic, the best block
  is the end of the heaviest path, stored weights are sums of votes, invalid forks are never chosen.
\<close>

section \<open>A concrete tree\<close>

definition fc_runs ::
  "(slot \<Rightarrow> 'p \<Rightarrow> nat) \<Rightarrow> 'p set \<Rightarrow> 'h slot_hash_key \<Rightarrow> ('h::linorder, 'p::linorder) fc_call list \<Rightarrow> ('h, 'p) fork_choice \<Rightarrow>
    ('h, 'p) fork_choice option" where
  "fc_runs stake_of voters d = run_list (\<lambda>c s. if fc_allowed voters d c s then fc_run stake_of d c s else None)"

lemma fc_runs_reach:
  "fc_reach stake_of voters d s \<Longrightarrow> fc_runs stake_of voters d cs s = Some s' \<Longrightarrow> fc_reach stake_of voters d s'"
proof (induction cs arbitrary: s)
  case (Cons c cs)
  then obtain s1 where "fc_allowed voters d c s" "fc_run stake_of d c s = Some s1" "fc_runs stake_of voters d cs s1 = Some s'"
    by (auto simp: fc_runs_def split: if_splits option.splits)
  with Cons.IH [of s1] Cons.prems(1) fc_reach.call [of stake_of voters d s c s1] show ?case by blast
qed (simp add: fc_runs_def)

text \<open>
  Blocks 2 and 3 below the root 1, 4 below 2 and 5 below 3; the voters 1, 2, 3 have the stakes 1, 2, 3.
\<close>

definition demo_stake :: "slot \<Rightarrow> nat \<Rightarrow> nat" where
  "demo_stake n p = p"

definition demo_calls :: "(nat, nat) fc_call list" where
  "demo_calls = [Add_leaf (2, 0) (1, 0), Add_leaf (3, 0) (1, 0), Add_leaf (4, 0) (2, 0), Add_leaf (5, 0) (3, 0),
     Add_votes [(1, (4, 0)), (2, (5, 0)), (3, (2, 0))]]"

definition demo_run :: "(nat, nat) fork_choice option" where
  "demo_run = fork_choice_new (1, 0) \<bind> fc_runs demo_stake {1, 2, 3} (0, 0) demo_calls"

definition demo :: "(nat, nat) fork_choice" where
  "demo = the demo_run"

lemma demo_reach: "fc_reach demo_stake {1, 2, 3} (0, 0) demo"
proof -
  have "demo_run \<noteq> None" by code_simp
  then obtain s0 where "fork_choice_new (1, 0) = Some s0" "fc_runs demo_stake {1, 2, 3} (0, 0) demo_calls s0 = Some demo"
    unfolding demo_def demo_run_def by (auto split: bind_splits)
  then show ?thesis using fc_runs_reach [of demo_stake "{1, 2, 3}" "(0, 0)" s0 demo_calls demo] fc_reach.new by blast
qed

lemma demo_stakes: "stakes_ok demo_stake (\<lambda>p. p) {1, 2, 3}"
  by (simp add: stakes_ok_def demo_stake_def)

lemma demo_states:
  "tree_root demo = (1, 0)" "fc_is_candidate (fork_infos demo) (1, 0) = Some True"
  "best_overall_slot demo = Some (4, 0)"
  "map_option stake_voted_subtree (btm_get (2, 0) (fork_infos demo)) = Some 4"
  "map_option is_duplicate_confirmed (btm_get (2, 0) (fork_infos demo)) = Some False"
  "map_option (\<lambda>i. (height i, deepest_slot i)) (btm_get (1, 0) (fork_infos demo)) = Some (3, (4, 0))"
  by code_simp+

lemma demo_block:
  "\<exists>i. btm_get (2, 0) (fork_infos demo) = Some i \<and> stake_voted_subtree i = 4 \<and> \<not> is_duplicate_confirmed i"
  "\<exists>i. btm_get (1, 0) (fork_infos demo) = Some i \<and> is_candidate i \<and> height i = 3 \<and> deepest_slot i = (4, 0)"
  using demo_states by (auto simp: fc_is_candidate_def)

section \<open>The invariant, and the absence of panics\<close>

text \<open>
  C23: whatever calls built it, a fork choice is a tree with consistent parents and children, strictly
  ascending slots below every block, at every block the stake of its voters and the subtree stake,
  height, deepest and best descendant its children prescribe, and invalid marks that descend to children.
\<close>

theorem fork_choice_invariant:
  assumes "fc_reach stake_of voters d s" "stakes_ok stake_of cap voters"
  shows "fc_inv stake_of voters s"
  using assms by (rule fc_reach_inv)

theorem fork_choice_invariant_witness: "fc_inv demo_stake {1, 2, 3} demo"
  by (rule fork_choice_invariant [OF demo_reach demo_stakes])

text \<open>
  C24: on a reachable state, every call whose caller keeps its side returns (none of the \<open>unwrap\<close>,
  \<open>expect\<close>, \<open>assert!\<close> and checked sums fails, and every loop ends), and leads to a reachable state.
\<close>

theorem fork_choice_no_panic:
  assumes "fc_reach stake_of voters d s" "stakes_ok stake_of cap voters" "fc_allowed voters d c s"
  shows "\<exists>s'. fc_run stake_of d c s = Some s' \<and> fc_reach stake_of voters d s'"
  using fc_run_ok [OF fc_reach_inv [OF assms(1,2)] assms(2,3)] fc_reach.call [OF assms(1,3)] by blast

theorem fork_choice_no_panic_witness:
  "\<exists>s'. fc_run demo_stake (0, 0) (Mark_invalid (2, 0)) demo = Some s' \<and> fc_reach demo_stake {1, 2, 3} (0, 0) s'"
proof -
  have "fc_allowed {1, 2, 3} (0, 0) (Mark_invalid (2, 0)) demo" using demo_block(1) by auto
  from fork_choice_no_panic [OF demo_reach demo_stakes this] show ?thesis .
qed

section \<open>The best block\<close>

lemma best_overall_path:
  assumes inv: "fc_inv stake_of voters s" and root: "fc_is_candidate (fork_infos s) (tree_root s) = Some True"
  shows "\<exists>b. best_overall_slot s = Some b \<and> heaviest_path stake_of s (tree_root s) b"
proof -
  from root obtain i where "btm_get (tree_root s) (fork_infos s) = Some i" "is_candidate i"
    by (auto simp: fc_is_candidate_def)
  with best_slot_path [OF inv this] show ?thesis by (auto simp: best_overall_slot_def fc_best_slot_def)
qed

text \<open>
  C25: the block that \<open>best_overall_slot\<close> reports is the end of the walk from the root that takes, at
  every block, the valid child with most voted stake, the stake counted from the latest votes alone;
  among equal stakes the smaller slot and hash wins.
\<close>

theorem best_slot_heaviest:
  assumes "fc_reach stake_of voters d s" "stakes_ok stake_of cap voters"
    and "fc_is_candidate (fork_infos s) (tree_root s) = Some True"
  shows "best_overall_slot s = Some b \<longleftrightarrow> heaviest_path stake_of s (tree_root s) b"
proof -
  from best_overall_path [OF fc_reach_inv [OF assms(1,2)] assms(3)] obtain a where
    "best_overall_slot s = Some a" "heaviest_path stake_of s (tree_root s) a" by blast
  with heaviest_path_unique [of stake_of s "tree_root s" a b] show ?thesis by auto
qed

theorem best_slot_heaviest_witness: "heaviest_path demo_stake demo (1, 0) (4, 0)"
  using best_slot_heaviest [OF demo_reach demo_stakes, of "(4, 0)"] demo_states(1-3) by simp

text \<open>
  C26: the subtree stake a block stores is the stake of the voters whose latest vote is at or below it,
  it is at least the stake voted at the block, and never more than the total stake, a 64-bit number.
\<close>

theorem subtree_stake_bounds:
  assumes "fc_reach stake_of voters d s" "stakes_ok stake_of cap voters" "btm_get k (fork_infos s) = Some i"
  shows "stake_voted_subtree i = vote_weight stake_of s k \<and> stake_voted_at i \<le> stake_voted_subtree i \<and>
    stake_voted_subtree i \<le> sum cap voters \<and> sum cap voters < 2 ^ 64"
proof -
  note inv = fc_reach_inv [OF assms(1,2)]
  have "stake_voted_at i \<le> stake_voted_subtree i" using fc_inv_block(2) [OF inv assms(3)] by (simp add: derived_def weight_of_def)
  with subtree_weight_votes [OF inv assms(3)] vote_weight_bound [OF inv assms(2), of k] assms(2)
  show ?thesis by (simp add: stakes_ok_def)
qed

theorem subtree_stake_bounds_witness: "vote_weight demo_stake demo (2, 0) = 4 \<and> (4::nat) \<le> 6"
proof -
  from demo_block(1) obtain i where i: "btm_get (2, 0) (fork_infos demo) = Some i" "stake_voted_subtree i = 4" by blast
  from subtree_stake_bounds [OF demo_reach demo_stakes i(1)] i(2) show ?thesis by simp
qed

section \<open>Votes\<close>

text \<open>
  C27: \<open>add_votes\<close> replaces the latest vote of a voter exactly when the new vote is not older than the
  root and is for a greater slot, or for the same slot with a smaller hash; it returns the best block
  of the tree it leaves.
\<close>

theorem add_votes_latest:
  assumes "fc_reach stake_of voters d s" "stakes_ok stake_of cap voters"
    and "distinct (map fst pv)" "fst ` set pv \<subseteq> voters"
  shows "\<exists>best s'. add_votes stake_of pv s = Some (best, s') \<and> best_overall_slot s' = Some best \<and>
    (\<forall>p. btm_get p (latest_votes s') =
      (case map_of pv p of
         Some n \<Rightarrow> if accepts (fst (tree_root s)) (btm_get p (latest_votes s)) n then Some n else btm_get p (latest_votes s)
       | None \<Rightarrow> btm_get p (latest_votes s)))"
  using add_votes_ok [OF fc_reach_inv [OF assms(1,2)] assms(2-)] unfolding vote_after_def by blast

theorem add_votes_latest_witness:
  "\<exists>best s'. add_votes demo_stake [(3, (5, 0))] demo = Some (best, s') \<and> best_overall_slot s' = Some best \<and>
    btm_get 3 (latest_votes s') = Some (5, 0) \<and> btm_get 1 (latest_votes s') = Some (4, 0)"
proof -
  have v: "btm_get 3 (latest_votes demo) = Some (2, 0)" "btm_get 1 (latest_votes demo) = Some (4, 0)" by code_simp+
  have "accepts (fst (tree_root demo)) (Some (2, 0)) (5, 0)" by (simp add: accepts_def later_def demo_states)
  with add_votes_latest [OF demo_reach demo_stakes, of "[(3, (5, 0))]"] v show ?thesis by (auto dest: spec [of _ 3] spec [of _ 1])
qed

section \<open>Incremental updates\<close>

text \<open>
  C28: the shortcuts of the incremental updates agree with a full recomputation: at every valid block of
  a reachable state, running \<open>aggregate_slot\<close> over all children changes nothing.
\<close>

theorem incremental_equals_aggregate:
  assumes "fc_reach stake_of voters d s" "stakes_ok stake_of cap voters"
    and "btm_get k (fork_infos s) = Some i" "is_candidate i"
  shows "aggregate_slot k (fork_infos s) = Some (fork_infos s)"
  by (rule aggregate_stable [OF fc_reach_inv [OF assms(1,2)] assms(2-4)])

theorem incremental_equals_aggregate_witness: "aggregate_slot (1, 0) (fork_infos demo) = Some (fork_infos demo)"
proof -
  from demo_block(2) obtain i where "btm_get (1, 0) (fork_infos demo) = Some i" "is_candidate i" by blast
  from incremental_equals_aggregate [OF demo_reach demo_stakes this] show ?thesis .
qed

text \<open>
  C29: the height of a block is the length of the longest chain that starts at it, and its deepest
  block is the end of such a chain.
\<close>

theorem deepest_slot_longest:
  assumes "fc_reach stake_of voters d s" "stakes_ok stake_of cap voters" "btm_get k (fork_infos s) = Some i"
  shows "0 < height i \<and> (k, deepest_slot i) \<in> child_rel (fm (fork_infos s)) ^^ (height i - 1) \<and>
    (\<forall>m n. (k, n) \<in> child_rel (fm (fork_infos s)) ^^ m \<longrightarrow> m < height i)"
  by (rule height_path [OF fc_reach_inv [OF assms(1,2)] assms(3)])

theorem deepest_slot_longest_witness: "((1, 0), (4, 0)) \<in> child_rel (fm (fork_infos demo)) ^^ 2"
proof -
  from demo_block(2) obtain i where i: "btm_get (1, 0) (fork_infos demo) = Some i" "height i = 3" "deepest_slot i = (4, 0)" by blast
  from deepest_slot_longest [OF demo_reach demo_stakes i(1)] i(2,3) show ?thesis by simp
qed

section \<open>Invalid and valid forks\<close>

lemma root_not_below:
  assumes "fc_inv stake_of voters s" "r \<noteq> tree_root s"
  shows "tree_root s \<notin> subtree (fm (fork_infos s)) r"
proof
  note t = fc_inv_tree [OF assms(1)]
  assume "tree_root s \<in> subtree (fm (fork_infos s)) r"
  from subtree_parent [OF t this] assms(2) tree_ok_root [OF t] show False by auto
qed

text \<open>
  C30: marking a fork invalid makes every block of the fork a non-candidate, and the best block of the
  tree is outside the fork from then on.
\<close>

theorem invalid_fork_not_best:
  assumes "fc_reach stake_of voters d s" "stakes_ok stake_of cap voters"
    and "fc_is_candidate (fork_infos s) (tree_root s) = Some True" "r \<noteq> tree_root s"
    and "fc_is_duplicate_confirmed (fork_infos s) r = Some False" "fst d < fst r"
  shows "\<exists>s' b. mark_fork_invalid_candidate d r s = Some s' \<and> best_overall_slot s' = Some b \<and>
    b \<notin> subtree (fm (fork_infos s)) r \<and>
    (\<forall>n. n \<in> subtree (fm (fork_infos s)) r \<longrightarrow> fc_is_candidate (fork_infos s') n = Some False)"
proof -
  let ?F = "fm (fork_infos s)"
  note inv = fc_reach_inv [OF assms(1,2)]
  from assms(5) obtain i where i: "btm_get r (fork_infos s) = Some i" "\<not> is_duplicate_confirmed i"
    by (auto simp: fc_is_duplicate_confirmed_def)
  from mark_invalid_ok [OF inv assms(2) i assms(6)] obtain s' where
    s': "mark_fork_invalid_candidate d r s = Some s'" "fc_inv stake_of voters s'" "tree_root s' = tree_root s"
      "same_shape ?F (fm (fork_infos s'))" "marked_invalid (fst r) (subtree ?F r) ?F (fm (fork_infos s'))" by blast
  have mark: "fc_is_candidate (fork_infos s') n =
      Some (n \<notin> subtree ?F r \<and> fc_is_candidate (fork_infos s) n = Some True)" if n: "n \<in> dom ?F" for n
  proof -
    from n obtain x where x: "?F n = Some x" by blast
    from same_shape_SomeD [OF s'(4) x] obtain y where "fm (fork_infos s') n = Some y" by blast
    with x s'(5) show ?thesis by (auto simp: marked_invalid_def fc_is_candidate_def is_candidate_def)
  qed
  have "r \<in> dom ?F" using i(1) by blast
  note sub = subtree_dom [OF fc_inv_tree [OF inv] this]
  have "tree_root s \<in> dom ?F" using tree_ok_root [OF fc_inv_tree [OF inv]] by blast
  with mark [OF this] root_not_below [OF inv assms(4)] assms(3) s'(3)
  have root: "fc_is_candidate (fork_infos s') (tree_root s') = Some True" by simp
  from best_overall_path [OF s'(2) root] obtain b where
    b: "best_overall_slot s' = Some b" "heaviest_path stake_of s' (tree_root s') b" by blast
  have non: "fc_is_candidate (fork_infos s') n = Some False" if "n \<in> subtree ?F r" for n
    using mark [of n] sub that by auto
  have "b \<notin> subtree ?F r" using heaviest_path_candidate [OF b(2) root] non [of b] by auto
  with s'(1) b(1) non show ?thesis by blast
qed

theorem invalid_fork_not_best_witness:
  "\<exists>s' b. mark_fork_invalid_candidate (0, 0) (2, 0) demo = Some s' \<and> best_overall_slot s' = Some b \<and>
    b \<notin> subtree (fm (fork_infos demo)) (2, 0)"
  using invalid_fork_not_best [OF demo_reach demo_stakes, of "(2, 0)"] demo_states by (auto simp: fc_is_duplicate_confirmed_def)

text \<open>
  C31: marking a block valid confirms the block and all its ancestors and makes them candidates again;
  the returned list has exactly those of them that were not confirmed before.
\<close>

theorem valid_fork_confirms_ancestors:
  assumes "fc_reach stake_of voters d s" "stakes_ok stake_of cap voters"
    and "btm_get r (fork_infos s) \<noteq> None" "fst d < fst r"
  shows "\<exists>newly s'. mark_fork_valid_candidate d r s = Some (newly, s') \<and>
    (\<forall>k. (k = r \<or> is_strict_ancestor s k r = Some True) \<longrightarrow>
       fc_is_duplicate_confirmed (fork_infos s') k = Some True \<and> fc_is_candidate (fork_infos s') k = Some True) \<and>
    (\<forall>k. k \<in> set newly \<longleftrightarrow> (k = r \<or> is_strict_ancestor s k r = Some True) \<and>
       fc_is_duplicate_confirmed (fork_infos s) k = Some False)"
proof -
  let ?F = "fm (fork_infos s)"
  note inv = fc_reach_inv [OF assms(1,2)]
  note t = fc_inv_tree [OF inv]
  from assms(3) obtain i where i: "btm_get r (fork_infos s) = Some i" by blast
  from mark_valid_ok [OF inv assms(2) i assms(4)] obtain s' as newly where
    s': "mark_fork_valid_candidate d r s = Some (newly, s')" "same_shape ?F (fm (fork_infos s'))"
      "marked_valid r (subtree ?F r) (above ?F r) ?F (fm (fork_infos s'))" "ancestor_iterator (fork_infos s) r = Some as"
      "newly = filter (\<lambda>k. \<not> is_duplicate_confirmed (info ?F k)) (r # as)" by blast
  have anc: "is_strict_ancestor s k r = Some True \<longleftrightarrow> k \<in> above ?F r" for k
    using is_strict_ancestor_ok [OF t] by simp
  from ancestor_iterator_ok [OF t, of r] s'(4) have as: "set as = above ?F r" by auto
  have there: "\<exists>x. ?F k = Some x" if "k = r \<or> k \<in> above ?F r" for k
    using that i above_dom [OF t, of k r] by blast
  have "fc_is_duplicate_confirmed (fork_infos s') k = Some True \<and> fc_is_candidate (fork_infos s') k = Some True"
    if k: "k = r \<or> k \<in> above ?F r" for k
  proof -
    from there [OF k] obtain x where x: "?F k = Some x" by blast
    from same_shape_SomeD [OF s'(2) x] obtain y where y: "fm (fork_infos s') k = Some y" by blast
    have "\<And>a. latest_invalid_ancestor x = Some a \<Longrightarrow> a \<le> fst k" using fc_inv_block(1) [OF inv x] by (simp add: node_inv_def)
    then have "valid_since (fst k) (latest_invalid_ancestor x) = None" by (simp add: valid_since_def split: option.split)
    with s'(3) x y k show ?thesis
      by (auto simp: marked_valid_def fc_is_candidate_def fc_is_duplicate_confirmed_def is_candidate_def)
  qed
  moreover have "k \<in> set newly \<longleftrightarrow> (k = r \<or> k \<in> above ?F r) \<and> fc_is_duplicate_confirmed (fork_infos s) k = Some False" for k
    using there [of k] as by (auto simp: s'(5) fc_is_duplicate_confirmed_def)
  ultimately show ?thesis using s'(1) anc by auto
qed

theorem valid_fork_confirms_ancestors_witness:
  "\<exists>newly s'. mark_fork_valid_candidate (0, 0) (4, 0) demo = Some (newly, s') \<and> (2, 0) \<in> set newly \<and> (1, 0) \<notin> set newly"
proof -
  have "btm_get (4, 0) (fork_infos demo) \<noteq> None" by code_simp
  moreover have "is_strict_ancestor demo (2, 0) (4, 0) = Some True" "fc_is_duplicate_confirmed (fork_infos demo) (2, 0) = Some False"
    "fc_is_duplicate_confirmed (fork_infos demo) (1, 0) = Some True" by code_simp+
  ultimately show ?thesis using valid_fork_confirms_ancestors [OF demo_reach demo_stakes, of "(4, 0)"]
    by (fastforce dest: spec [of _ "(2, 0)"] spec [of _ "(1, 0)"])
qed

section \<open>The root and the ancestors\<close>

text \<open>
  C32: \<open>set_tree_root\<close> keeps exactly the new root and the blocks below it, unchanged except that the
  new root has no parent any more.
\<close>

theorem set_root_keeps_subtree:
  assumes "fc_reach stake_of voters d s" "stakes_ok stake_of cap voters" "btm_get r (fork_infos s) \<noteq> None"
  shows "\<exists>s'. set_tree_root r s = Some s' \<and> tree_root s' = r \<and> latest_votes s' = latest_votes s \<and>
    (\<forall>k. btm_get k (fork_infos s') =
      (if k = r then map_option (\<lambda>i. i\<lparr>parent := None\<rparr>) (btm_get k (fork_infos s))
       else if k \<in> subtree (fm (fork_infos s)) r then btm_get k (fork_infos s) else None))"
proof -
  from set_tree_root_ok [OF fc_reach_inv [OF assms(1,2)] assms(3)] obtain s' where
    s': "set_tree_root r s = Some s'" "tree_root s' = r" "latest_votes s' = latest_votes s"
      "fm (fork_infos s') = rooted_at r (fm (fork_infos s))" by blast
  with fun_cong [OF s'(4)] show ?thesis by (simp add: rooted_at_lookup)
qed

theorem set_root_keeps_subtree_witness:
  "\<exists>s'. set_tree_root (3, 0) demo = Some s' \<and> tree_root s' = (3, 0) \<and> btm_get (5, 0) (fork_infos s') = btm_get (5, 0) (fork_infos demo)"
proof -
  have "btm_get (3, 0) (fork_infos demo) \<noteq> None" by code_simp
  from set_root_keeps_subtree [OF demo_reach demo_stakes this] obtain s' where
    s': "set_tree_root (3, 0) demo = Some s'" "tree_root s' = (3, 0)"
      "btm_get (5, 0) (fork_infos s') = (if (5, 0) \<in> subtree (fm (fork_infos demo)) (3, 0) then btm_get (5, 0) (fork_infos demo) else None)"
    by fastforce
  have "map_option children (btm_get (3, 0) (fork_infos demo)) = Some [(5, 0)]" by code_simp
  then have "((3, 0), (5, 0)) \<in> child_rel (fm (fork_infos demo))" by (auto simp: child_rel_def)
  then have "(5, 0) \<in> subtree (fm (fork_infos demo)) (3, 0)" by (auto simp: subtree_def)
  with s' show ?thesis by auto
qed

text \<open>
  C33: \<open>is_strict_ancestor\<close> ends, and decides whether the second block is reached from the first by one
  or more steps from parent to child.
\<close>

theorem strict_ancestor_decides:
  assumes "fc_reach stake_of voters d s" "stakes_ok stake_of cap voters"
  shows "is_strict_ancestor s a k = Some ((a, k) \<in> (child_rel (fm (fork_infos s)))\<^sup>+)"
proof -
  let ?R = "child_rel (fm (fork_infos s))"
  note t = fc_inv_tree [OF fc_reach_inv [OF assms]]
  have "fst a < fst k" if "(a, k) \<in> ?R\<^sup>+" using that
  proof (induction rule: trancl_induct)
    case (base y)
    with child_rel_parent [OF t base] show ?case by auto
  next
    case (step y z)
    with child_rel_parent [OF t step.hyps(2)] show ?case by auto
  qed
  then have "a \<in> above (fm (fork_infos s)) k \<longleftrightarrow> (a, k) \<in> ?R\<^sup>+"
    by (auto simp: above_def subtree_def rtrancl_eq_or_trancl)
  with is_strict_ancestor_ok [OF t, of a k] show ?thesis by simp
qed

theorem strict_ancestor_decides_witness:
  "((1, 0), (4, 0)) \<in> (child_rel (fm (fork_infos demo)))\<^sup>+ \<and> ((3, 0), (4, 0)) \<notin> (child_rel (fm (fork_infos demo)))\<^sup>+"
proof -
  have "is_strict_ancestor demo (1, 0) (4, 0) = Some True" "is_strict_ancestor demo (3, 0) (4, 0) = Some False" by code_simp+
  with strict_ancestor_decides [OF demo_reach demo_stakes] show ?thesis by simp
qed

text \<open>
  C34: the block that is offered for switching back to the fork of the last vote is at or below the
  voted block: its best descendant while the vote is on a valid fork, its deepest descendant otherwise.
\<close>

theorem same_voted_fork_below_vote:
  assumes "fc_reach stake_of voters d s" "stakes_ok stake_of cap voters" "btm_get v (fork_infos s) = Some i"
  shows "\<exists>b. heaviest_slot_on_same_voted_fork (Some v) stray s = Some (Some b) \<and> b \<in> subtree (fm (fork_infos s)) v \<and>
    b = (if is_candidate i then best_slot i else deepest_slot i)"
proof -
  note inv = fc_reach_inv [OF assms(1,2)]
  have "best_slot i \<in> subtree (fm (fork_infos s)) v" using fc_inv_block(1) [OF inv assms(3)] by (simp add: node_inv_def)
  with deepest_below [OF inv assms(3)] assms(3) show ?thesis
    by (auto simp: heaviest_slot_on_same_voted_fork_def fc_is_candidate_def fc_best_slot_def fc_deepest_slot_def)
qed

theorem same_voted_fork_below_vote_witness:
  "\<exists>b. heaviest_slot_on_same_voted_fork (Some (2, 0)) False demo = Some (Some b) \<and> b \<in> subtree (fm (fork_infos demo)) (2, 0)"
proof -
  from demo_block(1) obtain i where "btm_get (2, 0) (fork_infos demo) = Some i" by blast
  from same_voted_fork_below_vote [OF demo_reach demo_stakes this] show ?thesis by blast
qed

end
