(* ===== verification/Compute_Budget.thy ===== *)
theory Compute_Budget
  imports Prelude
begin

text \<open>
  The compute budget of a transaction: the requests that its compute-budget instructions make
  (\<^verbatim>\<open>compute-budget-instruction\<close>), the table of builtin programs
  (\<^verbatim>\<open>builtins-default-costs\<close>), the limits and the prioritization fee they lead to
  (\<^verbatim>\<open>compute-budget\<close>), the signatures counted for the precompiles
  (\<^verbatim>\<open>runtime-transaction\<close>) and the fee for signatures (\<^verbatim>\<open>fee\<close>).

  Public keys are a type \<open>'k\<close>. The crates outside the repository are fields of \<open>budget_env\<close>: the
  program ids of the SDK, the first byte of a key, the size of a packet, the heap length, and the
  decoder of compute-budget instructions, which gives \<^const>\<open>None\<close> for bytes that are none of the
  four requests.
\<close>

section \<open>Instructions and their decoders\<close>

record svm_instruction =
  program_id_index :: u8
  instruction_data :: "u8 list"

datatype compute_budget_instruction =
    RequestHeapFrame u32
  | SetComputeUnitLimit u32
  | SetComputeUnitPrice u64
  | SetLoadedAccountsDataSizeLimit u32

record 'k sdk_ids =
  vote_id :: 'k
  system_program_id :: 'k
  compute_budget_id :: 'k
  bpf_loader_upgradeable_id :: 'k
  bpf_loader_deprecated_id :: 'k
  bpf_loader_id :: 'k
  loader_v4_id :: 'k
  secp256k1_program_id :: 'k
  ed25519_program_id :: 'k
  secp256r1_program_id :: 'k

record 'k budget_env =
  ids :: "'k sdk_ids"
  first_byte :: "'k \<Rightarrow> u8"
  packet_data_size :: nat
  heap_length :: u32
  decode_budget_instruction :: "u8 list \<Rightarrow> compute_budget_instruction option"

datatype instruction_error = InvalidInstructionData

text \<open>The variants of \<open>TransactionError\<close> that the code names; the others carry a number.\<close>

datatype transaction_error =
    InstructionError u8 instruction_error
  | DuplicateInstruction u8
  | InvalidLoadedAccountsDataSizeLimit
  | WouldExceedMaxBlockCostLimit
  | WouldExceedMaxVoteCostLimit
  | WouldExceedMaxAccountCostLimit
  | WouldExceedAccountDataBlockLimit
  | WouldExceedAccountDataTotalLimit
  | OtherTransactionError nat

section \<open>Builtin programs\<close>

datatype 'k builtin_cost = Migrating 'k nat | NotMigrating

fun core_bpf_migration_feature :: "'k builtin_cost \<Rightarrow> 'k option" where
  "core_bpf_migration_feature (Migrating feature position) = Some feature"
| "core_bpf_migration_feature NotMigrating = None"

fun builtin_position :: "'k builtin_cost \<Rightarrow> nat option" where
  "builtin_position (Migrating feature position) = Some position"
| "builtin_position NotMigrating = None"

definition MIGRATING_BUILTINS_COSTS :: "('k \<times> 'k builtin_cost) list" where
  "MIGRATING_BUILTINS_COSTS = []"

definition NON_MIGRATING_BUILTINS_COSTS :: "'k sdk_ids \<Rightarrow> ('k \<times> 'k builtin_cost) list" where
  "NON_MIGRATING_BUILTINS_COSTS i =
     [(vote_id i, NotMigrating), (system_program_id i, NotMigrating), (compute_budget_id i, NotMigrating),
      (bpf_loader_upgradeable_id i, NotMigrating), (bpf_loader_deprecated_id i, NotMigrating),
      (bpf_loader_id i, NotMigrating), (loader_v4_id i, NotMigrating),
      (secp256k1_program_id i, NotMigrating), (ed25519_program_id i, NotMigrating)]"

text \<open>Collecting into a hash map keeps the last entry of a key.\<close>

definition BUILTIN_INSTRUCTION_COSTS :: "'k sdk_ids \<Rightarrow> 'k \<Rightarrow> 'k builtin_cost option" where
  "BUILTIN_INSTRUCTION_COSTS i = map_of (rev (MIGRATING_BUILTINS_COSTS @ NON_MIGRATING_BUILTINS_COSTS i))"

definition MAYBE_BUILTIN_KEY :: "'k budget_env \<Rightarrow> bool list" where
  "MAYBE_BUILTIN_KEY env = fold (\<lambda>(key, _) table. table[unat (first_byte env key) := True])
     (MIGRATING_BUILTINS_COSTS @ NON_MIGRATING_BUILTINS_COSTS (ids env)) (replicate 256 False)"

datatype builtin_migration_feature_index =
    NotBuiltin_Index
  | BuiltinNoMigrationFeature
  | BuiltinWithMigrationFeature nat

definition get_builtin_migration_feature_index :: "'k sdk_ids \<Rightarrow> 'k \<Rightarrow> builtin_migration_feature_index" where
  "get_builtin_migration_feature_index i program_id =
     (case BUILTIN_INSTRUCTION_COSTS i program_id of
        None \<Rightarrow> NotBuiltin_Index
      | Some builtin_cost \<Rightarrow>
          (case builtin_position builtin_cost of
             None \<Rightarrow> BuiltinNoMigrationFeature
           | Some position \<Rightarrow> BuiltinWithMigrationFeature position))"

definition get_migration_feature_id :: "nat \<Rightarrow> 'k option" where
  "get_migration_feature_id index =
     (if index < length (MIGRATING_BUILTINS_COSTS :: ('k \<times> 'k builtin_cost) list)
      then core_bpf_migration_feature (snd (MIGRATING_BUILTINS_COSTS ! index)) else None)"

section \<open>Filters by program id index\<close>

definition FILTER_SIZE :: "'k budget_env \<Rightarrow> nat" where
  "FILTER_SIZE env = unat (of_nat (packet_data_size env div 32) :: u8)"

text \<open>\<open>get_mut(index).expect(..).get_or_insert_with(..)\<close> on the array of cached answers.\<close>

definition cached_answer :: "nat \<Rightarrow> 'b \<Rightarrow> 'b option list \<Rightarrow> ('b \<times> 'b option list) option" where
  "cached_answer index answer flags =
     (if index < length flags
      then Some (case flags ! index of None \<Rightarrow> (answer, flags[index := Some answer]) | Some b \<Rightarrow> (b, flags))
      else None)"

definition check_program_id :: "'k budget_env \<Rightarrow> 'k \<Rightarrow> bool" where
  "check_program_id env program_id =
     (MAYBE_BUILTIN_KEY env ! unat (first_byte env program_id) \<and> program_id = compute_budget_id (ids env))"

definition is_compute_budget_program ::
  "'k budget_env \<Rightarrow> nat \<Rightarrow> 'k \<Rightarrow> bool option list \<Rightarrow> (bool \<times> bool option list) option" where
  "is_compute_budget_program env index program_id = cached_answer index (check_program_id env program_id)"

datatype program_kind = NotBuiltin | Builtin | MigratingBuiltin nat

definition check_program_kind :: "'k budget_env \<Rightarrow> 'k \<Rightarrow> program_kind" where
  "check_program_kind env program_id =
     (if \<not> MAYBE_BUILTIN_KEY env ! unat (first_byte env program_id) then NotBuiltin
      else case get_builtin_migration_feature_index (ids env) program_id of
             NotBuiltin_Index \<Rightarrow> NotBuiltin
           | BuiltinNoMigrationFeature \<Rightarrow> Builtin
           | BuiltinWithMigrationFeature i \<Rightarrow> MigratingBuiltin i)"

definition get_program_kind ::
  "'k budget_env \<Rightarrow> nat \<Rightarrow> 'k \<Rightarrow> program_kind option list \<Rightarrow> (program_kind \<times> program_kind option list) option" where
  "get_program_kind env index program_id = cached_answer index (check_program_kind env program_id)"

section \<open>The requests of a transaction\<close>

record budget_details =
  requested_compute_unit_limit :: "(u8 \<times> u32) option"
  requested_compute_unit_price :: "(u8 \<times> u64) option"
  requested_heap_size :: "(u8 \<times> u32) option"
  requested_loaded_accounts_data_size_limit :: "(u8 \<times> u32) option"
  num_non_compute_budget_instructions :: u16
  num_non_migratable_builtin_instructions :: u16
  num_non_builtin_instructions :: u16
  migrating_builtin :: "u16 list"

definition budget_details_default :: budget_details where
  "budget_details_default =
     \<lparr>requested_compute_unit_limit = None, requested_compute_unit_price = None, requested_heap_size = None,
      requested_loaded_accounts_data_size_limit = None, num_non_compute_budget_instructions = 0,
      num_non_migratable_builtin_instructions = 0, num_non_builtin_instructions = 0,
      migrating_builtin = replicate (length (MIGRATING_BUILTINS_COSTS :: (unit \<times> unit builtin_cost) list)) 0\<rparr>"

definition process_instruction ::
  "'k budget_env \<Rightarrow> u8 \<Rightarrow> svm_instruction \<Rightarrow> budget_details \<Rightarrow> transaction_error + budget_details" where
  "process_instruction env index instruction self =
     (case decode_budget_instruction env (instruction_data instruction) of
        Some (RequestHeapFrame bytes) \<Rightarrow>
          if requested_heap_size self \<noteq> None then Inl (DuplicateInstruction index)
          else Inr (self\<lparr>requested_heap_size := Some (index, bytes)\<rparr>)
      | Some (SetComputeUnitLimit compute_unit_limit) \<Rightarrow>
          if requested_compute_unit_limit self \<noteq> None then Inl (DuplicateInstruction index)
          else Inr (self\<lparr>requested_compute_unit_limit := Some (index, compute_unit_limit)\<rparr>)
      | Some (SetComputeUnitPrice micro_lamports) \<Rightarrow>
          if requested_compute_unit_price self \<noteq> None then Inl (DuplicateInstruction index)
          else Inr (self\<lparr>requested_compute_unit_price := Some (index, micro_lamports)\<rparr>)
      | Some (SetLoadedAccountsDataSizeLimit bytes) \<Rightarrow>
          if requested_loaded_accounts_data_size_limit self \<noteq> None then Inl (DuplicateInstruction index)
          else Inr (self\<lparr>requested_loaded_accounts_data_size_limit := Some (index, bytes)\<rparr>)
      | None \<Rightarrow> Inl (InstructionError index InvalidInstructionData))"

text \<open>The first pass over the instructions, from number \<open>i\<close> on: requests, and a count of the rest.\<close>

fun collect_requests ::
  "'k budget_env \<Rightarrow> nat \<Rightarrow> ('k \<times> svm_instruction) list \<Rightarrow> bool option list \<Rightarrow> budget_details \<Rightarrow>
    (transaction_error + budget_details) option" where
  "collect_requests env i [] flags details = Some (Inr details)"
| "collect_requests env i ((program_id, instruction) # rest) flags details =
     (case is_compute_budget_program env (unat (program_id_index instruction)) program_id flags of
        None \<Rightarrow> None
      | Some (is_budget, flags) \<Rightarrow>
          if is_budget
          then (case process_instruction env (of_nat i) instruction details of
                  Inl e \<Rightarrow> Some (Inl e)
                | Inr details \<Rightarrow> collect_requests env (i + 1) rest flags details)
          else collect_requests env (i + 1) rest flags
                 (details\<lparr>num_non_compute_budget_instructions :=
                    saturating_add (num_non_compute_budget_instructions details) 1\<rparr>))"

text \<open>The second pass, made when no compute unit limit was requested: builtins and other programs.\<close>

definition count_program :: "program_kind \<Rightarrow> budget_details \<Rightarrow> budget_details option" where
  "count_program kind details =
     (case kind of
        Builtin \<Rightarrow> Some (details\<lparr>num_non_migratable_builtin_instructions :=
                    saturating_add (num_non_migratable_builtin_instructions details) 1\<rparr>)
      | NotBuiltin \<Rightarrow> Some (details\<lparr>num_non_builtin_instructions :=
                    saturating_add (num_non_builtin_instructions details) 1\<rparr>)
      | MigratingBuiltin i \<Rightarrow>
          if i < length (migrating_builtin details)
          then Some (details\<lparr>migrating_builtin :=
                 (migrating_builtin details)[i := saturating_add (migrating_builtin details ! i) 1]\<rparr>)
          else None)"

fun collect_builtins ::
  "'k budget_env \<Rightarrow> ('k \<times> svm_instruction) list \<Rightarrow> program_kind option list \<Rightarrow> budget_details \<Rightarrow>
    budget_details option" where
  "collect_builtins env [] flags details = Some details"
| "collect_builtins env ((program_id, instruction) # rest) flags details = do {
     (kind, flags) \<leftarrow> get_program_kind env (unat (program_id_index instruction)) program_id flags;
     details \<leftarrow> count_program kind details;
     collect_builtins env rest flags details
   }"

definition try_from ::
  "'k budget_env \<Rightarrow> ('k \<times> svm_instruction) list \<Rightarrow> (transaction_error + budget_details) option" where
  "try_from env instructions = do {
     r \<leftarrow> collect_requests env 0 instructions (replicate (FILTER_SIZE env) None) budget_details_default;
     (case r of
        Inl e \<Rightarrow> Some (Inl e)
      | Inr details \<Rightarrow>
          if requested_compute_unit_limit details = None
          then map_option Inr (collect_builtins env instructions (replicate (FILTER_SIZE env) None) details)
          else Some (Inr details))
   }"

section \<open>Limits\<close>

definition MAX_COMPUTE_UNIT_LIMIT :: u32 where "MAX_COMPUTE_UNIT_LIMIT = 1400000"
definition DEFAULT_HEAP_COST :: u64 where "DEFAULT_HEAP_COST = 8"
definition DEFAULT_INSTRUCTION_COMPUTE_UNIT_LIMIT :: u32 where "DEFAULT_INSTRUCTION_COMPUTE_UNIT_LIMIT = 200000"
definition MAX_BUILTIN_ALLOCATION_COMPUTE_UNIT_LIMIT :: u32 where "MAX_BUILTIN_ALLOCATION_COMPUTE_UNIT_LIMIT = 3000"
definition MAX_HEAP_FRAME_BYTES :: u32 where "MAX_HEAP_FRAME_BYTES = 256 * 1024"
definition MIN_HEAP_FRAME_BYTES :: "'k budget_env \<Rightarrow> u32" where "MIN_HEAP_FRAME_BYTES env = heap_length env"
definition MAX_LOADED_ACCOUNTS_DATA_SIZE_BYTES :: u32 where "MAX_LOADED_ACCOUNTS_DATA_SIZE_BYTES = 64 * 1024 * 1024"

lemmas budget_constants = MAX_COMPUTE_UNIT_LIMIT_def DEFAULT_HEAP_COST_def DEFAULT_INSTRUCTION_COMPUTE_UNIT_LIMIT_def
  MAX_BUILTIN_ALLOCATION_COMPUTE_UNIT_LIMIT_def MAX_HEAP_FRAME_BYTES_def MIN_HEAP_FRAME_BYTES_def
  MAX_LOADED_ACCOUNTS_DATA_SIZE_BYTES_def

record budget_limits =
  updated_heap_bytes :: u32
  compute_unit_limit :: u32
  compute_unit_price :: u64
  loaded_accounts_bytes :: u32

definition sanitize_requested_heap_size :: "'k budget_env \<Rightarrow> u32 \<Rightarrow> bool" where
  "sanitize_requested_heap_size env bytes \<longleftrightarrow>
     MIN_HEAP_FRAME_BYTES env \<le> bytes \<and> bytes \<le> MAX_HEAP_FRAME_BYTES \<and> bytes mod 1024 = 0"

text \<open>\<open>active\<close> tells whether the feature with a given id is active.\<close>

definition calculate_default_compute_unit_limit :: "('k \<Rightarrow> bool) \<Rightarrow> budget_details \<Rightarrow> u32 option" where
  "calculate_default_compute_unit_limit active self = do {
     (num_migrated, num_not_migrated) \<leftarrow> run_list (\<lambda>(index, n) (migrated, not_migrated).
         if n > 0
         then do {
           feature \<leftarrow> get_migration_feature_id index;
           Some (if active feature then (migrated + n, not_migrated) else (migrated, not_migrated + n))
         } else Some (migrated, not_migrated + n))
       (enumerate 0 (migrating_builtin self)) (0, 0);
     Some (saturating_add
       (saturating_mul
         (saturating_add (ucast (num_non_migratable_builtin_instructions self)) (ucast (num_not_migrated :: u16)))
         MAX_BUILTIN_ALLOCATION_COMPUTE_UNIT_LIMIT)
       (saturating_mul
         (saturating_add (ucast (num_non_builtin_instructions self)) (ucast (num_migrated :: u16)))
         DEFAULT_INSTRUCTION_COMPUTE_UNIT_LIMIT))
   }"

definition sanitize_and_convert_to_compute_budget_limits ::
  "'k budget_env \<Rightarrow> ('k \<Rightarrow> bool) \<Rightarrow> budget_details \<Rightarrow> (transaction_error + budget_limits) option" where
  "sanitize_and_convert_to_compute_budget_limits env active self =
     (case (case requested_heap_size self of
              None \<Rightarrow> Inr (MIN_HEAP_FRAME_BYTES env)
            | Some (index, bytes) \<Rightarrow>
                if sanitize_requested_heap_size env bytes then Inr bytes
                else Inl (InstructionError index InvalidInstructionData)) of
        Inl e \<Rightarrow> Some (Inl e)
      | Inr heap \<Rightarrow> do {
          limit \<leftarrow> (case requested_compute_unit_limit self of
                     None \<Rightarrow> calculate_default_compute_unit_limit active self
                   | Some (_, requested) \<Rightarrow> Some requested);
          let price = (case requested_compute_unit_price self of None \<Rightarrow> 0 | Some (_, price) \<Rightarrow> price);
          (case requested_loaded_accounts_data_size_limit self of
             Some (_, requested) \<Rightarrow>
               if requested = 0 then Some (Inl InvalidLoadedAccountsDataSizeLimit)
               else Some (Inr \<lparr>updated_heap_bytes = min heap MAX_HEAP_FRAME_BYTES,
                      compute_unit_limit = min limit MAX_COMPUTE_UNIT_LIMIT, compute_unit_price = price,
                      loaded_accounts_bytes = min requested MAX_LOADED_ACCOUNTS_DATA_SIZE_BYTES\<rparr>)
           | None \<Rightarrow>
               Some (Inr \<lparr>updated_heap_bytes = min heap MAX_HEAP_FRAME_BYTES,
                      compute_unit_limit = min limit MAX_COMPUTE_UNIT_LIMIT, compute_unit_price = price,
                      loaded_accounts_bytes = min MAX_LOADED_ACCOUNTS_DATA_SIZE_BYTES MAX_LOADED_ACCOUNTS_DATA_SIZE_BYTES\<rparr>))
        })"

definition process_compute_budget_instructions ::
  "'k budget_env \<Rightarrow> ('k \<Rightarrow> bool) \<Rightarrow> ('k \<times> svm_instruction) list \<Rightarrow> (transaction_error + budget_limits) option" where
  "process_compute_budget_instructions env active instructions = do {
     r \<leftarrow> try_from env instructions;
     (case r of
        Inl e \<Rightarrow> Some (Inl e)
      | Inr details \<Rightarrow> sanitize_and_convert_to_compute_budget_limits env active details)
   }"

section \<open>Fees\<close>

definition MICRO_LAMPORTS_PER_LAMPORT :: u64 where "MICRO_LAMPORTS_PER_LAMPORT = 1000000"

definition get_prioritization_fee :: "u64 \<Rightarrow> u64 \<Rightarrow> u64" where
  "get_prioritization_fee price limit =
     (let micro_lamport_fee = saturating_mul (ucast price) (ucast limit) :: u128;
          divisor = ucast MICRO_LAMPORTS_PER_LAMPORT :: u128;
          total = saturating_add micro_lamport_fee (ucast (saturating_sub MICRO_LAMPORTS_PER_LAMPORT 1))
      in if divisor = 0 then - 1
         else if unat (total div divisor) < 2 ^ 64 then ucast (total div divisor) else - 1)"

definition limits_prioritization_fee :: "budget_limits \<Rightarrow> u64" where
  "limits_prioritization_fee self = get_prioritization_fee (compute_unit_price self) (ucast (compute_unit_limit self))"

record signature_counts =
  sc_transaction_signatures :: u64
  sc_ed25519_signatures :: u64
  sc_secp256k1_signatures :: u64
  sc_secp256r1_signatures :: u64

definition calculate_signature_fee :: "signature_counts \<Rightarrow> u64 \<Rightarrow> bool \<Rightarrow> u64" where
  "calculate_signature_fee c lamports_per_signature enable_secp256r1_precompile =
     saturating_mul
       (saturating_add
         (saturating_add (saturating_add (sc_transaction_signatures c) (sc_ed25519_signatures c))
           (sc_secp256k1_signatures c))
         ((if enable_secp256r1_precompile then 1 else 0) * sc_secp256r1_signatures c))
       lamports_per_signature"

section \<open>Signatures of the precompiles\<close>

datatype program_id_status = NotSignature | Secp256k1 | Ed25519 | Secp256r1

definition check_signature_program :: "'k sdk_ids \<Rightarrow> 'k \<Rightarrow> program_id_status" where
  "check_signature_program i program_id =
     (if program_id = secp256k1_program_id i then Secp256k1
      else if program_id = ed25519_program_id i then Ed25519
      else if program_id = secp256r1_program_id i then Secp256r1
      else NotSignature)"

definition is_signature ::
  "'k budget_env \<Rightarrow> nat \<Rightarrow> 'k \<Rightarrow> program_id_status option list \<Rightarrow> (program_id_status \<times> program_id_status option list) option" where
  "is_signature env index program_id = cached_answer index (check_signature_program (ids env) program_id)"

definition get_num_signatures_in_instruction :: "svm_instruction \<Rightarrow> u64" where
  "get_num_signatures_in_instruction instruction =
     (case instruction_data instruction of [] \<Rightarrow> 0 | b # _ \<Rightarrow> ucast b)"

record precompile_signature_details =
  num_secp256k1_instruction_signatures :: u64
  num_ed25519_instruction_signatures :: u64
  num_secp256r1_instruction_signatures :: u64

definition count_signatures ::
  "program_id_status \<Rightarrow> svm_instruction \<Rightarrow> precompile_signature_details \<Rightarrow> precompile_signature_details" where
  "count_signatures status instruction value =
     (let n = get_num_signatures_in_instruction instruction in
      case status of
        NotSignature \<Rightarrow> value
      | Secp256k1 \<Rightarrow> value\<lparr>num_secp256k1_instruction_signatures := num_secp256k1_instruction_signatures value + n\<rparr>
      | Ed25519 \<Rightarrow> value\<lparr>num_ed25519_instruction_signatures := num_ed25519_instruction_signatures value + n\<rparr>
      | Secp256r1 \<Rightarrow> value\<lparr>num_secp256r1_instruction_signatures := num_secp256r1_instruction_signatures value + n\<rparr>)"

definition process_signature_instruction ::
  "'k budget_env \<Rightarrow> 'k \<times> svm_instruction \<Rightarrow> program_id_status option list \<times> precompile_signature_details \<Rightarrow>
    (program_id_status option list \<times> precompile_signature_details) option" where
  "process_signature_instruction env = (\<lambda>(program_id, instruction) (flags, value). do {
     (status, flags) \<leftarrow> is_signature env (unat (program_id_index instruction)) program_id flags;
     Some (flags, count_signatures status instruction value)
   })"

definition get_precompile_signature_details ::
  "'k budget_env \<Rightarrow> ('k \<times> svm_instruction) list \<Rightarrow> precompile_signature_details option" where
  "get_precompile_signature_details env instructions = map_option snd
     (run_list (process_signature_instruction env) instructions (replicate (FILTER_SIZE env) None,
       \<lparr>num_secp256k1_instruction_signatures = 0, num_ed25519_instruction_signatures = 0,
        num_secp256r1_instruction_signatures = 0\<rparr>))"

definition data_len_instruction :: "'k \<times> svm_instruction \<Rightarrow> u16 \<Rightarrow> u16" where
  "data_len_instruction = (\<lambda>(_, instruction) value.
     saturating_add value (of_nat (length (instruction_data instruction))))"

text \<open>\<open>InstructionMeta::try_new\<close>: one pass for both builders.\<close>

definition instruction_meta ::
  "'k budget_env \<Rightarrow> ('k \<times> svm_instruction) list \<Rightarrow> (precompile_signature_details \<times> u16) option" where
  "instruction_meta env instructions = map_option (\<lambda>((_, value), n). (value, n))
     (run_list (\<lambda>i (b, n). do { b \<leftarrow> process_signature_instruction env i b; Some (b, data_len_instruction i n) })
       instructions ((replicate (FILTER_SIZE env) None,
         \<lparr>num_secp256k1_instruction_signatures = 0, num_ed25519_instruction_signatures = 0,
          num_secp256r1_instruction_signatures = 0\<rparr>), 0))"

section \<open>The filters do not change the answers\<close>

text \<open>
  The program id index of every instruction is within the filters and determines the program id:
  the instructions come from a sanitized message with the program ids \<open>keys\<close>.
\<close>

definition sanitized :: "'k budget_env \<Rightarrow> (nat \<Rightarrow> 'k) \<Rightarrow> ('k \<times> svm_instruction) list \<Rightarrow> bool" where
  "sanitized env keys instructions \<longleftrightarrow> (\<forall>(p, i) \<in> set instructions.
     unat (program_id_index i) < FILTER_SIZE env \<and> p = keys (unat (program_id_index i)))"

definition flags_ok :: "nat \<Rightarrow> (nat \<Rightarrow> 'b) \<Rightarrow> 'b option list \<Rightarrow> bool" where
  "flags_ok n f flags \<longleftrightarrow> length flags = n \<and> (\<forall>j b. j < n \<longrightarrow> flags ! j = Some b \<longrightarrow> b = f j)"

lemma flags_ok_new: "flags_ok n f (replicate n None)"
  by (simp add: flags_ok_def)

lemma cached_answer_ok:
  assumes "flags_ok n f flags" "index < n"
  shows "\<exists>flags'. cached_answer index (f index) flags = Some (f index, flags') \<and> flags_ok n f flags'"
  using assms by (cases "flags ! index") (auto simp: cached_answer_def flags_ok_def nth_list_update)

definition builtin_ids :: "'k sdk_ids \<Rightarrow> 'k list" where
  "builtin_ids i = [vote_id i, system_program_id i, compute_budget_id i, bpf_loader_upgradeable_id i,
     bpf_loader_deprecated_id i, bpf_loader_id i, loader_v4_id i, secp256k1_program_id i, ed25519_program_id i]"

lemma builtins_eq: "MIGRATING_BUILTINS_COSTS @ NON_MIGRATING_BUILTINS_COSTS i = map (\<lambda>p. (p, NotMigrating)) (builtin_ids i)"
  by (simp add: MIGRATING_BUILTINS_COSTS_def NON_MIGRATING_BUILTINS_COSTS_def builtin_ids_def)

lemma map_of_const: "map_of (map (\<lambda>p. (p, v)) ps) p = (if p \<in> set ps then Some v else None)"
  by (induction ps) auto

lemma table_fold:
  "n < length table \<Longrightarrow> fold (\<lambda>p t. t[f p := True]) ps table ! n = (table ! n \<or> n \<in> f ` set ps)"
proof (induction ps arbitrary: table)
  case (Cons p ps)
  then show ?case by (cases "n = f p") (auto simp: Cons.IH [of "table[f p := True]"])
qed simp

lemma byte_less: "unat (b :: u8) < 256"
  using unsigned_less [of b] by simp

lemma maybe_builtin_table:
  "MAYBE_BUILTIN_KEY env ! unat (first_byte env p) \<longleftrightarrow> first_byte env p \<in> first_byte env ` set (builtin_ids (ids env))"
proof -
  have "MAYBE_BUILTIN_KEY env = fold (\<lambda>p t. t[unat (first_byte env p) := True]) (builtin_ids (ids env)) (replicate 256 False)"
    unfolding MAYBE_BUILTIN_KEY_def builtins_eq by (simp add: fold_map o_def)
  then show ?thesis using byte_less [of "first_byte env p"] by (auto simp: table_fold word_unat_eq_iff image_iff)
qed

lemma check_program_id_iff: "check_program_id env p \<longleftrightarrow> p = compute_budget_id (ids env)"
  unfolding check_program_id_def maybe_builtin_table by (auto simp: builtin_ids_def)

lemma check_program_kind_eq:
  "check_program_kind env p = (if p \<in> set (builtin_ids (ids env)) then Builtin else NotBuiltin)"
proof -
  have "BUILTIN_INSTRUCTION_COSTS (ids env) p = (if p \<in> set (builtin_ids (ids env)) then Some NotMigrating else None)"
    unfolding BUILTIN_INSTRUCTION_COSTS_def builtins_eq rev_map map_of_const by simp
  then show ?thesis
    unfolding check_program_kind_def maybe_builtin_table by (simp add: get_builtin_migration_feature_index_def)
qed

section \<open>What the two passes compute\<close>

fun heap_request :: "compute_budget_instruction \<Rightarrow> u32 option" where
  "heap_request (RequestHeapFrame v) = Some v"
| "heap_request _ = None"

fun limit_request :: "compute_budget_instruction \<Rightarrow> u32 option" where
  "limit_request (SetComputeUnitLimit v) = Some v"
| "limit_request _ = None"

fun price_request :: "compute_budget_instruction \<Rightarrow> u64 option" where
  "price_request (SetComputeUnitPrice v) = Some v"
| "price_request _ = None"

fun loaded_request :: "compute_budget_instruction \<Rightarrow> u32 option" where
  "loaded_request (SetLoadedAccountsDataSizeLimit v) = Some v"
| "loaded_request _ = None"

text \<open>The requests of one kind, with the numbers of their instructions, in the order of the message.\<close>

fun picks ::
  "'k budget_env \<Rightarrow> (compute_budget_instruction \<Rightarrow> 'v option) \<Rightarrow> nat \<Rightarrow> ('k \<times> svm_instruction) list \<Rightarrow> (u8 \<times> 'v) list" where
  "picks env sel i [] = []"
| "picks env sel i ((p, instruction) # rest) =
     (if p = compute_budget_id (ids env)
      then case decode_budget_instruction env (instruction_data instruction) of
             None \<Rightarrow> picks env sel (i + 1) rest
           | Some r \<Rightarrow> (case sel r of None \<Rightarrow> picks env sel (i + 1) rest | Some v \<Rightarrow> (of_nat i, v) # picks env sel (i + 1) rest)
      else picks env sel (i + 1) rest)"

definition all_decode :: "'k budget_env \<Rightarrow> ('k \<times> svm_instruction) list \<Rightarrow> bool" where
  "all_decode env instructions \<longleftrightarrow> (\<forall>(p, i) \<in> set instructions.
     p = compute_budget_id (ids env) \<longrightarrow> decode_budget_instruction env (instruction_data i) \<noteq> None)"

definition slot_free :: "'a option \<Rightarrow> 'a list \<Rightarrow> bool" where
  "slot_free x xs \<longleftrightarrow> (if x = None then length xs \<le> 1 else xs = [])"

definition slot_after :: "'a option \<Rightarrow> 'a list \<Rightarrow> 'a option" where
  "slot_after x xs = (case xs of [] \<Rightarrow> x | y # _ \<Rightarrow> Some y)"

lemma slot_simps [simp]:
  "slot_free x []" "slot_free x (y # ys) \<longleftrightarrow> x = None \<and> ys = []"
  "slot_after x [] = x" "slot_after x [y] = Some y" "slot_free (Some z) ys \<longleftrightarrow> ys = []"
  by (auto simp: slot_free_def slot_after_def)

definition requests_fit :: "'k budget_env \<Rightarrow> nat \<Rightarrow> ('k \<times> svm_instruction) list \<Rightarrow> budget_details \<Rightarrow> bool" where
  "requests_fit env i instructions d \<longleftrightarrow> all_decode env instructions \<and>
     slot_free (requested_heap_size d) (picks env heap_request i instructions) \<and>
     slot_free (requested_compute_unit_limit d) (picks env limit_request i instructions) \<and>
     slot_free (requested_compute_unit_price d) (picks env price_request i instructions) \<and>
     slot_free (requested_loaded_accounts_data_size_limit d) (picks env loaded_request i instructions)"

definition requests_after :: "'k budget_env \<Rightarrow> nat \<Rightarrow> ('k \<times> svm_instruction) list \<Rightarrow> budget_details \<Rightarrow> u16 \<Rightarrow> budget_details" where
  "requests_after env i instructions d n = d
     \<lparr>requested_heap_size := slot_after (requested_heap_size d) (picks env heap_request i instructions),
      requested_compute_unit_limit := slot_after (requested_compute_unit_limit d) (picks env limit_request i instructions),
      requested_compute_unit_price := slot_after (requested_compute_unit_price d) (picks env price_request i instructions),
      requested_loaded_accounts_data_size_limit :=
        slot_after (requested_loaded_accounts_data_size_limit d) (picks env loaded_request i instructions),
      num_non_compute_budget_instructions := n\<rparr>"

fun request_free :: "compute_budget_instruction \<Rightarrow> budget_details \<Rightarrow> bool" where
  "request_free (RequestHeapFrame v) d = (requested_heap_size d = None)"
| "request_free (SetComputeUnitLimit v) d = (requested_compute_unit_limit d = None)"
| "request_free (SetComputeUnitPrice w) d = (requested_compute_unit_price d = None)"
| "request_free (SetLoadedAccountsDataSizeLimit v) d = (requested_loaded_accounts_data_size_limit d = None)"

fun request_store :: "u8 \<Rightarrow> compute_budget_instruction \<Rightarrow> budget_details \<Rightarrow> budget_details" where
  "request_store i (RequestHeapFrame v) d = d\<lparr>requested_heap_size := Some (i, v)\<rparr>"
| "request_store i (SetComputeUnitLimit v) d = d\<lparr>requested_compute_unit_limit := Some (i, v)\<rparr>"
| "request_store i (SetComputeUnitPrice w) d = d\<lparr>requested_compute_unit_price := Some (i, w)\<rparr>"
| "request_store i (SetLoadedAccountsDataSizeLimit v) d = d\<lparr>requested_loaded_accounts_data_size_limit := Some (i, v)\<rparr>"

lemma process_instruction_eq:
  "process_instruction env i x d =
     (case decode_budget_instruction env (instruction_data x) of
        None \<Rightarrow> Inl (InstructionError i InvalidInstructionData)
      | Some r \<Rightarrow> if request_free r d then Inr (request_store i r d) else Inl (DuplicateInstruction i))"
  by (simp add: process_instruction_def split: option.split compute_budget_instruction.split)

lemma request_cons:
  assumes "decode_budget_instruction env (instruction_data x) = Some r"
  shows "requests_fit env i ((compute_budget_id (ids env), x) # rest) d \<longleftrightarrow>
      request_free r d \<and> requests_fit env (Suc i) rest (request_store (of_nat i) r d)"
    and "requests_fit env (Suc i) rest (request_store (of_nat i) r d) \<Longrightarrow>
      requests_after env i ((compute_budget_id (ids env), x) # rest) d n =
        requests_after env (Suc i) rest (request_store (of_nat i) r d) n"
  using assms by (cases r; auto simp: requests_fit_def requests_after_def all_decode_def)+

lemma other_cons:
  assumes "p \<noteq> compute_budget_id (ids env)"
  shows "requests_fit env i ((p, x) # rest) d \<longleftrightarrow> requests_fit env (Suc i) rest (d\<lparr>num_non_compute_budget_instructions := m\<rparr>)"
    and "requests_after env i ((p, x) # rest) d n =
      requests_after env (Suc i) rest (d\<lparr>num_non_compute_budget_instructions := m\<rparr>) n"
  using assms by (auto simp: requests_fit_def requests_after_def all_decode_def)

lemma collect_requests_ok:
  assumes "sanitized env keys instructions" "flags_ok (FILTER_SIZE env) (\<lambda>j. check_program_id env (keys j)) flags"
  shows "if requests_fit env i instructions d
    then \<exists>n. collect_requests env i instructions flags d = Some (Inr (requests_after env i instructions d n))
    else \<exists>e. collect_requests env i instructions flags d = Some (Inl e)"
  using assms
proof (induction instructions arbitrary: i flags d)
  case Nil
  have "requests_after env i [] d (num_non_compute_budget_instructions d) = d" by (simp add: requests_after_def)
  then have "collect_requests env i [] flags d = Some (Inr (requests_after env i [] d (num_non_compute_budget_instructions d)))" by simp
  then show ?case by (auto simp: requests_fit_def all_decode_def)
next
  case (Cons a rest)
  obtain p x where a: "a = (p, x)" by (cases a)
  let ?j = "unat (program_id_index x)"
  from Cons.prems(1) a have x: "?j < FILTER_SIZE env" "p = keys ?j" and rest: "sanitized env keys rest"
    by (auto simp: sanitized_def)
  from cached_answer_ok [OF Cons.prems(2) x(1)] x(2) obtain flags' where
    f: "is_compute_budget_program env ?j p flags = Some (p = compute_budget_id (ids env), flags')"
      "flags_ok (FILTER_SIZE env) (\<lambda>j. check_program_id env (keys j)) flags'"
    by (auto simp: is_compute_budget_program_def check_program_id_iff [symmetric])
  note ih = Cons.IH [OF rest f(2), of "Suc i"]
  show ?case
  proof (cases "p = compute_budget_id (ids env)")
    case False
    let ?m = "saturating_add (num_non_compute_budget_instructions d) 1"
    show ?thesis
      using ih [of "d\<lparr>num_non_compute_budget_instructions := ?m\<rparr>"] f(1) a False
        other_cons [OF False, where i = i and x = x and rest = rest and d = d and m = ?m] by (simp split: if_splits)
  next
    case True
    show ?thesis
    proof (cases "decode_budget_instruction env (instruction_data x)")
      case None
      with True f(1) a show ?thesis by (auto simp: requests_fit_def all_decode_def process_instruction_eq)
    next
      case (Some r)
      show ?thesis
        using ih [of "request_store (of_nat i) r d"] f(1) a True Some request_cons [OF Some, of i rest d]
        by (auto simp: process_instruction_eq split: if_splits)
    qed
  qed
qed

definition count_where :: "('k \<Rightarrow> bool) \<Rightarrow> ('k \<times> svm_instruction) list \<Rightarrow> nat" where
  "count_where P instructions = length (filter (P \<circ> fst) instructions)"

lemma collect_builtins_ok:
  assumes "sanitized env keys instructions" "flags_ok (FILTER_SIZE env) (\<lambda>j. check_program_kind env (keys j)) flags"
  shows "\<exists>b c. collect_builtins env instructions flags d =
      Some (d\<lparr>num_non_migratable_builtin_instructions := b, num_non_builtin_instructions := c\<rparr>) \<and>
    unat b = min 65535 (unat (num_non_migratable_builtin_instructions d) +
      count_where (\<lambda>p. p \<in> set (builtin_ids (ids env))) instructions) \<and>
    unat c = min 65535 (unat (num_non_builtin_instructions d) +
      count_where (\<lambda>p. p \<notin> set (builtin_ids (ids env))) instructions)"
  using assms
proof (induction instructions arbitrary: flags d)
  case Nil
  have w: "unat (w :: u16) \<le> 65535" for w
  proof -
    have "unat w < 65536" using unsigned_less [of w] by simp
    then show ?thesis by simp
  qed
  show ?case
    by (rule exI [of _ "num_non_migratable_builtin_instructions d"], rule exI [of _ "num_non_builtin_instructions d"])
      (simp add: count_where_def w)
next
  case (Cons a rest)
  obtain p x where a: "a = (p, x)" by (cases a)
  let ?j = "unat (program_id_index x)"
  from Cons.prems(1) a have x: "?j < FILTER_SIZE env" "p = keys ?j" and rest: "sanitized env keys rest"
    by (auto simp: sanitized_def)
  from cached_answer_ok [OF Cons.prems(2) x(1)] x(2) obtain flags' where
    f: "get_program_kind env ?j p flags = Some (check_program_kind env p, flags')"
      "flags_ok (FILTER_SIZE env) (\<lambda>j. check_program_kind env (keys j)) flags'"
    by (auto simp: get_program_kind_def)
  note ih = Cons.IH [OF rest f(2)]
  have sat: "min 65535 (unat (saturating_add w 1) + n) = min 65535 (unat w + Suc n)" for w :: u16 and n
    by (auto simp: unat_saturating_add min_def)
  show ?case
  proof (cases "p \<in> set (builtin_ids (ids env))")
    case True
    with ih [of "d\<lparr>num_non_migratable_builtin_instructions := saturating_add (num_non_migratable_builtin_instructions d) 1\<rparr>"] f(1) a
    show ?thesis by (simp add: check_program_kind_eq count_program_def count_where_def sat)
  next
    case False
    with ih [of "d\<lparr>num_non_builtin_instructions := saturating_add (num_non_builtin_instructions d) 1\<rparr>"] f(1) a
    show ?thesis by (simp add: check_program_kind_eq count_program_def count_where_def sat)
  qed
qed

lemma default_limit:
  assumes "migrating_builtin d = []"
  shows "\<exists>l. calculate_default_compute_unit_limit active d = Some l \<and>
    unat (min l MAX_COMPUTE_UNIT_LIMIT) =
      min 1400000 (3000 * unat (num_non_migratable_builtin_instructions d) + 200000 * unat (num_non_builtin_instructions d))"
proof -
  have u: "unat (ucast (w :: u16) :: u32) = unat w" for w by (simp add: unat_ucast_up)
  have m: "unat (min l MAX_COMPUTE_UNIT_LIMIT) = min (unat l) 1400000" for l :: u32
    by (simp add: min_def word_le_nat_alt MAX_COMPUTE_UNIT_LIMIT_def)
  have cap: "min (min M (min M (min M a * 3000) + min M (min M b * 200000))) 1400000 = min 1400000 (3000 * a + 200000 * b)"
    if "M = 4294967295" for M a b :: nat
    using that by (auto simp: min_def)
  show ?thesis using assms
    by (simp add: cap calculate_default_compute_unit_limit_def m unat_saturating_add unat_saturating_mul u
        MAX_BUILTIN_ALLOCATION_COMPUTE_UNIT_LIMIT_def DEFAULT_INSTRUCTION_COMPUTE_UNIT_LIMIT_def)
qed

section \<open>The limits of a transaction\<close>

definition first_request :: "(u8 \<times> 'v) list \<Rightarrow> 'v option" where
  "first_request rs = (case rs of [] \<Rightarrow> None | r # _ \<Rightarrow> Some (snd r))"

definition budget_valid :: "'k budget_env \<Rightarrow> ('k \<times> svm_instruction) list \<Rightarrow> bool" where
  "budget_valid env instructions \<longleftrightarrow> all_decode env instructions \<and>
     length (picks env heap_request 0 instructions) \<le> 1 \<and> length (picks env limit_request 0 instructions) \<le> 1 \<and>
     length (picks env price_request 0 instructions) \<le> 1 \<and> length (picks env loaded_request 0 instructions) \<le> 1 \<and>
     (\<forall>v. first_request (picks env heap_request 0 instructions) = Some v \<longrightarrow> sanitize_requested_heap_size env v) \<and>
     first_request (picks env loaded_request 0 instructions) \<noteq> Some 0"

definition requested_units :: "'k budget_env \<Rightarrow> ('k \<times> svm_instruction) list \<Rightarrow> nat" where
  "requested_units env instructions = (case first_request (picks env limit_request 0 instructions) of
     Some v \<Rightarrow> unat v
   | None \<Rightarrow> 3000 * count_where (\<lambda>p. p \<in> set (builtin_ids (ids env))) instructions +
       200000 * count_where (\<lambda>p. p \<notin> set (builtin_ids (ids env))) instructions)"

lemma slot_after_first: "map_option snd (slot_after None rs) = first_request rs"
  by (simp add: slot_after_def first_request_def split: list.split)

lemma try_from_ok:
  assumes s: "sanitized env keys instructions"
  shows "if requests_fit env 0 instructions budget_details_default
    then \<exists>d l. try_from env instructions = Some (Inr d) \<and>
      (case requested_compute_unit_limit d of None \<Rightarrow> calculate_default_compute_unit_limit active d
       | Some (_, v) \<Rightarrow> Some v) = Some l \<and>
      unat (min l MAX_COMPUTE_UNIT_LIMIT) = min 1400000 (requested_units env instructions) \<and>
      requested_heap_size d = slot_after None (picks env heap_request 0 instructions) \<and>
      requested_compute_unit_price d = slot_after None (picks env price_request 0 instructions) \<and>
      requested_loaded_accounts_data_size_limit d = slot_after None (picks env loaded_request 0 instructions)
    else \<exists>e. try_from env instructions = Some (Inl e)"
proof (cases "requests_fit env 0 instructions budget_details_default")
  case False
  with collect_requests_ok [OF s flags_ok_new, of 0 budget_details_default] show ?thesis by (auto simp: try_from_def)
next
  case True
  with collect_requests_ok [OF s flags_ok_new, of 0 budget_details_default] obtain n where
    n: "collect_requests env 0 instructions (replicate (FILTER_SIZE env) None) budget_details_default =
      Some (Inr (requests_after env 0 instructions budget_details_default n))" by auto
  let ?d = "requests_after env 0 instructions budget_details_default n"
  have d: "requested_heap_size ?d = slot_after None (picks env heap_request 0 instructions)"
    "requested_compute_unit_price ?d = slot_after None (picks env price_request 0 instructions)"
    "requested_loaded_accounts_data_size_limit ?d = slot_after None (picks env loaded_request 0 instructions)"
    "requested_compute_unit_limit ?d = slot_after None (picks env limit_request 0 instructions)"
    "migrating_builtin ?d = []" "num_non_migratable_builtin_instructions ?d = 0" "num_non_builtin_instructions ?d = 0"
    by (simp_all add: requests_after_def budget_details_default_def MIGRATING_BUILTINS_COSTS_def)
  show ?thesis
  proof (cases "picks env limit_request 0 instructions")
    case (Cons r rs)
    have m: "unat (min v MAX_COMPUTE_UNIT_LIMIT) = min 1400000 (unat v)" for v
      by (simp add: min_def word_le_nat_alt MAX_COMPUTE_UNIT_LIMIT_def)
    obtain j v where "r = (j, v)" by (cases r)
    with Cons d n True m show ?thesis
      by (simp add: try_from_def requested_units_def first_request_def slot_after_def)
  next
    case Nil
    from collect_builtins_ok [OF s flags_ok_new, of ?d] obtain b c where
      bc: "collect_builtins env instructions (replicate (FILTER_SIZE env) None) ?d =
          Some (?d\<lparr>num_non_migratable_builtin_instructions := b, num_non_builtin_instructions := c\<rparr>)"
        "unat b = min 65535 (count_where (\<lambda>p. p \<in> set (builtin_ids (ids env))) instructions)"
        "unat c = min 65535 (count_where (\<lambda>p. p \<notin> set (builtin_ids (ids env))) instructions)"
      using d(6,7) by auto
    let ?e = "?d\<lparr>num_non_migratable_builtin_instructions := b, num_non_builtin_instructions := c\<rparr>"
    have "migrating_builtin ?e = []" using d(5) by simp
    from default_limit [OF this, of active] obtain l where
      l: "calculate_default_compute_unit_limit active ?e = Some l"
        "unat (min l MAX_COMPUTE_UNIT_LIMIT) = min 1400000 (3000 * unat b + 200000 * unat c)" by auto
    have cap: "min 1400000 (3000 * min 65535 x + 200000 * min 65535 y) = min 1400000 (3000 * x + 200000 * y)" for x y :: nat
      by (auto simp: min_def)
    have units: "unat (min l MAX_COMPUTE_UNIT_LIMIT) = min 1400000 (requested_units env instructions)"
      using l(2) unfolding bc(2,3) cap by (simp add: requested_units_def first_request_def Nil)
    have "try_from env instructions = Some (Inr ?e)" using n bc(1) d(4) Nil by (simp add: try_from_def)
    with True d(1-4) l(1) units Nil show ?thesis by auto
  qed
qed

lemma budget_limits_ok:
  assumes s: "sanitized env keys instructions" and h: "heap_length env \<le> MAX_HEAP_FRAME_BYTES"
  shows "if budget_valid env instructions
    then \<exists>limits. process_compute_budget_instructions env active instructions = Some (Inr limits) \<and>
      unat (compute_unit_limit limits) = min 1400000 (requested_units env instructions) \<and>
      updated_heap_bytes limits =
        (case first_request (picks env heap_request 0 instructions) of None \<Rightarrow> heap_length env | Some v \<Rightarrow> v) \<and>
      heap_length env \<le> updated_heap_bytes limits \<and> updated_heap_bytes limits \<le> 256 * 1024 \<and>
      compute_unit_price limits =
        (case first_request (picks env price_request 0 instructions) of None \<Rightarrow> 0 | Some v \<Rightarrow> v) \<and>
      loaded_accounts_bytes limits =
        (case first_request (picks env loaded_request 0 instructions) of
           None \<Rightarrow> 64 * 1024 * 1024 | Some v \<Rightarrow> min v (64 * 1024 * 1024)) \<and>
      0 < loaded_accounts_bytes limits
    else \<exists>e. process_compute_budget_instructions env active instructions = Some (Inl e)"
proof (cases "requests_fit env 0 instructions budget_details_default")
  case False
  with try_from_ok [OF s, of active] obtain e where "try_from env instructions = Some (Inl e)" by auto
  moreover have "\<not> budget_valid env instructions"
    using False by (auto simp: budget_valid_def requests_fit_def budget_details_default_def slot_free_def)
  ultimately show ?thesis by (simp add: process_compute_budget_instructions_def)
next
  case True
  from try_from_ok [OF s, of active] True obtain d l where
    d: "try_from env instructions = Some (Inr d)"
      "(case requested_compute_unit_limit d of None \<Rightarrow> calculate_default_compute_unit_limit active d
       | Some (_, v) \<Rightarrow> Some v) = Some l"
      "unat (min l MAX_COMPUTE_UNIT_LIMIT) = min 1400000 (requested_units env instructions)"
      "requested_heap_size d = slot_after None (picks env heap_request 0 instructions)"
      "requested_compute_unit_price d = slot_after None (picks env price_request 0 instructions)"
      "requested_loaded_accounts_data_size_limit d = slot_after None (picks env loaded_request 0 instructions)"
    by auto
  have fit: "budget_valid env instructions \<longleftrightarrow>
      (\<forall>v. first_request (picks env heap_request 0 instructions) = Some v \<longrightarrow> sanitize_requested_heap_size env v) \<and>
      first_request (picks env loaded_request 0 instructions) \<noteq> Some 0"
    using True by (auto simp: budget_valid_def requests_fit_def budget_details_default_def slot_free_def)
  note first = slot_after_first [of "picks env heap_request 0 instructions"]
    slot_after_first [of "picks env price_request 0 instructions"] slot_after_first [of "picks env loaded_request 0 instructions"]
  show ?thesis
    unfolding fit process_compute_budget_instructions_def sanitize_and_convert_to_compute_budget_limits_def d(1)
    using d(2-) first [symmetric] h
    by (auto simp: sanitize_requested_heap_size_def budget_constants word_neq_0_conv split: option.splits)
qed

section \<open>The prioritization fee\<close>

lemma prioritization_fee_ok:
  "unat (get_prioritization_fee price limit) = min (2 ^ 64 - 1) ((unat price * unat limit + 999999) div 1000000)"
proof -
  have p: "unat price \<le> 2 ^ 64 - 1" "unat limit \<le> 2 ^ 64 - 1"
    using unat_bound [of price] unat_bound [of limit] by simp_all
  then have "unat price * unat limit \<le> (2 ^ 64 - 1) * (2 ^ 64 - 1)" by (rule mult_le_mono)
  then have b: "unat price * unat limit + 999999 < 2 ^ 128" by simp
  let ?m = "saturating_mul (ucast price) (ucast limit) :: u128"
  have m: "unat ?m = unat price * unat limit" using b by (simp add: unat_saturating_mul unat_ucast_up)
  have s: "unat (saturating_add ?m (ucast (saturating_sub MICRO_LAMPORTS_PER_LAMPORT 1))) = unat price * unat limit + 999999"
    using b by (simp add: unat_saturating_add m unat_ucast_up unat_saturating_sub MICRO_LAMPORTS_PER_LAMPORT_def)
  have u: "unat (ucast (w :: u128) :: u64) = unat w" if "unat w < 2 ^ 64" for w
    using that by (simp add: unsigned_ucast_eq take_bit_nat_eq_self)
  let ?t = "saturating_add ?m (ucast (saturating_sub MICRO_LAMPORTS_PER_LAMPORT 1)) div 1000000"
  have t: "unat ?t = (unat price * unat limit + 999999) div 1000000" by (simp add: unat_div s)
  have "get_prioritization_fee price limit = (if unat ?t < 2 ^ 64 then ucast ?t else - 1)"
    by (simp add: get_prioritization_fee_def Let_def MICRO_LAMPORTS_PER_LAMPORT_def)
  then show ?thesis using u [of ?t] unfolding t by (auto simp: unat_max_word)
qed

end
