(* ===== verification/Cost_Model.thy ===== *)
theory Cost_Model
  imports Compute_Budget
begin

text \<open>
  The cost of a transaction in compute units: \<^verbatim>\<open>cost-model/src/block_cost_limits.rs\<close>,
  \<^verbatim>\<open>transaction_cost.rs\<close> and \<^verbatim>\<open>cost_model.rs\<close>.

  What the cost model reads of a transaction is the record \<open>cost_tx\<close>. Fields of \<open>cost_env\<close> stand for
  code outside the repository: the decoder of system instructions (with the size limit of a packet),
  the cost of loaded memory, and the limits on allocations of the system interface; a feature set is
  the predicate of its active feature ids.
\<close>

section \<open>Constants\<close>

definition COMPUTE_UNIT_TO_US_RATIO :: u64 where "COMPUTE_UNIT_TO_US_RATIO = 30"
definition SIGNATURE_COST :: u64 where "SIGNATURE_COST = COMPUTE_UNIT_TO_US_RATIO * 24"
definition SECP256K1_VERIFY_COST :: u64 where "SECP256K1_VERIFY_COST = COMPUTE_UNIT_TO_US_RATIO * 223"
definition ED25519_VERIFY_COST :: u64 where "ED25519_VERIFY_COST = COMPUTE_UNIT_TO_US_RATIO * 76"
definition ED25519_VERIFY_STRICT_COST :: u64 where "ED25519_VERIFY_STRICT_COST = COMPUTE_UNIT_TO_US_RATIO * 80"
definition SECP256R1_VERIFY_COST :: u64 where "SECP256R1_VERIFY_COST = COMPUTE_UNIT_TO_US_RATIO * 160"
definition WRITE_LOCK_UNITS :: u64 where "WRITE_LOCK_UNITS = COMPUTE_UNIT_TO_US_RATIO * 10"
definition INSTRUCTION_DATA_BYTES_COST :: u64 where "INSTRUCTION_DATA_BYTES_COST = 140 div COMPUTE_UNIT_TO_US_RATIO"
definition MAX_BLOCK_UNITS_SIMD_0256 :: u64 where "MAX_BLOCK_UNITS_SIMD_0256 = 60000000"
definition MAX_BLOCK_UNITS_SIMD_0286 :: u64 where "MAX_BLOCK_UNITS_SIMD_0286 = 100000000"
definition MAX_BLOCK_UNITS :: u64 where "MAX_BLOCK_UNITS = MAX_BLOCK_UNITS_SIMD_0256"
definition MAX_WRITABLE_ACCOUNT_UNITS :: u64 where "MAX_WRITABLE_ACCOUNT_UNITS = 12000000"
definition MAX_VOTE_UNITS :: u64 where "MAX_VOTE_UNITS = 36000000"
definition MAX_BLOCK_ACCOUNTS_DATA_SIZE_DELTA :: u64 where "MAX_BLOCK_ACCOUNTS_DATA_SIZE_DELTA = 100000000"
definition simd_0286_block_limits :: u64 where "simd_0286_block_limits = MAX_BLOCK_UNITS_SIMD_0286"
definition DEFAULT_COMPUTE_UNITS :: u64 where "DEFAULT_COMPUTE_UNITS = 2100"
definition SIMPLE_VOTE_USAGE_COST :: u64 where "SIMPLE_VOTE_USAGE_COST = 3428"

lemmas cost_constants = COMPUTE_UNIT_TO_US_RATIO_def SIGNATURE_COST_def SECP256K1_VERIFY_COST_def ED25519_VERIFY_COST_def
  ED25519_VERIFY_STRICT_COST_def SECP256R1_VERIFY_COST_def WRITE_LOCK_UNITS_def INSTRUCTION_DATA_BYTES_COST_def
  MAX_BLOCK_UNITS_SIMD_0256_def MAX_BLOCK_UNITS_SIMD_0286_def MAX_BLOCK_UNITS_def MAX_WRITABLE_ACCOUNT_UNITS_def
  MAX_VOTE_UNITS_def MAX_BLOCK_ACCOUNTS_DATA_SIZE_DELTA_def DEFAULT_COMPUTE_UNITS_def SIMPLE_VOTE_USAGE_COST_def

text \<open>The constant assertion of \<open>TransactionCost::sum\<close>.\<close>

lemma simple_vote_usage_cost:
  "SIMPLE_VOTE_USAGE_COST = DEFAULT_COMPUTE_UNITS + SIGNATURE_COST + 2 * WRITE_LOCK_UNITS + 8"
  by (simp add: cost_constants)

section \<open>Transactions\<close>

record transaction_signature_details =
  tsd_transaction_signatures :: u64
  tsd_secp256k1_instruction_signatures :: u64
  tsd_ed25519_instruction_signatures :: u64
  tsd_secp256r1_instruction_signatures :: u64

record 'k cost_tx =
  is_simple_vote_transaction :: bool
  signature_details :: transaction_signature_details
  compute_budget_instruction_details :: budget_details
  instruction_data_len :: u16
  program_instructions :: "('k \<times> svm_instruction) list"
  num_write_locks :: u64
  account_keys :: "('k \<times> bool) list"

datatype system_instruction =
    CreateAccount u64
  | CreateAccountWithSeed u64
  | Allocate u64
  | AllocateWithSeed u64
  | CreateAccountAllowPrefund u64
  | Assign
  | Transfer
  | AdvanceNonceAccount
  | WithdrawNonceAccount
  | InitializeNonceAccount
  | AuthorizeNonceAccount
  | UpgradeNonceAccount
  | AssignWithSeed
  | TransferWithSeed

record 'k cost_env =
  budget :: "'k budget_env"
  ed25519_precompile_verify_strict :: 'k
  enable_secp256r1_precompile :: 'k
  create_account_allow_prefund :: 'k
  decode_system_instruction :: "u8 list \<Rightarrow> system_instruction option"
  memory_usage_cost :: "u32 \<Rightarrow> u64 \<Rightarrow> u64"
  max_permitted_data_length :: u64
  max_permitted_allocations :: u64

section \<open>Transaction costs\<close>

record 'k usage_cost_details =
  transaction :: "'k cost_tx"
  ucd_signature_cost :: u64
  ucd_write_lock_cost :: u64
  ucd_data_bytes_cost :: u16
  ucd_programs_execution_cost :: u64
  ucd_loaded_accounts_data_size_cost :: u64
  ucd_allocated_accounts_data_size :: u64

datatype 'k transaction_cost = SimpleVote "'k cost_tx" | Transaction "'k usage_cost_details"

definition usage_cost_sum :: "'k usage_cost_details \<Rightarrow> u64" where
  "usage_cost_sum u =
     saturating_add (saturating_add (saturating_add (saturating_add (ucd_signature_cost u) (ucd_write_lock_cost u))
       (ucast (ucd_data_bytes_cost u))) (ucd_programs_execution_cost u)) (ucd_loaded_accounts_data_size_cost u)"

fun cost_sum :: "'k transaction_cost \<Rightarrow> u64" where
  "cost_sum (SimpleVote _) = SIMPLE_VOTE_USAGE_COST"
| "cost_sum (Transaction u) = usage_cost_sum u"

fun programs_execution_cost :: "'k transaction_cost \<Rightarrow> u64" where
  "programs_execution_cost (SimpleVote _) = DEFAULT_COMPUTE_UNITS"
| "programs_execution_cost (Transaction u) = ucd_programs_execution_cost u"

fun is_simple_vote :: "'k transaction_cost \<Rightarrow> bool" where
  "is_simple_vote (SimpleVote _) = True"
| "is_simple_vote (Transaction _) = False"

fun data_bytes_cost :: "'k transaction_cost \<Rightarrow> u16" where
  "data_bytes_cost (SimpleVote _) = 0"
| "data_bytes_cost (Transaction u) = ucd_data_bytes_cost u"

fun allocated_accounts_data_size :: "'k transaction_cost \<Rightarrow> u64" where
  "allocated_accounts_data_size (SimpleVote _) = 0"
| "allocated_accounts_data_size (Transaction u) = ucd_allocated_accounts_data_size u"

fun loaded_accounts_data_size_cost :: "'k transaction_cost \<Rightarrow> u64" where
  "loaded_accounts_data_size_cost (SimpleVote _) = 8"
| "loaded_accounts_data_size_cost (Transaction u) = ucd_loaded_accounts_data_size_cost u"

fun signature_cost :: "'k transaction_cost \<Rightarrow> u64" where
  "signature_cost (SimpleVote _) = SIGNATURE_COST"
| "signature_cost (Transaction u) = ucd_signature_cost u"

fun write_lock_cost :: "'k transaction_cost \<Rightarrow> u64" where
  "write_lock_cost (SimpleVote _) = saturating_mul WRITE_LOCK_UNITS 2"
| "write_lock_cost (Transaction u) = ucd_write_lock_cost u"

fun cost_transaction :: "'k transaction_cost \<Rightarrow> 'k cost_tx" where
  "cost_transaction (SimpleVote tx) = tx"
| "cost_transaction (Transaction u) = transaction u"

definition writable_accounts :: "'k transaction_cost \<Rightarrow> 'k list" where
  "writable_accounts c = map fst (filter snd (account_keys (cost_transaction c)))"

fun num_transaction_signatures :: "'k transaction_cost \<Rightarrow> u64" where
  "num_transaction_signatures (SimpleVote _) = 1"
| "num_transaction_signatures (Transaction u) = tsd_transaction_signatures (signature_details (transaction u))"

fun cost_secp256k1_signatures :: "'k transaction_cost \<Rightarrow> u64" where
  "cost_secp256k1_signatures (SimpleVote _) = 0"
| "cost_secp256k1_signatures (Transaction u) = tsd_secp256k1_instruction_signatures (signature_details (transaction u))"

fun cost_ed25519_signatures :: "'k transaction_cost \<Rightarrow> u64" where
  "cost_ed25519_signatures (SimpleVote _) = 0"
| "cost_ed25519_signatures (Transaction u) = tsd_ed25519_instruction_signatures (signature_details (transaction u))"

fun cost_secp256r1_signatures :: "'k transaction_cost \<Rightarrow> u64" where
  "cost_secp256r1_signatures (SimpleVote _) = 0"
| "cost_secp256r1_signatures (Transaction u) = tsd_secp256r1_instruction_signatures (signature_details (transaction u))"

section \<open>The cost model\<close>

definition get_signature_cost :: "'k cost_env \<Rightarrow> ('k \<Rightarrow> bool) \<Rightarrow> 'k cost_tx \<Rightarrow> u64" where
  "get_signature_cost env active tx =
     (let d = signature_details tx;
          ed25519_verify_cost =
            (if active (ed25519_precompile_verify_strict env) then ED25519_VERIFY_STRICT_COST else ED25519_VERIFY_COST);
          secp256r1_verify_cost = (if active (enable_secp256r1_precompile env) then SECP256R1_VERIFY_COST else 0)
      in saturating_add
           (saturating_add
             (saturating_add
               (saturating_mul (tsd_transaction_signatures d) SIGNATURE_COST)
               (saturating_mul (tsd_secp256k1_instruction_signatures d) SECP256K1_VERIFY_COST))
             (saturating_mul (tsd_ed25519_instruction_signatures d) ed25519_verify_cost))
           (saturating_mul (tsd_secp256r1_instruction_signatures d) secp256r1_verify_cost))"

definition get_write_lock_cost :: "u64 \<Rightarrow> u64" where
  "get_write_lock_cost n = saturating_mul WRITE_LOCK_UNITS n"

definition calculate_loaded_accounts_data_size_cost :: "'k cost_env \<Rightarrow> u32 \<Rightarrow> u64" where
  "calculate_loaded_accounts_data_size_cost env n = memory_usage_cost env n DEFAULT_HEAP_COST"

definition get_estimated_execution_cost :: "'k cost_env \<Rightarrow> ('k \<Rightarrow> bool) \<Rightarrow> 'k cost_tx \<Rightarrow> (u64 \<times> u64) option" where
  "get_estimated_execution_cost env active tx = do {
     r \<leftarrow> sanitize_and_convert_to_compute_budget_limits (budget env) active (compute_budget_instruction_details tx);
     Some (case r of
       Inr limits \<Rightarrow> (ucast (compute_unit_limit limits),
                      calculate_loaded_accounts_data_size_cost env (loaded_accounts_bytes limits))
     | Inl _ \<Rightarrow> (0, 0))
   }"

definition get_instructions_data_cost :: "'k cost_tx \<Rightarrow> u16" where
  "get_instructions_data_cost tx = instruction_data_len tx div ucast INSTRUCTION_DATA_BYTES_COST"

datatype system_program_account_allocation = Alloc_None | Alloc_Some u64 | Alloc_Failed

definition validate_space :: "'k cost_env \<Rightarrow> u64 \<Rightarrow> system_program_account_allocation" where
  "validate_space env space = (if space > max_permitted_data_length env then Alloc_Failed else Alloc_Some space)"

definition calculate_account_data_size_on_deserialized_system_instruction ::
  "'k cost_env \<Rightarrow> ('k \<Rightarrow> bool) \<Rightarrow> system_instruction \<Rightarrow> system_program_account_allocation" where
  "calculate_account_data_size_on_deserialized_system_instruction env active instruction =
     (case instruction of
        CreateAccount space \<Rightarrow> validate_space env space
      | CreateAccountWithSeed space \<Rightarrow> validate_space env space
      | Allocate space \<Rightarrow> validate_space env space
      | AllocateWithSeed space \<Rightarrow> validate_space env space
      | CreateAccountAllowPrefund space \<Rightarrow>
          if \<not> active (create_account_allow_prefund env) then Alloc_Failed else validate_space env space
      | _ \<Rightarrow> Alloc_None)"

definition calculate_account_data_size_on_instruction ::
  "'k cost_env \<Rightarrow> ('k \<Rightarrow> bool) \<Rightarrow> 'k \<Rightarrow> svm_instruction \<Rightarrow> system_program_account_allocation" where
  "calculate_account_data_size_on_instruction env active program_id instruction =
     (if program_id = system_program_id (ids (budget env))
      then (case decode_system_instruction env (instruction_data instruction) of
              Some i \<Rightarrow> calculate_account_data_size_on_deserialized_system_instruction env active i
            | None \<Rightarrow> Alloc_Failed)
      else Alloc_None)"

text \<open>The loop over the instructions; \<^const>\<open>None\<close> is the early return of 0.\<close>

fun attempted_allocation ::
  "'k cost_env \<Rightarrow> ('k \<Rightarrow> bool) \<Rightarrow> ('k \<times> svm_instruction) list \<Rightarrow> u64 \<Rightarrow> u64 option" where
  "attempted_allocation env active [] sz = Some sz"
| "attempted_allocation env active ((program_id, instruction) # rest) sz =
     (case calculate_account_data_size_on_instruction env active program_id instruction of
        Alloc_Failed \<Rightarrow> None
      | Alloc_None \<Rightarrow> attempted_allocation env active rest sz
      | Alloc_Some n \<Rightarrow> attempted_allocation env active rest (saturating_add sz n))"

definition calculate_allocated_accounts_data_size ::
  "'k cost_env \<Rightarrow> ('k \<Rightarrow> bool) \<Rightarrow> ('k \<times> svm_instruction) list \<Rightarrow> u64" where
  "calculate_allocated_accounts_data_size env active instructions =
     (case attempted_allocation env active instructions 0 of
        None \<Rightarrow> 0
      | Some sz \<Rightarrow> min (max_permitted_allocations env) sz)"

definition calculate_non_vote_transaction_cost ::
  "'k cost_env \<Rightarrow> ('k \<Rightarrow> bool) \<Rightarrow> 'k cost_tx \<Rightarrow> ('k \<times> svm_instruction) list \<Rightarrow> u64 \<Rightarrow> u64 \<Rightarrow> u64 \<Rightarrow> u16 \<Rightarrow>
    'k transaction_cost" where
  "calculate_non_vote_transaction_cost env active tx instructions write_locks execution_cost loaded_cost data_cost =
     Transaction
       \<lparr>transaction = tx, ucd_signature_cost = get_signature_cost env active tx,
        ucd_write_lock_cost = get_write_lock_cost write_locks, ucd_data_bytes_cost = data_cost,
        ucd_programs_execution_cost = execution_cost, ucd_loaded_accounts_data_size_cost = loaded_cost,
        ucd_allocated_accounts_data_size = calculate_allocated_accounts_data_size env active instructions\<rparr>"

definition estimate_cost ::
  "'k cost_env \<Rightarrow> ('k \<Rightarrow> bool) \<Rightarrow> 'k cost_tx \<Rightarrow> ('k \<times> svm_instruction) list \<Rightarrow> u64 \<Rightarrow> 'k transaction_cost option" where
  "estimate_cost env active tx instructions write_locks =
     (if is_simple_vote_transaction tx then Some (SimpleVote tx)
      else do {
        (execution_cost, loaded_cost) \<leftarrow> get_estimated_execution_cost env active tx;
        Some (calculate_non_vote_transaction_cost env active tx instructions write_locks execution_cost loaded_cost
          (get_instructions_data_cost tx))
      })"

definition calculate_cost :: "'k cost_env \<Rightarrow> ('k \<Rightarrow> bool) \<Rightarrow> 'k cost_tx \<Rightarrow> 'k transaction_cost option" where
  "calculate_cost env active tx =
     (if is_simple_vote_transaction tx then Some (SimpleVote tx)
      else do {
        (execution_cost, loaded_cost) \<leftarrow> get_estimated_execution_cost env active tx;
        Some (calculate_non_vote_transaction_cost env active tx (program_instructions tx) (num_write_locks tx)
          execution_cost loaded_cost (get_instructions_data_cost tx))
      })"

definition calculate_cost_for_executed_transaction ::
  "'k cost_env \<Rightarrow> ('k \<Rightarrow> bool) \<Rightarrow> 'k cost_tx \<Rightarrow> u64 \<Rightarrow> u32 \<Rightarrow> 'k transaction_cost" where
  "calculate_cost_for_executed_transaction env active tx actual_execution_cost actual_loaded_bytes =
     (if is_simple_vote_transaction tx then SimpleVote tx
      else calculate_non_vote_transaction_cost env active tx (program_instructions tx) (num_write_locks tx)
        actual_execution_cost (calculate_loaded_accounts_data_size_cost env actual_loaded_bytes)
        (get_instructions_data_cost tx))"

section \<open>Sums and allocations as natural numbers\<close>

lemma unat_min: "unat (min a b) = min (unat a) (unat (b :: 'a::len word))"
  by (simp add: min_def word_le_nat_alt)

lemma unat_usage_cost_sum:
  "unat (usage_cost_sum u) = min (2 ^ 64 - 1) (unat (ucd_signature_cost u) + unat (ucd_write_lock_cost u) +
     unat (ucd_data_bytes_cost u) + unat (ucd_programs_execution_cost u) + unat (ucd_loaded_accounts_data_size_cost u))"
  by (simp add: usage_cost_sum_def unat_saturating_add unat_ucast_up)

text \<open>A sum that does not reach the maximum is at least the estimated execution and loading cost.\<close>

lemma cost_sum_parts:
  assumes "cost_sum c \<noteq> - 1"
  shows "unat (programs_execution_cost c) + unat (loaded_accounts_data_size_cost c) \<le> unat (cost_sum c)"
proof (cases c)
  case (SimpleVote tx)
  then show ?thesis by (simp add: cost_constants)
next
  case (Transaction u)
  have "unat (cost_sum c) \<noteq> 2 ^ 64 - 1" using assms by (simp add: word_unat_eq_iff unat_max_word)
  with Transaction show ?thesis by (simp add: unat_usage_cost_sum)
qed

text \<open>The space that an instruction asks the system program for, where it does not fail.\<close>

definition space_asked :: "'k cost_env \<Rightarrow> ('k \<Rightarrow> bool) \<Rightarrow> 'k \<times> svm_instruction \<Rightarrow> nat" where
  "space_asked env active = (\<lambda>(p, i). case calculate_account_data_size_on_instruction env active p i of
     Alloc_Some n \<Rightarrow> unat n | _ \<Rightarrow> 0)"

definition allocation_fails :: "'k cost_env \<Rightarrow> ('k \<Rightarrow> bool) \<Rightarrow> 'k \<times> svm_instruction \<Rightarrow> bool" where
  "allocation_fails env active = (\<lambda>(p, i). calculate_account_data_size_on_instruction env active p i = Alloc_Failed)"

lemma attempted_allocation_ok:
  "map_option unat (attempted_allocation env active is sz) =
     (if \<exists>i \<in> set is. allocation_fails env active i then None
      else Some (min (2 ^ 64 - 1) (unat sz + sum_list (map (space_asked env active) is))))"
proof (induction "is" arbitrary: sz)
  case Nil
  have "unat sz \<le> 2 ^ 64 - 1" using unat_bound [of sz] by simp
  then show ?case by simp
next
  case (Cons a rest)
  obtain p i where a: "a = (p, i)" by (cases a)
  show ?case
  proof (cases "calculate_account_data_size_on_instruction env active p i")
    case (Alloc_Some n)
    have "min (2 ^ 64 - 1) (unat (saturating_add sz n) + k) = min (2 ^ 64 - 1) (unat sz + (unat n + k))" for k
      by (auto simp: unat_saturating_add min_def)
    with Alloc_Some Cons.IH [of "saturating_add sz n"] a show ?thesis by (simp add: allocation_fails_def space_asked_def)
  qed (use Cons.IH [of sz] a in \<open>simp_all add: allocation_fails_def space_asked_def\<close>)
qed

lemma allocated_size_ok:
  "unat (calculate_allocated_accounts_data_size env active is) =
     (if \<exists>i \<in> set is. allocation_fails env active i then 0
      else min (unat (max_permitted_allocations env)) (sum_list (map (space_asked env active) is)))"
proof -
  have m: "unat (max_permitted_allocations env) \<le> 2 ^ 64 - 1" using unat_bound [of "max_permitted_allocations env"] by simp
  show ?thesis
    using attempted_allocation_ok [of env active "is" 0] m
    by (auto simp: calculate_allocated_accounts_data_size_def unat_min split: option.splits if_splits)
qed

section \<open>The estimate bounds the actual cost\<close>

lemma executed_cost_le:
  assumes limits: "sanitize_and_convert_to_compute_budget_limits (budget env) active (compute_budget_instruction_details tx) =
      Some (Inr limits)"
    and units: "unat units \<le> unat (compute_unit_limit limits)" and bytes: "bytes \<le> loaded_accounts_bytes limits"
    and mono: "\<And>a b. a \<le> b \<Longrightarrow> memory_usage_cost env a DEFAULT_HEAP_COST \<le> memory_usage_cost env b DEFAULT_HEAP_COST"
  shows "\<exists>c. calculate_cost env active tx = Some c \<and>
    cost_sum (calculate_cost_for_executed_transaction env active tx units bytes) \<le> cost_sum c"
proof (cases "is_simple_vote_transaction tx")
  case True
  then show ?thesis by (simp add: calculate_cost_def calculate_cost_for_executed_transaction_def)
next
  case False
  have "unat (memory_usage_cost env bytes DEFAULT_HEAP_COST) \<le> unat (memory_usage_cost env (loaded_accounts_bytes limits) DEFAULT_HEAP_COST)"
    using mono [OF bytes] by (simp add: word_le_nat_alt)
  with False limits units show ?thesis
    by (auto simp: calculate_cost_def calculate_cost_for_executed_transaction_def get_estimated_execution_cost_def
        calculate_non_vote_transaction_cost_def calculate_loaded_accounts_data_size_cost_def word_le_nat_alt
        unat_usage_cost_sum unat_ucast_up)
qed

end
