(* ===== verification/Cost_Tracker.thy ===== *)
theory Cost_Tracker
  imports Cost_Model
begin

text \<open>
  The costs of a block under construction: \<^verbatim>\<open>cost-model/src/cost_tracker.rs\<close>. The hash map
  of account costs is a \<open>btree_map\<close>; the shared block cost is an atomic, so its sums wrap around,
  while every other sum saturates.
\<close>

section \<open>The tracker\<close>

datatype cost_tracker_error =
    WouldExceedBlockMaxLimit
  | WouldExceedVoteMaxLimit
  | WouldExceedAccountMaxLimit
  | WouldExceedAccountDataBlockLimit_CT
  | WouldExceedAccountDataTotalLimit_CT

fun to_transaction_error :: "cost_tracker_error \<Rightarrow> transaction_error" where
  "to_transaction_error WouldExceedBlockMaxLimit = WouldExceedMaxBlockCostLimit"
| "to_transaction_error WouldExceedVoteMaxLimit = WouldExceedMaxVoteCostLimit"
| "to_transaction_error WouldExceedAccountMaxLimit = WouldExceedMaxAccountCostLimit"
| "to_transaction_error WouldExceedAccountDataBlockLimit_CT = WouldExceedAccountDataBlockLimit"
| "to_transaction_error WouldExceedAccountDataTotalLimit_CT = WouldExceedAccountDataTotalLimit"

record updated_costs =
  updated_block_cost :: u64
  updated_costliest_account_cost :: u64

record 'k cost_tracker =
  account_cost_limit :: u64
  block_cost_limit :: u64
  vote_cost_limit :: u64
  cost_by_writable_accounts :: "('k, u64) btree_map"
  block_cost :: u64
  vote_cost :: u64
  transaction_count :: u64
  ct_allocated_accounts_data_size :: u64
  transaction_signature_count :: u64
  secp256k1_instruction_signature_count :: u64
  ed25519_instruction_signature_count :: u64
  in_flight_transaction_count :: usize
  secp256r1_instruction_signature_count :: u64

definition tracker_default :: "'k cost_tracker" where
  "tracker_default =
     \<lparr>account_cost_limit = MAX_WRITABLE_ACCOUNT_UNITS, block_cost_limit = MAX_BLOCK_UNITS,
      vote_cost_limit = MAX_VOTE_UNITS, cost_by_writable_accounts = [], block_cost = 0, vote_cost = 0,
      transaction_count = 0, ct_allocated_accounts_data_size = 0, transaction_signature_count = 0,
      secp256k1_instruction_signature_count = 0, ed25519_instruction_signature_count = 0,
      in_flight_transaction_count = 0, secp256r1_instruction_signature_count = 0\<rparr>"

definition set_limits :: "u64 \<Rightarrow> u64 \<Rightarrow> u64 \<Rightarrow> 'k cost_tracker \<Rightarrow> 'k cost_tracker" where
  "set_limits account_limit block_limit vote_limit self =
     self\<lparr>account_cost_limit := account_limit, block_cost_limit := block_limit, vote_cost_limit := vote_limit\<rparr>"

definition new_from_parent_limits :: "'k cost_tracker \<Rightarrow> 'k cost_tracker" where
  "new_from_parent_limits self =
     set_limits (account_cost_limit self) (block_cost_limit self) (vote_cost_limit self) tracker_default"

definition add_transactions_in_flight :: "usize \<Rightarrow> 'k cost_tracker \<Rightarrow> 'k cost_tracker" where
  "add_transactions_in_flight n self =
     self\<lparr>in_flight_transaction_count := saturating_add (in_flight_transaction_count self) n\<rparr>"

definition sub_transactions_in_flight :: "usize \<Rightarrow> 'k cost_tracker \<Rightarrow> 'k cost_tracker" where
  "sub_transactions_in_flight n self =
     self\<lparr>in_flight_transaction_count := saturating_sub (in_flight_transaction_count self) n\<rparr>"

section \<open>Adding and removing costs\<close>

text \<open>\<open>entry(key).or_insert(0)\<close>\<close>

definition account_cost :: "('k::linorder, u64) btree_map \<Rightarrow> 'k \<Rightarrow> u64" where
  "account_cost m k = (case btm_get k m of None \<Rightarrow> 0 | Some c \<Rightarrow> c)"

definition charge_account :: "u64 \<Rightarrow> 'k::linorder \<Rightarrow> ('k, u64) btree_map \<times> u64 \<Rightarrow> ('k, u64) btree_map \<times> u64" where
  "charge_account adjustment key = (\<lambda>(m, costliest).
     let c = saturating_add (account_cost m key) adjustment in (btm_put key c m, max costliest c))"

definition add_transaction_execution_cost ::
  "'k::linorder transaction_cost \<Rightarrow> u64 \<Rightarrow> 'k cost_tracker \<Rightarrow> u64 \<times> 'k cost_tracker" where
  "add_transaction_execution_cost tx_cost adjustment self =
     (case fold (charge_account adjustment) (writable_accounts tx_cost) (cost_by_writable_accounts self, 0) of
        (m, costliest) \<Rightarrow>
          (costliest, self\<lparr>cost_by_writable_accounts := m, block_cost := block_cost self + adjustment,
             vote_cost := (if is_simple_vote tx_cost then saturating_add (vote_cost self) adjustment else vote_cost self)\<rparr>))"

definition sub_transaction_execution_cost ::
  "'k::linorder transaction_cost \<Rightarrow> u64 \<Rightarrow> 'k cost_tracker \<Rightarrow> 'k cost_tracker" where
  "sub_transaction_execution_cost tx_cost adjustment self =
     self\<lparr>cost_by_writable_accounts :=
            fold (\<lambda>key m. btm_put key (saturating_sub (account_cost m key) adjustment) m)
              (writable_accounts tx_cost) (cost_by_writable_accounts self),
          block_cost := block_cost self - adjustment,
          vote_cost := (if is_simple_vote tx_cost then saturating_sub (vote_cost self) adjustment else vote_cost self)\<rparr>"

definition add_transaction_cost ::
  "'k::linorder transaction_cost \<Rightarrow> 'k cost_tracker \<Rightarrow> u64 \<times> 'k cost_tracker" where
  "add_transaction_cost tx_cost self =
     add_transaction_execution_cost tx_cost (cost_sum tx_cost)
       (self\<lparr>ct_allocated_accounts_data_size :=
               saturating_add (ct_allocated_accounts_data_size self) (allocated_accounts_data_size tx_cost),
             transaction_count := saturating_add (transaction_count self) 1,
             transaction_signature_count :=
               saturating_add (transaction_signature_count self) (num_transaction_signatures tx_cost),
             secp256k1_instruction_signature_count :=
               saturating_add (secp256k1_instruction_signature_count self) (cost_secp256k1_signatures tx_cost),
             ed25519_instruction_signature_count :=
               saturating_add (ed25519_instruction_signature_count self) (cost_ed25519_signatures tx_cost),
             secp256r1_instruction_signature_count :=
               saturating_add (secp256r1_instruction_signature_count self) (cost_secp256r1_signatures tx_cost)\<rparr>)"

definition remove_transaction_cost ::
  "'k::linorder transaction_cost \<Rightarrow> 'k cost_tracker \<Rightarrow> 'k cost_tracker" where
  "remove_transaction_cost tx_cost self =
     (let self = sub_transaction_execution_cost tx_cost (cost_sum tx_cost) self in
      self\<lparr>ct_allocated_accounts_data_size :=
             saturating_sub (ct_allocated_accounts_data_size self) (allocated_accounts_data_size tx_cost),
           transaction_count := saturating_sub (transaction_count self) 1,
           transaction_signature_count :=
             saturating_sub (transaction_signature_count self) (num_transaction_signatures tx_cost),
           secp256k1_instruction_signature_count :=
             saturating_sub (secp256k1_instruction_signature_count self) (cost_secp256k1_signatures tx_cost),
           ed25519_instruction_signature_count :=
             saturating_sub (ed25519_instruction_signature_count self) (cost_ed25519_signatures tx_cost),
           secp256r1_instruction_signature_count :=
             saturating_sub (secp256r1_instruction_signature_count self) (cost_secp256r1_signatures tx_cost)\<rparr>)"

definition tracker_remove :: "'k::linorder transaction_cost \<Rightarrow> 'k cost_tracker \<Rightarrow> 'k cost_tracker" where
  "tracker_remove tx_cost self = remove_transaction_cost tx_cost self"

section \<open>Admission\<close>

text \<open>The loop over the writable accounts: whether each stays within the limit.\<close>

fun accounts_fit :: "u64 \<Rightarrow> u64 \<Rightarrow> ('k::linorder, u64) btree_map \<Rightarrow> 'k list \<Rightarrow> bool" where
  "accounts_fit cost limit m [] = True"
| "accounts_fit cost limit m (key # keys) =
     (case btm_get key m of
        Some chained_cost \<Rightarrow> if saturating_add chained_cost cost > limit then False else accounts_fit cost limit m keys
      | None \<Rightarrow> accounts_fit cost limit m keys)"

definition would_fit :: "'k::linorder transaction_cost \<Rightarrow> 'k cost_tracker \<Rightarrow> cost_tracker_error + unit" where
  "would_fit tx_cost self =
     (let cost = cost_sum tx_cost in
      if is_simple_vote tx_cost \<and> saturating_add (vote_cost self) cost > vote_cost_limit self
      then Inl WouldExceedVoteMaxLimit
      else if saturating_add (block_cost self) cost > block_cost_limit self then Inl WouldExceedBlockMaxLimit
      else if cost > account_cost_limit self then Inl WouldExceedAccountMaxLimit
      else if saturating_add (ct_allocated_accounts_data_size self) (allocated_accounts_data_size tx_cost)
                > MAX_BLOCK_ACCOUNTS_DATA_SIZE_DELTA
      then Inl WouldExceedAccountDataBlockLimit_CT
      else if \<not> accounts_fit cost (account_cost_limit self) (cost_by_writable_accounts self) (writable_accounts tx_cost)
      then Inl WouldExceedAccountMaxLimit
      else Inr ())"

definition try_add ::
  "'k::linorder transaction_cost \<Rightarrow> 'k cost_tracker \<Rightarrow> cost_tracker_error + updated_costs \<times> 'k cost_tracker" where
  "try_add tx_cost self =
     (case would_fit tx_cost self of
        Inl e \<Rightarrow> Inl e
      | Inr _ \<Rightarrow>
          (case add_transaction_cost tx_cost self of
             (costliest, self) \<Rightarrow>
               Inr (\<lparr>updated_block_cost = block_cost self, updated_costliest_account_cost = costliest\<rparr>, self)))"

definition update_execution_cost ::
  "'k::linorder transaction_cost \<Rightarrow> u64 \<Rightarrow> u64 \<Rightarrow> 'k cost_tracker \<Rightarrow> 'k cost_tracker" where
  "update_execution_cost estimated actual_execution_units actual_loaded_accounts_data_size_cost self =
     (let actual = saturating_add actual_execution_units actual_loaded_accounts_data_size_cost;
          estimate = saturating_add (programs_execution_cost estimated) (loaded_accounts_data_size_cost estimated)
      in if actual = estimate then self
         else if actual > estimate then snd (add_transaction_execution_cost estimated (actual - estimate) self)
         else sub_transaction_execution_cost estimated (estimate - actual) self)"

definition find_number_of_contended_accounts :: "'k cost_tracker \<Rightarrow> nat" where
  "find_number_of_contended_accounts self =
     (let mark = saturating_mul (account_cost_limit self) 95 div 100
      in length (filter (\<lambda>(_, c). c \<ge> mark) (cost_by_writable_accounts self)))"

definition number_of_accounts :: "'k cost_tracker \<Rightarrow> nat" where
  "number_of_accounts self = length (filter (\<lambda>(_, c). c > 0) (cost_by_writable_accounts self))"

section \<open>The ledger of charges\<close>

text \<open>
  What the tracker stands for: the transactions that were admitted, each with the units it is charged
  at present and whether its actual cost is still awaited.
\<close>

record 'k charge =
  charged_tx :: "'k transaction_cost"
  units :: nat
  awaited :: bool

type_synonym 'k ledger = "'k charge list"

definition charged :: "('k transaction_cost \<Rightarrow> bool) \<Rightarrow> 'k ledger \<Rightarrow> nat" where
  "charged P L = sum_list (map (\<lambda>e. if P (charged_tx e) then units e else 0) L)"

definition total_of :: "('k transaction_cost \<Rightarrow> u64) \<Rightarrow> 'k ledger \<Rightarrow> nat" where
  "total_of f L = sum_list (map (\<lambda>e. unat (f (charged_tx e))) L)"

definition writes :: "'k \<Rightarrow> 'k transaction_cost \<Rightarrow> bool" where
  "writes k c \<longleftrightarrow> k \<in> set (writable_accounts c)"

lemma charged_simps [simp]:
  "charged P [] = 0"
  "charged P (e # L) = (if P (charged_tx e) then units e else 0) + charged P L"
  "charged P (L @ M) = charged P L + charged P M"
  by (simp_all add: charged_def)

lemma total_of_simps [simp]:
  "total_of f [] = 0"
  "total_of f (e # L) = unat (f (charged_tx e)) + total_of f L"
  "total_of f (L @ M) = total_of f L + total_of f M"
  by (simp_all add: total_of_def)

lemma charged_mono: "(\<And>c. P c \<Longrightarrow> Q c) \<Longrightarrow> charged P L \<le> charged Q L"
  by (induction L) (auto simp: add_le_mono)

text \<open>The tracker agrees with the ledger.\<close>

definition costs_track :: "'k::linorder cost_tracker \<Rightarrow> 'k ledger \<Rightarrow> bool" where
  "costs_track t L \<longleftrightarrow>
     unat (block_cost t) = charged (\<lambda>_. True) L \<and> unat (vote_cost t) = charged is_simple_vote L \<and>
     (\<forall>k. unat (account_cost (cost_by_writable_accounts t) k) = charged (writes k) L)"

definition stats_track :: "'k cost_tracker \<Rightarrow> 'k ledger \<Rightarrow> bool" where
  "stats_track t L \<longleftrightarrow>
     unat (ct_allocated_accounts_data_size t) = total_of allocated_accounts_data_size L \<and>
     unat (transaction_count t) = length L \<and>
     unat (transaction_signature_count t) = total_of num_transaction_signatures L \<and>
     unat (secp256k1_instruction_signature_count t) = total_of cost_secp256k1_signatures L \<and>
     unat (ed25519_instruction_signature_count t) = total_of cost_ed25519_signatures L \<and>
     unat (secp256r1_instruction_signature_count t) = total_of cost_secp256r1_signatures L"

definition tracks :: "'k::linorder cost_tracker \<Rightarrow> 'k ledger \<Rightarrow> bool" where
  "tracks t L \<longleftrightarrow> costs_track t L \<and> stats_track t L"

lemma costs_trackD:
  assumes "costs_track t L"
  shows "unat (block_cost t) = charged (\<lambda>_. True) L" "unat (vote_cost t) = charged is_simple_vote L"
    "\<And>k. unat (account_cost (cost_by_writable_accounts t) k) = charged (writes k) L"
  using assms by (auto simp: costs_track_def)

lemma costs_trackI:
  "unat (block_cost t) = charged (\<lambda>_. True) L \<Longrightarrow> unat (vote_cost t) = charged is_simple_vote L \<Longrightarrow>
    (\<And>k. unat (account_cost (cost_by_writable_accounts t) k) = charged (writes k) L) \<Longrightarrow> costs_track t L"
  by (simp add: costs_track_def)

text \<open>The limits are respected.\<close>

definition within_limits :: "'k::linorder cost_tracker \<Rightarrow> bool" where
  "within_limits t \<longleftrightarrow> block_cost t \<le> block_cost_limit t \<and> vote_cost t \<le> vote_cost_limit t \<and>
     (\<forall>k. account_cost (cost_by_writable_accounts t) k \<le> account_cost_limit t) \<and>
     ct_allocated_accounts_data_size t \<le> MAX_BLOCK_ACCOUNTS_DATA_SIZE_DELTA"

text \<open>No limit is the greatest 64-bit number, which saturated sums could not exceed.\<close>

definition limits_ok :: "'k cost_tracker \<Rightarrow> bool" where
  "limits_ok t \<longleftrightarrow> account_cost_limit t \<noteq> - 1 \<and> block_cost_limit t \<noteq> - 1 \<and> vote_cost_limit t \<noteq> - 1"

text \<open>The statistics of the ledger with one more transaction fit into 64 bits.\<close>

definition counters_fit :: "'k transaction_cost \<Rightarrow> 'k ledger \<Rightarrow> bool" where
  "counters_fit c L \<longleftrightarrow> length L + 1 < 2 ^ 64 \<and>
     total_of num_transaction_signatures L + unat (num_transaction_signatures c) < 2 ^ 64 \<and>
     total_of cost_secp256k1_signatures L + unat (cost_secp256k1_signatures c) < 2 ^ 64 \<and>
     total_of cost_ed25519_signatures L + unat (cost_ed25519_signatures c) < 2 ^ 64 \<and>
     total_of cost_secp256r1_signatures L + unat (cost_secp256r1_signatures c) < 2 ^ 64"

section \<open>Effect of the loops\<close>

lemma account_cost_put: "account_cost (btm_put k c m) j = (if j = k then c else account_cost m j)"
  by (simp add: account_cost_def btm_get_put)

lemma charge_accounts:
  "distinct ks \<Longrightarrow> account_cost (fst (fold (charge_account a) ks (m, c))) k =
     (if k \<in> set ks then saturating_add (account_cost m k) a else account_cost m k)"
  by (induction ks arbitrary: m c) (auto simp: charge_account_def Let_def account_cost_put)

lemma refund_accounts:
  "distinct ks \<Longrightarrow> account_cost (fold (\<lambda>key m. btm_put key (saturating_sub (account_cost m key) a) m) ks m) k =
     (if k \<in> set ks then saturating_sub (account_cost m k) a else account_cost m k)"
  by (induction ks arbitrary: m) (auto simp: account_cost_put)

lemma accounts_fit_iff:
  assumes "limit \<noteq> - 1" "cost \<le> limit"
  shows "accounts_fit cost limit m ks \<longleftrightarrow> (\<forall>k \<in> set ks. unat (account_cost m k) + unat cost \<le> unat limit)"
proof -
  have "unat limit \<noteq> 2 ^ 64 - 1" using assms(1) by (simp add: word_unat_eq_iff unat_max_word)
  then have l: "unat limit < 2 ^ 64 - 1" using unat_bound [of limit] by simp
  show ?thesis using assms(2) l
    by (induction ks) (auto simp: account_cost_def word_le_nat_alt word_less_nat_alt unat_saturating_add split: option.splits)
qed

section \<open>Each operation on the ledger\<close>

lemma saturated_exceeds:
  assumes "limit \<noteq> (- 1 :: u64)"
  shows "saturating_add a b > limit \<longleftrightarrow> unat a + unat b > unat limit"
proof -
  have "unat limit \<noteq> 2 ^ 64 - 1" using assms by (simp add: word_unat_eq_iff unat_max_word)
  then have "unat limit < 2 ^ 64 - 1" using unat_bound [of limit] by simp
  then show ?thesis by (simp add: word_less_nat_alt unat_saturating_add)
qed

lemma would_fit_ok:
  assumes t: "tracks t L" and l: "limits_ok t"
  shows "would_fit c t =
    (let n = unat (cost_sum c) in
     if is_simple_vote c \<and> charged is_simple_vote L + n > unat (vote_cost_limit t) then Inl WouldExceedVoteMaxLimit
     else if charged (\<lambda>_. True) L + n > unat (block_cost_limit t) then Inl WouldExceedBlockMaxLimit
     else if n > unat (account_cost_limit t) then Inl WouldExceedAccountMaxLimit
     else if total_of allocated_accounts_data_size L + unat (allocated_accounts_data_size c) > 100000000
     then Inl WouldExceedAccountDataBlockLimit_CT
     else if \<exists>k. writes k c \<and> charged (writes k) L + n > unat (account_cost_limit t) then Inl WouldExceedAccountMaxLimit
     else Inr ())"
proof -
  have lim: "account_cost_limit t \<noteq> - 1" "block_cost_limit t \<noteq> - 1" "vote_cost_limit t \<noteq> - 1"
    "MAX_BLOCK_ACCOUNTS_DATA_SIZE_DELTA \<noteq> - 1"
    using l by (auto simp: limits_ok_def cost_constants)
  have d: "unat MAX_BLOCK_ACCOUNTS_DATA_SIZE_DELTA = 100000000" by (simp add: cost_constants)
  have c: "costs_track t L" and a: "unat (ct_allocated_accounts_data_size t) = total_of allocated_accounts_data_size L"
    using t by (auto simp: tracks_def stats_track_def)
  have fit: "accounts_fit (cost_sum c) (account_cost_limit t) (cost_by_writable_accounts t) (writable_accounts c) \<longleftrightarrow>
      \<not> (\<exists>k. writes k c \<and> charged (writes k) L + unat (cost_sum c) > unat (account_cost_limit t))"
    if "\<not> unat (cost_sum c) > unat (account_cost_limit t)"
  proof -
    have "cost_sum c \<le> account_cost_limit t" using that by (simp add: word_le_nat_alt)
    from accounts_fit_iff [OF lim(1) this, of "cost_by_writable_accounts t" "writable_accounts c"]
    show ?thesis by (simp add: costs_trackD(3) [OF c] writes_def Ball_def not_less)
  qed
  note exceeds = lim [THEN saturated_exceeds] and eqs = d a word_less_nat_alt costs_trackD(1,2) [OF c]
  show ?thesis
  proof (cases "unat (cost_sum c) > unat (account_cost_limit t)")
    case True
    show ?thesis unfolding would_fit_def Let_def exceeds unfolding eqs if_P [OF True] by (rule refl)
  next
    case False
    show ?thesis unfolding would_fit_def Let_def exceeds unfolding eqs fit [OF False] not_not by (rule refl)
  qed
qed

lemma unat_add_exact: "unat a + unat b < 2 ^ LENGTH('a) \<Longrightarrow> unat (saturating_add a b) = unat a + unat (b :: 'a::len word)"
  by (simp add: unat_saturating_add)

lemma counted: "unat x = n \<Longrightarrow> n + unat y < 2 ^ 64 \<Longrightarrow> unat (saturating_add x y) = unat (y :: u64) + n"
  by (simp add: unat_saturating_add)

text \<open>\<open>L'\<close> charges \<open>a\<close> units more than \<open>L\<close> for \<open>c\<close>.\<close>

definition recharged :: "'k transaction_cost \<Rightarrow> nat \<Rightarrow> 'k ledger \<Rightarrow> 'k ledger \<Rightarrow> bool" where
  "recharged c a L L' \<longleftrightarrow> (\<forall>P. charged P L' = charged P L + (if P c then a else 0))"

lemma recharged_bound: "recharged c a L L' \<Longrightarrow> charged (\<lambda>_. True) L' < n \<Longrightarrow> P c \<Longrightarrow> charged P L + a < n"
proof -
  assume r: "recharged c a L L'" and n: "charged (\<lambda>_. True) L' < n" and "P c"
  then have "charged P L' = charged P L + a" by (simp add: recharged_def)
  moreover have "charged P L' \<le> charged (\<lambda>_. True) L'" by (rule charged_mono) simp
  ultimately show ?thesis using n by linarith
qed

lemma add_execution_cost_ok:
  assumes t: "costs_track t L" and d: "distinct (writable_accounts c)"
    and L': "recharged c (unat a) L L'" "charged (\<lambda>_. True) L' < 2 ^ 64"
  shows "\<exists>costliest m b v. add_transaction_execution_cost c a t =
      (costliest, t\<lparr>cost_by_writable_accounts := m, block_cost := b, vote_cost := v\<rparr>) \<and>
    costs_track (t\<lparr>cost_by_writable_accounts := m, block_cost := b, vote_cost := v\<rparr>) L'"
proof -
  obtain m cc where f: "fold (charge_account a) (writable_accounts c) (cost_by_writable_accounts t, 0) = (m, cc)"
    by (metis surj_pair)
  let ?v = "if is_simple_vote c then saturating_add (vote_cost t) a else vote_cost t"
  let ?t = "t\<lparr>cost_by_writable_accounts := m, block_cost := block_cost t + a, vote_cost := ?v\<rparr>"
  note tD = costs_trackD [OF t] and bound = recharged_bound [OF L']
  have all: "charged P L' = charged P L + (if P c then unat a else 0)" for P using L'(1) by (simp add: recharged_def)
  have "costs_track ?t L'"
  proof (rule costs_trackI)
    have "unat (block_cost t) + unat a < 2 ^ 64" using bound [of "\<lambda>_. True"] tD(1) by simp
    then show "unat (block_cost ?t) = charged (\<lambda>_. True) L'"
      using tD(1) unfolding all by (simp add: unat_add_bounded)
    show "unat (vote_cost ?t) = charged is_simple_vote L'"
      using tD(2) bound [of is_simple_vote] unfolding all by (simp add: unat_add_exact)
    fix k
    have "account_cost m k = (if writes k c then saturating_add (account_cost (cost_by_writable_accounts t) k) a
        else account_cost (cost_by_writable_accounts t) k)"
      using charge_accounts [OF d, of a "cost_by_writable_accounts t" 0 k] f by (simp add: writes_def)
    then show "unat (account_cost (cost_by_writable_accounts ?t) k) = charged (writes k) L'"
      using tD(3) [of k] bound [of "writes k"] unfolding all by (simp add: unat_add_exact)
  qed
  moreover have "add_transaction_execution_cost c a t = (cc, ?t)" using f by (simp add: add_transaction_execution_cost_def)
  ultimately show ?thesis by blast
qed

lemma sub_execution_cost_ok:
  assumes t: "costs_track t L" and d: "distinct (writable_accounts c)" and L': "recharged c (unat a) L' L"
  shows "\<exists>m b v. sub_transaction_execution_cost c a t = t\<lparr>cost_by_writable_accounts := m, block_cost := b, vote_cost := v\<rparr> \<and>
    costs_track (t\<lparr>cost_by_writable_accounts := m, block_cost := b, vote_cost := v\<rparr>) L'"
proof -
  let ?m = "fold (\<lambda>key m. btm_put key (saturating_sub (account_cost m key) a) m) (writable_accounts c) (cost_by_writable_accounts t)"
  let ?v = "if is_simple_vote c then saturating_sub (vote_cost t) a else vote_cost t"
  let ?t = "t\<lparr>cost_by_writable_accounts := ?m, block_cost := block_cost t - a, vote_cost := ?v\<rparr>"
  note tD = costs_trackD [OF t]
  have all: "charged P L = charged P L' + (if P c then unat a else 0)" for P using L' by (simp add: recharged_def)
  have "costs_track ?t L'"
  proof (rule costs_trackI)
    have "a \<le> block_cost t" using tD(1) all [of "\<lambda>_. True"] by (simp add: word_le_nat_alt)
    then show "unat (block_cost ?t) = charged (\<lambda>_. True) L'"
      using tD(1) all [of "\<lambda>_. True"] by (simp add: unat_sub_bounded)
    show "unat (vote_cost ?t) = charged is_simple_vote L'"
      using tD(2) all [of is_simple_vote] by (simp add: unat_saturating_sub)
    fix k
    show "unat (account_cost (cost_by_writable_accounts ?t) k) = charged (writes k) L'"
      using tD(3) [of k] all [of "writes k"] refund_accounts [OF d, of a "cost_by_writable_accounts t" k]
      by (simp add: unat_saturating_sub writes_def)
  qed
  moreover have "sub_transaction_execution_cost c a t = ?t" by (simp add: sub_transaction_execution_cost_def)
  ultimately show ?thesis by blast
qed

lemma within_limits_iff:
  assumes "tracks t L"
  shows "within_limits t \<longleftrightarrow> charged (\<lambda>_. True) L \<le> unat (block_cost_limit t) \<and>
    charged is_simple_vote L \<le> unat (vote_cost_limit t) \<and> (\<forall>k. charged (writes k) L \<le> unat (account_cost_limit t)) \<and>
    total_of allocated_accounts_data_size L \<le> 100000000"
  using assms by (simp add: within_limits_def tracks_def costs_track_def stats_track_def word_le_nat_alt cost_constants)

definition same_limits :: "'k cost_tracker \<Rightarrow> 'k cost_tracker \<Rightarrow> bool" where
  "same_limits t t' \<longleftrightarrow> account_cost_limit t' = account_cost_limit t \<and> block_cost_limit t' = block_cost_limit t \<and>
     vote_cost_limit t' = vote_cost_limit t"

lemma within_limits_less:
  assumes "tracks t L" "tracks t' L'" "same_limits t t'" "within_limits t"
    and "\<And>P. charged P L' \<le> charged P L" "total_of allocated_accounts_data_size L' \<le> total_of allocated_accounts_data_size L"
  shows "within_limits t'"
  using assms(3,4,6) unfolding within_limits_iff [OF assms(1)] within_limits_iff [OF assms(2)] same_limits_def
  by (auto intro: order_trans [OF assms(5)])

lemma try_add_ok:
  assumes t: "tracks t L" and l: "limits_ok t" and w: "within_limits t" and d: "distinct (writable_accounts c)"
    and n: "counters_fit c L" and r: "try_add c t = Inr (u, t')"
  shows "tracks t' (\<lparr>charged_tx = c, units = unat (cost_sum c), awaited = True\<rparr> # L)" "within_limits t'"
    "same_limits t t'" "in_flight_transaction_count t' = in_flight_transaction_count t" "cost_sum c \<noteq> - 1"
proof -
  let ?n = "unat (cost_sum c)" and ?L = "\<lparr>charged_tx = c, units = unat (cost_sum c), awaited = True\<rparr> # L"
  from r have fit: "would_fit c t = Inr ()" by (auto simp: try_add_def split: sum.splits prod.splits)
  have b: "is_simple_vote c \<Longrightarrow> charged is_simple_vote L + ?n \<le> unat (vote_cost_limit t)"
    "charged (\<lambda>_. True) L + ?n \<le> unat (block_cost_limit t)" "?n \<le> unat (account_cost_limit t)"
    "total_of allocated_accounts_data_size L + unat (allocated_accounts_data_size c) \<le> 100000000"
    "\<And>k. writes k c \<Longrightarrow> charged (writes k) L + ?n \<le> unat (account_cost_limit t)"
    using fit unfolding would_fit_ok [OF t l] Let_def by (auto split: if_splits simp: not_less)
  have b64: "charged (\<lambda>_. True) ?L < 2 ^ 64" using b(2) unat_bound [of "block_cost_limit t"] by simp
  let ?t = "t\<lparr>ct_allocated_accounts_data_size :=
               saturating_add (ct_allocated_accounts_data_size t) (allocated_accounts_data_size c),
             transaction_count := saturating_add (transaction_count t) 1,
             transaction_signature_count := saturating_add (transaction_signature_count t) (num_transaction_signatures c),
             secp256k1_instruction_signature_count :=
               saturating_add (secp256k1_instruction_signature_count t) (cost_secp256k1_signatures c),
             ed25519_instruction_signature_count :=
               saturating_add (ed25519_instruction_signature_count t) (cost_ed25519_signatures c),
             secp256r1_instruction_signature_count :=
               saturating_add (secp256r1_instruction_signature_count t) (cost_secp256r1_signatures c)\<rparr>"
  have "costs_track ?t L" using t by (simp add: tracks_def costs_track_def)
  moreover have "recharged c ?n L ?L" by (simp add: recharged_def)
  ultimately obtain costliest m b' v where
    add: "add_transaction_execution_cost c (cost_sum c) ?t =
        (costliest, ?t\<lparr>cost_by_writable_accounts := m, block_cost := b', vote_cost := v\<rparr>)"
      "costs_track (?t\<lparr>cost_by_writable_accounts := m, block_cost := b', vote_cost := v\<rparr>) ?L"
    using add_execution_cost_ok [OF _ d _ b64, of ?t L "cost_sum c"] by blast
  have t': "t' = ?t\<lparr>cost_by_writable_accounts := m, block_cost := b', vote_cost := v\<rparr>"
    using r fit add(1) by (simp add: try_add_def add_transaction_cost_def)
  have "stats_track t' ?L"
  proof -
    have st: "stats_track t L" using t by (simp add: tracks_def)
    have "unat (saturating_add (transaction_count t) 1) = Suc (length L)"
      using counted [of "transaction_count t" "length L" 1] st n by (simp add: stats_track_def counters_fit_def)
    moreover have "unat (saturating_add (ct_allocated_accounts_data_size t) (allocated_accounts_data_size c)) =
        unat (allocated_accounts_data_size c) + total_of allocated_accounts_data_size L"
      by (rule counted) (use st b(4) in \<open>simp_all add: stats_track_def\<close>)
    moreover have "unat (saturating_add (transaction_signature_count t) (num_transaction_signatures c)) =
        unat (num_transaction_signatures c) + total_of num_transaction_signatures L"
      by (rule counted) (use st n in \<open>simp_all add: stats_track_def counters_fit_def\<close>)
    moreover have "unat (saturating_add (secp256k1_instruction_signature_count t) (cost_secp256k1_signatures c)) =
        unat (cost_secp256k1_signatures c) + total_of cost_secp256k1_signatures L"
      by (rule counted) (use st n in \<open>simp_all add: stats_track_def counters_fit_def\<close>)
    moreover have "unat (saturating_add (ed25519_instruction_signature_count t) (cost_ed25519_signatures c)) =
        unat (cost_ed25519_signatures c) + total_of cost_ed25519_signatures L"
      by (rule counted) (use st n in \<open>simp_all add: stats_track_def counters_fit_def\<close>)
    moreover have "unat (saturating_add (secp256r1_instruction_signature_count t) (cost_secp256r1_signatures c)) =
        unat (cost_secp256r1_signatures c) + total_of cost_secp256r1_signatures L"
      by (rule counted) (use st n in \<open>simp_all add: stats_track_def counters_fit_def\<close>)
    ultimately show ?thesis unfolding t' by (simp add: stats_track_def)
  qed
  with add(2) show tr: "tracks t' ?L" unfolding t' by (simp add: tracks_def)
  show same: "same_limits t t'" "in_flight_transaction_count t' = in_flight_transaction_count t" unfolding t' by (simp_all add: same_limits_def)
  show "within_limits t'"
    using w b same(1) unfolding within_limits_iff [OF tr] within_limits_iff [OF t] same_limits_def by (auto simp: add.commute)
  have "unat (cost_sum c) < 2 ^ 64 - 1"
    using b(3) l unat_bound [of "account_cost_limit t"] by (auto simp: limits_ok_def word_unat_eq_iff unat_max_word)
  then show "cost_sum c \<noteq> - 1" by (auto simp: unat_max_word)
qed

lemma remove_ok:
  assumes t: "tracks t (A @ e # B)" and d: "distinct (writable_accounts (charged_tx e))"
    and u: "units e = unat (cost_sum (charged_tx e))"
  shows "tracks (tracker_remove (charged_tx e) t) (A @ B)" "same_limits t (tracker_remove (charged_tx e) t)"
    "in_flight_transaction_count (tracker_remove (charged_tx e) t) = in_flight_transaction_count t"
proof -
  let ?c = "charged_tx e"
  have "recharged ?c (unat (cost_sum ?c)) (A @ B) (A @ e # B)" using u by (simp add: recharged_def)
  moreover have "costs_track t (A @ e # B)" using t by (simp add: tracks_def)
  ultimately obtain m b v where
    x: "sub_transaction_execution_cost ?c (cost_sum ?c) t = t\<lparr>cost_by_writable_accounts := m, block_cost := b, vote_cost := v\<rparr>"
      "costs_track (t\<lparr>cost_by_writable_accounts := m, block_cost := b, vote_cost := v\<rparr>) (A @ B)"
    using sub_execution_cost_ok [OF _ d] by blast
  show "tracks (tracker_remove ?c t) (A @ B)" "same_limits t (tracker_remove ?c t)"
    "in_flight_transaction_count (tracker_remove ?c t) = in_flight_transaction_count t"
    using x(2) t by (simp_all add: tracker_remove_def remove_transaction_cost_def x(1) Let_def tracks_def costs_track_def stats_track_def
        unat_saturating_sub same_limits_def)
qed

definition settled :: "'k charge \<Rightarrow> nat \<Rightarrow> 'k charge" where
  "settled e actual = e\<lparr>units := units e + actual -
     (unat (programs_execution_cost (charged_tx e)) + unat (loaded_accounts_data_size_cost (charged_tx e))), awaited := False\<rparr>"

lemma settled_fields [simp]: "charged_tx (settled e n) = charged_tx e" "awaited (settled e n) = False"
  by (simp_all add: settled_def)

text \<open>
  \<open>update_execution_cost\<close> replaces the estimated part of the charge by the actual one, whatever their
  order, as long as the block total does not overflow.
\<close>

lemma update_ok:
  assumes t: "tracks t (A @ e # B)" and d: "distinct (writable_accounts (charged_tx e))"
    and u: "units e = unat (cost_sum (charged_tx e))" "cost_sum (charged_tx e) \<noteq> - 1"
    and fits: "charged (\<lambda>_. True) (A @ settled e (unat x + unat y) # B) < 2 ^ 64" and xy: "unat x + unat y < 2 ^ 64"
  shows "tracks (update_execution_cost (charged_tx e) x y t) (A @ settled e (unat x + unat y) # B)"
    "same_limits t (update_execution_cost (charged_tx e) x y t)"
    "in_flight_transaction_count (update_execution_cost (charged_tx e) x y t) = in_flight_transaction_count t"
proof -
  let ?c = "charged_tx e" and ?L = "A @ settled e (unat x + unat y) # B"
  let ?act = "saturating_add x y" and ?est = "saturating_add (programs_execution_cost ?c) (loaded_accounts_data_size_cost ?c)"
  have act: "unat ?act = unat x + unat y" using xy by (simp add: unat_saturating_add)
  have part: "unat (programs_execution_cost ?c) + unat (loaded_accounts_data_size_cost ?c) \<le> units e"
    using cost_sum_parts [OF u(2)] u(1) by simp
  then have "unat (programs_execution_cost ?c) + unat (loaded_accounts_data_size_cost ?c) < 2 ^ 64"
    using u(1) unat_bound [of "cost_sum ?c"] by simp
  then have est: "unat ?est = unat (programs_execution_cost ?c) + unat (loaded_accounts_data_size_cost ?c)"
    by (simp add: unat_saturating_add)
  have un: "units (settled e (unat x + unat y)) = units e + unat ?act - unat ?est" by (simp add: settled_def act est)
  have ct: "costs_track t (A @ e # B)" and st: "stats_track t (A @ e # B)" using t by (simp_all add: tracks_def)
  have stats: "stats_track (t\<lparr>cost_by_writable_accounts := m, block_cost := b, vote_cost := v\<rparr>) ?L" for m b v
    using st by (simp add: stats_track_def)
  consider "?act = ?est" | "?act > ?est" | "?act < ?est" by force
  then have "\<exists>m b v. update_execution_cost ?c x y t = t\<lparr>cost_by_writable_accounts := m, block_cost := b, vote_cost := v\<rparr> \<and>
      costs_track (t\<lparr>cost_by_writable_accounts := m, block_cost := b, vote_cost := v\<rparr>) ?L"
  proof cases
    case 1
    then have "costs_track t ?L" using ct un by (simp add: costs_track_def)
    with 1 show ?thesis
      by (intro exI [of _ "cost_by_writable_accounts t"] exI [of _ "block_cost t"] exI [of _ "vote_cost t"])
        (simp add: update_execution_cost_def Let_def)
  next
    case 2
    then have le: "?est \<le> ?act" by simp
    then have "unat (?act - ?est) = unat ?act - unat ?est" "unat ?est \<le> unat ?act" by (rule unat_sub_bounded, simp add: word_le_nat_alt)
    with un part est have "recharged ?c (unat (?act - ?est)) (A @ e # B) ?L" by (simp add: recharged_def)
    from add_execution_cost_ok [OF ct d this fits] obtain costliest m b v where
      x: "add_transaction_execution_cost ?c (?act - ?est) t =
          (costliest, t\<lparr>cost_by_writable_accounts := m, block_cost := b, vote_cost := v\<rparr>)"
        "costs_track (t\<lparr>cost_by_writable_accounts := m, block_cost := b, vote_cost := v\<rparr>) ?L" by blast
    have "update_execution_cost ?c x y t = t\<lparr>cost_by_writable_accounts := m, block_cost := b, vote_cost := v\<rparr>"
      using 2 x(1) by (simp add: update_execution_cost_def Let_def)
    with x(2) show ?thesis by blast
  next
    case 3
    then have le: "?act \<le> ?est" by simp
    then have "unat (?est - ?act) = unat ?est - unat ?act" "unat ?act \<le> unat ?est" by (rule unat_sub_bounded, simp add: word_le_nat_alt)
    with un part est have "recharged ?c (unat (?est - ?act)) ?L (A @ e # B)" by (simp add: recharged_def)
    from sub_execution_cost_ok [OF ct d this] obtain m b v where
      x: "sub_transaction_execution_cost ?c (?est - ?act) t = t\<lparr>cost_by_writable_accounts := m, block_cost := b, vote_cost := v\<rparr>"
        "costs_track (t\<lparr>cost_by_writable_accounts := m, block_cost := b, vote_cost := v\<rparr>) ?L" by blast
    have "update_execution_cost ?c x y t = t\<lparr>cost_by_writable_accounts := m, block_cost := b, vote_cost := v\<rparr>"
      using 3 x(1) by (auto simp: update_execution_cost_def Let_def)
    with x(2) show ?thesis by blast
  qed
  with stats show "tracks (update_execution_cost ?c x y t) ?L" "same_limits t (update_execution_cost ?c x y t)"
    "in_flight_transaction_count (update_execution_cost ?c x y t) = in_flight_transaction_count t"
    by (auto simp: tracks_def same_limits_def)
qed

section \<open>Reachable trackers\<close>

text \<open>
  The history of a block: transactions are admitted, and each is later removed or settled with an
  actual cost that its estimate covers; the threads of the block producer interleave these steps freely.
\<close>

inductive tracker_reach :: "'k::linorder cost_tracker \<Rightarrow> 'k ledger \<Rightarrow> bool" where
  start: "t = set_limits a b v tracker_default \<Longrightarrow> limits_ok t \<Longrightarrow> tracker_reach t []"
| add: "tracker_reach t L \<Longrightarrow> distinct (writable_accounts c) \<Longrightarrow> counters_fit c L \<Longrightarrow> try_add c t = Inr (u, t') \<Longrightarrow>
    tracker_reach t' (\<lparr>charged_tx = c, units = unat (cost_sum c), awaited = True\<rparr> # L)"
| removal: "tracker_reach t (A @ e # B) \<Longrightarrow> awaited e \<Longrightarrow> tracker_reach (tracker_remove (charged_tx e) t) (A @ B)"
| settle: "tracker_reach t (A @ e # B) \<Longrightarrow> awaited e \<Longrightarrow>
    unat x + unat y \<le> unat (programs_execution_cost (charged_tx e)) + unat (loaded_accounts_data_size_cost (charged_tx e)) \<Longrightarrow>
    tracker_reach (update_execution_cost (charged_tx e) x y t) (A @ settled e (unat x + unat y) # B)"
| begin_flight: "tracker_reach t L \<Longrightarrow> tracker_reach (add_transactions_in_flight n t) L"
| end_flight: "tracker_reach t L \<Longrightarrow> tracker_reach (sub_transactions_in_flight n t) L"

definition charge_ok :: "'k charge \<Rightarrow> bool" where
  "charge_ok e \<longleftrightarrow> distinct (writable_accounts (charged_tx e)) \<and> cost_sum (charged_tx e) \<noteq> - 1 \<and>
     (awaited e \<longrightarrow> units e = unat (cost_sum (charged_tx e)))"

lemma charge_okD:
  assumes "charge_ok e" "awaited e"
  shows "distinct (writable_accounts (charged_tx e))" "cost_sum (charged_tx e) \<noteq> - 1" "units e = unat (cost_sum (charged_tx e))"
    "unat (programs_execution_cost (charged_tx e)) + unat (loaded_accounts_data_size_cost (charged_tx e)) \<le> units e"
  using assms cost_sum_parts [of "charged_tx e"] by (auto simp: charge_ok_def)

lemma settled_le:
  assumes "charge_ok e" "awaited e"
    and "n \<le> unat (programs_execution_cost (charged_tx e)) + unat (loaded_accounts_data_size_cost (charged_tx e))"
  shows "charged P (A @ settled e n # B) \<le> charged P (A @ e # B)"
  using charge_okD [OF assms(1,2)] assms(3) by (simp add: settled_def le_diff_conv)

lemma limits_same: "same_limits t t' \<Longrightarrow> limits_ok t' = limits_ok t"
  by (simp add: same_limits_def limits_ok_def)

lemma tracker_reach_ok:
  assumes "tracker_reach t L"
  shows "tracks t L \<and> within_limits t \<and> limits_ok t \<and> (\<forall>e \<in> set L. charge_ok e)"
  using assms
proof (induction rule: tracker_reach.induct)
  case (start t a b v)
  then show ?case
    by (simp add: tracks_def costs_track_def stats_track_def within_limits_def set_limits_def tracker_default_def account_cost_def btm_get_def)
next
  case (add t L c u t')
  then have ih: "tracks t L" "limits_ok t" "within_limits t" "\<forall>e \<in> set L. charge_ok e" by simp_all
  note x = try_add_ok [OF ih(1-3) add.hyps(2-4)]
  show ?case using x limits_same [OF x(3)] ih(2,4) add.hyps(2) by (auto simp: charge_ok_def)
next
  case (removal t A e B)
  then have ih: "tracks t (A @ e # B)" "limits_ok t" "within_limits t" "charge_ok e" "\<forall>e \<in> set (A @ B). charge_ok e" by simp_all
  note e = charge_okD [OF ih(4) removal.hyps(2)]
  note x = remove_ok [OF ih(1) e(1,3)]
  have "within_limits (tracker_remove (charged_tx e) t)" by (rule within_limits_less [OF ih(1) x(1,2) ih(3)]) simp_all
  with x limits_same [OF x(2)] ih(2,5) show ?case by simp
next
  case (settle t A e B x y)
  then have ih: "tracks t (A @ e # B)" "limits_ok t" "within_limits t" "charge_ok e" "\<forall>e \<in> set (A @ B). charge_ok e" by simp_all
  note e = charge_okD [OF ih(4) settle.hyps(2)]
  let ?L = "A @ settled e (unat x + unat y) # B"
  note le = settled_le [OF ih(4) settle.hyps(2,3)]
  have "charged (\<lambda>_. True) (A @ e # B) < 2 ^ 64"
    using ih(1) unat_bound [of "block_cost t"] by (simp add: tracks_def costs_track_def)
  with le [of "\<lambda>_. True" A B] have f: "charged (\<lambda>_. True) ?L < 2 ^ 64" by linarith
  have xy: "unat x + unat y < 2 ^ 64"
    using settle.hyps(3) e(3,4) unat_bound [of "cost_sum (charged_tx e)"] by simp
  note u = update_ok [OF ih(1) e(1,3,2) f xy]
  have "within_limits (update_execution_cost (charged_tx e) x y t)"
    by (rule within_limits_less [OF ih(1) u(1,2) ih(3) le]) simp
  moreover have "charge_ok (settled e (unat x + unat y))" using ih(4) by (simp add: charge_ok_def)
  ultimately show ?case using u limits_same [OF u(2)] ih(2,5) by simp
qed (simp_all add: add_transactions_in_flight_def sub_transactions_in_flight_def tracks_def costs_track_def
    stats_track_def within_limits_def limits_ok_def)

end
