(* ===== verification/Qos_Service.thy ===== *)
theory Qos_Service
  imports Cost_Tracker
begin

text \<open>
  The admission of transaction batches to a block: \<^verbatim>\<open>core/src/banking_stage/qos_service.rs\<close> on
  top of the cost model and the cost tracker. The counters of the service are kept; the two counters of
  elapsed time, which read a clock, are not. Of a commit only what the service reads is modelled.
\<close>

section \<open>Batches\<close>

type_synonym 'k cost_result = "transaction_error + 'k transaction_cost"

datatype commit_transaction_details = Committed u64 u32 | NotCommitted transaction_error

record batched_transaction_cost_details =
  batched_signature_cost :: u64
  batched_write_lock_cost :: u64
  batched_data_bytes_cost :: u64
  batched_loaded_accounts_data_size_cost :: u64
  batched_programs_execute_cost :: u64

record batched_transaction_error_details =
  batched_retried_txs_per_block_limit_count :: u64
  batched_retried_txs_per_vote_limit_count :: u64
  batched_retried_txs_per_account_limit_count :: u64
  batched_retried_txs_per_account_data_block_limit_count :: u64
  batched_dropped_txs_per_account_data_total_limit_count :: u64

type_synonym batched_transaction_details = "batched_transaction_cost_details \<times> batched_transaction_error_details"

definition batched_default :: batched_transaction_details where
  "batched_default =
     (\<lparr>batched_signature_cost = 0, batched_write_lock_cost = 0, batched_data_bytes_cost = 0,
       batched_loaded_accounts_data_size_cost = 0, batched_programs_execute_cost = 0\<rparr>,
      \<lparr>batched_retried_txs_per_block_limit_count = 0, batched_retried_txs_per_vote_limit_count = 0,
       batched_retried_txs_per_account_limit_count = 0, batched_retried_txs_per_account_data_block_limit_count = 0,
       batched_dropped_txs_per_account_data_total_limit_count = 0\<rparr>)"

record qos_service_metrics =
  compute_cost_count :: u64
  selected_txs_count :: u64
  estimated_signature_cu :: u64
  estimated_write_lock_cu :: u64
  estimated_data_bytes_cu :: u64
  estimated_loaded_accounts_data_size_cu :: u64
  estimated_programs_execute_cu :: u64
  actual_programs_execute_cu :: u64
  actual_execute_time_us :: u64
  retried_txs_per_block_limit_count :: u64
  retried_txs_per_vote_limit_count :: u64
  retried_txs_per_account_limit_count :: u64
  retried_txs_per_account_data_block_limit_count :: u64
  dropped_txs_per_account_data_total_limit_count :: u64

section \<open>Costs and selection\<close>

text \<open>The cost of every transaction that no earlier check has filtered out.\<close>

fun transaction_costs ::
  "'k cost_env \<Rightarrow> ('k \<Rightarrow> bool) \<Rightarrow> ('k cost_tx \<times> (transaction_error + unit)) list \<Rightarrow> 'k cost_result list option" where
  "transaction_costs env active [] = Some []"
| "transaction_costs env active ((tx, pre_result) # rest) = do {
     c \<leftarrow> (case pre_result of Inl e \<Rightarrow> Some (Inl e) | Inr _ \<Rightarrow> map_option Inr (calculate_cost env active tx));
     cs \<leftarrow> transaction_costs env active rest;
     Some (c # cs)
   }"

definition compute_transaction_costs ::
  "'k cost_env \<Rightarrow> ('k \<Rightarrow> bool) \<Rightarrow> 'k cost_tx list \<Rightarrow> (transaction_error + unit) list \<Rightarrow> qos_service_metrics \<Rightarrow>
    ('k cost_result list \<times> qos_service_metrics) option" where
  "compute_transaction_costs env active transactions pre_results m = do {
     cs \<leftarrow> transaction_costs env active (zip transactions pre_results);
     Some (cs, m\<lparr>compute_cost_count := compute_cost_count m + of_nat (length cs)\<rparr>)
   }"

text \<open>The closure that offers one transaction to the cost tracker, mapped over the costs.\<close>

fun select_costs ::
  "'k::linorder cost_result list \<Rightarrow> 'k cost_tracker \<Rightarrow> nat \<Rightarrow> 'k cost_result list \<times> 'k cost_tracker \<times> nat" where
  "select_costs [] t num_included = ([], t, num_included)"
| "select_costs (Inl e # rest) t num_included =
     (case select_costs rest t num_included of (rs, t, n) \<Rightarrow> (Inl e # rs, t, n))"
| "select_costs (Inr c # rest) t num_included =
     (case try_add c t of
        Inl e \<Rightarrow> (case select_costs rest t num_included of (rs, t, n) \<Rightarrow> (Inl (to_transaction_error e) # rs, t, n))
      | Inr (_, t) \<Rightarrow> (case select_costs rest t (num_included + 1) of (rs, t, n) \<Rightarrow> (Inr c # rs, t, n)))"

definition select_transactions_per_cost ::
  "'k::linorder cost_tx list \<Rightarrow> 'k cost_result list \<Rightarrow> 'k cost_tracker \<Rightarrow> qos_service_metrics \<Rightarrow>
    'k cost_result list \<times> nat \<times> 'k cost_tracker \<times> qos_service_metrics" where
  "select_transactions_per_cost transactions costs t m =
     (case select_costs (map snd (zip transactions costs)) t 0 of
        (rs, t, n) \<Rightarrow> (rs, n, add_transactions_in_flight (of_nat n) t,
          m\<lparr>selected_txs_count := selected_txs_count m + of_nat n\<rparr>))"

definition accumulate_batched_cost :: "'k cost_result \<Rightarrow> batched_transaction_details \<Rightarrow> batched_transaction_details" where
  "accumulate_batched_cost r = (\<lambda>(costs, errors).
     case r of
       Inr c \<Rightarrow>
         (\<lparr>batched_signature_cost = saturating_add (batched_signature_cost costs) (signature_cost c),
           batched_write_lock_cost = saturating_add (batched_write_lock_cost costs) (write_lock_cost c),
           batched_data_bytes_cost = saturating_add (batched_data_bytes_cost costs) (ucast (data_bytes_cost c)),
           batched_loaded_accounts_data_size_cost =
             saturating_add (batched_loaded_accounts_data_size_cost costs) (loaded_accounts_data_size_cost c),
           batched_programs_execute_cost = saturating_add (batched_programs_execute_cost costs) (programs_execution_cost c)\<rparr>,
          errors)
     | Inl WouldExceedMaxBlockCostLimit \<Rightarrow>
         (costs, errors\<lparr>batched_retried_txs_per_block_limit_count :=
            saturating_add (batched_retried_txs_per_block_limit_count errors) 1\<rparr>)
     | Inl WouldExceedMaxVoteCostLimit \<Rightarrow>
         (costs, errors\<lparr>batched_retried_txs_per_vote_limit_count :=
            saturating_add (batched_retried_txs_per_vote_limit_count errors) 1\<rparr>)
     | Inl WouldExceedMaxAccountCostLimit \<Rightarrow>
         (costs, errors\<lparr>batched_retried_txs_per_account_limit_count :=
            saturating_add (batched_retried_txs_per_account_limit_count errors) 1\<rparr>)
     | Inl WouldExceedAccountDataBlockLimit \<Rightarrow>
         (costs, errors\<lparr>batched_retried_txs_per_account_data_block_limit_count :=
            saturating_add (batched_retried_txs_per_account_data_block_limit_count errors) 1\<rparr>)
     | Inl WouldExceedAccountDataTotalLimit \<Rightarrow>
         (costs, errors\<lparr>batched_dropped_txs_per_account_data_total_limit_count :=
            saturating_add (batched_dropped_txs_per_account_data_total_limit_count errors) 1\<rparr>)
     | Inl _ \<Rightarrow> (costs, errors))"

definition accumulate_batched_transaction_costs :: "'k cost_result list \<Rightarrow> batched_transaction_details" where
  "accumulate_batched_transaction_costs rs = fold accumulate_batched_cost rs batched_default"

definition accumulate_estimated_transaction_costs ::
  "batched_transaction_details \<Rightarrow> qos_service_metrics \<Rightarrow> qos_service_metrics" where
  "accumulate_estimated_transaction_costs = (\<lambda>(costs, errors) m. m
     \<lparr>estimated_signature_cu := estimated_signature_cu m + batched_signature_cost costs,
      estimated_write_lock_cu := estimated_write_lock_cu m + batched_write_lock_cost costs,
      estimated_data_bytes_cu := estimated_data_bytes_cu m + batched_data_bytes_cost costs,
      estimated_loaded_accounts_data_size_cu :=
        estimated_loaded_accounts_data_size_cu m + batched_loaded_accounts_data_size_cost costs,
      estimated_programs_execute_cu := estimated_programs_execute_cu m + batched_programs_execute_cost costs,
      retried_txs_per_block_limit_count :=
        retried_txs_per_block_limit_count m + batched_retried_txs_per_block_limit_count errors,
      retried_txs_per_vote_limit_count :=
        retried_txs_per_vote_limit_count m + batched_retried_txs_per_vote_limit_count errors,
      retried_txs_per_account_limit_count :=
        retried_txs_per_account_limit_count m + batched_retried_txs_per_account_limit_count errors,
      retried_txs_per_account_data_block_limit_count :=
        retried_txs_per_account_data_block_limit_count m + batched_retried_txs_per_account_data_block_limit_count errors,
      dropped_txs_per_account_data_total_limit_count :=
        dropped_txs_per_account_data_total_limit_count m + batched_dropped_txs_per_account_data_total_limit_count errors\<rparr>)"

definition accumulate_actual_execute_cu :: "u64 \<Rightarrow> qos_service_metrics \<Rightarrow> qos_service_metrics" where
  "accumulate_actual_execute_cu n m = m\<lparr>actual_programs_execute_cu := actual_programs_execute_cu m + n\<rparr>"

definition accumulate_actual_execute_time :: "u64 \<Rightarrow> qos_service_metrics \<Rightarrow> qos_service_metrics" where
  "accumulate_actual_execute_time n m = m\<lparr>actual_execute_time_us := actual_execute_time_us m + n\<rparr>"

definition select_and_accumulate_transaction_costs ::
  "'k::linorder cost_env \<Rightarrow> ('k \<Rightarrow> bool) \<Rightarrow> 'k cost_tx list \<Rightarrow> (transaction_error + unit) list \<Rightarrow>
    'k cost_tracker \<times> qos_service_metrics \<Rightarrow>
    (('k cost_result list \<times> u64) \<times> 'k cost_tracker \<times> qos_service_metrics) option" where
  "select_and_accumulate_transaction_costs env active transactions pre_results = (\<lambda>(t, m). do {
     (costs, m) \<leftarrow> compute_transaction_costs env active transactions pre_results m;
     let (rs, n, t, m) = select_transactions_per_cost transactions costs t m;
     let m = accumulate_estimated_transaction_costs (accumulate_batched_transaction_costs rs) m;
     Some ((rs, of_nat (length transactions - n)), t, m)
   })"

section \<open>After execution\<close>

definition settle_cost ::
  "'k::linorder cost_env \<Rightarrow> 'k cost_result \<times> commit_transaction_details \<Rightarrow> 'k cost_tracker \<times> nat \<Rightarrow> 'k cost_tracker \<times> nat" where
  "settle_cost env = (\<lambda>(r, details) (t, n).
     case r of
       Inl _ \<Rightarrow> (t, n)
     | Inr c \<Rightarrow>
         ((case details of
             Committed compute_units loaded_accounts_data_size \<Rightarrow>
               update_execution_cost c compute_units
                 (calculate_loaded_accounts_data_size_cost env loaded_accounts_data_size) t
           | NotCommitted _ \<Rightarrow> tracker_remove c t), n + 1))"

definition remove_or_update_recorded_transaction_costs ::
  "'k::linorder cost_env \<Rightarrow> 'k cost_result list \<Rightarrow> commit_transaction_details list \<Rightarrow> 'k cost_tracker \<Rightarrow> 'k cost_tracker" where
  "remove_or_update_recorded_transaction_costs env rs committed t =
     (case fold (settle_cost env) (zip rs committed) (t, 0) of (t, n) \<Rightarrow> sub_transactions_in_flight (of_nat n) t)"

definition drop_cost :: "'k::linorder cost_result \<Rightarrow> 'k cost_tracker \<times> nat \<Rightarrow> 'k cost_tracker \<times> nat" where
  "drop_cost r = (\<lambda>(t, n). case r of Inl _ \<Rightarrow> (t, n) | Inr c \<Rightarrow> (tracker_remove c t, n + 1))"

definition remove_unrecorded_transaction_costs ::
  "'k::linorder cost_result list \<Rightarrow> 'k cost_tracker \<Rightarrow> 'k cost_tracker" where
  "remove_unrecorded_transaction_costs rs t =
     (case fold drop_cost rs (t, 0) of (t, n) \<Rightarrow> sub_transactions_in_flight (of_nat n) t)"

definition remove_or_update_costs ::
  "'k::linorder cost_env \<Rightarrow> 'k cost_result list \<Rightarrow> commit_transaction_details list option \<Rightarrow> 'k cost_tracker \<Rightarrow> 'k cost_tracker" where
  "remove_or_update_costs env rs committed t =
     (case committed of
        Some committed \<Rightarrow> remove_or_update_recorded_transaction_costs env rs committed t
      | None \<Rightarrow> remove_unrecorded_transaction_costs rs t)"

section \<open>Selection on the ledger\<close>

fun oks :: "'k cost_result list \<Rightarrow> 'k transaction_cost list" where
  "oks [] = []"
| "oks (Inl e # rs) = oks rs"
| "oks (Inr c # rs) = c # oks rs"

definition full_charge :: "'k transaction_cost \<Rightarrow> 'k charge" where
  "full_charge c = \<lparr>charged_tx = c, units = unat (cost_sum c), awaited = True\<rparr>"

definition counters_within :: "'k ledger \<Rightarrow> bool" where
  "counters_within L \<longleftrightarrow> length L < 2 ^ 64 \<and> total_of num_transaction_signatures L < 2 ^ 64 \<and>
     total_of cost_secp256k1_signatures L < 2 ^ 64 \<and> total_of cost_ed25519_signatures L < 2 ^ 64 \<and>
     total_of cost_secp256r1_signatures L < 2 ^ 64"

lemma counters_fit_within: "counters_fit c L \<longleftrightarrow> counters_within (full_charge c # L)"
  by (auto simp: counters_fit_def counters_within_def full_charge_def add.commute)

text \<open>A batch of costs that can be charged on top of \<open>L\<close>.\<close>

definition batch_ok :: "'k cost_result list \<Rightarrow> 'k ledger \<Rightarrow> bool" where
  "batch_ok costs L \<longleftrightarrow> (\<forall>c \<in> set (oks costs). distinct (writable_accounts c)) \<and>
     counters_within (map full_charge (oks costs) @ L)"

lemma batch_ok_Cons:
  assumes "batch_ok (Inr c # costs) L"
  shows "distinct (writable_accounts c)" "counters_fit c L" "batch_ok costs L" "batch_ok costs (full_charge c # L)"
  using assms by (auto simp: batch_ok_def counters_fit_within counters_within_def)

text \<open>What charges never touch.\<close>

definition same_frame :: "'k cost_tracker \<Rightarrow> 'k cost_tracker \<Rightarrow> bool" where
  "same_frame t t' \<longleftrightarrow> same_limits t t' \<and> in_flight_transaction_count t' = in_flight_transaction_count t"

lemma frame [simp]:
  "same_frame t t"
  "same_frame (tracker_remove c t) t' = same_frame t t'"
  "same_frame (update_execution_cost c x y t) t' = same_frame t t'"
  by (auto simp: same_frame_def same_limits_def tracker_remove_def remove_transaction_cost_def update_execution_cost_def
      sub_transaction_execution_cost_def add_transaction_execution_cost_def Let_def split: prod.splits)

lemma frame_add: "try_add c t = Inr (u, t1) \<Longrightarrow> same_frame t1 t' = same_frame t t'"
  by (auto simp: same_frame_def same_limits_def try_add_def add_transaction_cost_def add_transaction_execution_cost_def
      split: sum.splits prod.splits)

lemma select_costs_ok:
  assumes "tracker_reach t L" "batch_ok costs L" "select_costs costs t n = (rs, t', n')"
  shows "tracker_reach t' (rev (map full_charge (oks rs)) @ L) \<and> n' = n + length (oks rs) \<and>
    length rs = length costs \<and> same_frame t t'"
  using assms
proof (induction costs t n arbitrary: L rs t' n' rule: select_costs.induct)
  case (1 t n)
  then show ?case by auto
next
  case (2 e rest t n)
  from "2.prems"(3) obtain rs' where rs: "rs = Inl e # rs'" "select_costs rest t n = (rs', t', n')"
    by (auto split: prod.splits)
  have "batch_ok rest L" using "2.prems"(2) by (simp add: batch_ok_def)
  from "2.IH" [OF "2.prems"(1) this rs(2)] rs(1) show ?case by simp
next
  case (3 c rest t n)
  note b = batch_ok_Cons [OF "3.prems"(2)]
  show ?case
  proof (cases "try_add c t")
    case (Inl e)
    from "3.prems"(3) Inl obtain rs' where rs: "rs = Inl (to_transaction_error e) # rs'" "select_costs rest t n = (rs', t', n')"
      by (auto split: prod.splits)
    from "3.IH"(1) [OF Inl "3.prems"(1) b(3) rs(2)] rs(1) show ?thesis by simp
  next
    case (Inr a)
    obtain u t1 where a: "a = (u, t1)" by (cases a)
    with Inr have added: "try_add c t = Inr (u, t1)" by simp
    from "3.prems"(3) added obtain rs' where rs: "rs = Inr c # rs'" "select_costs rest t1 (n + 1) = (rs', t', n')"
      by (auto split: prod.splits)
    have "tracker_reach t1 (full_charge c # L)"
      unfolding full_charge_def by (rule tracker_reach.add [OF "3.prems"(1) b(1,2) added])
    from "3.IH"(2) [OF Inr a [symmetric] this b(4) rs(2)] rs(1) frame_add [OF added] show ?thesis by simp
  qed
qed

section \<open>Settlement on the ledger\<close>

text \<open>The actual execution and loading cost of a committed transaction, and whether the estimate covers it.\<close>

definition actual_cost :: "'k cost_env \<Rightarrow> u64 \<Rightarrow> u32 \<Rightarrow> nat" where
  "actual_cost env compute_units bytes = unat compute_units + unat (calculate_loaded_accounts_data_size_cost env bytes)"

definition covered :: "'k cost_env \<Rightarrow> 'k cost_result \<times> commit_transaction_details \<Rightarrow> bool" where
  "covered env = (\<lambda>(r, d). case (r, d) of
     (Inr c, Committed x b) \<Rightarrow>
       actual_cost env x b \<le> unat (programs_execution_cost c) + unat (loaded_accounts_data_size_cost c)
   | _ \<Rightarrow> True)"

text \<open>What the ledger keeps of a batch.\<close>

fun kept :: "'k cost_env \<Rightarrow> ('k cost_result \<times> commit_transaction_details) list \<Rightarrow> 'k ledger" where
  "kept env [] = []"
| "kept env ((Inr c, Committed x b) # rest) = settled (full_charge c) (actual_cost env x b) # kept env rest"
| "kept env ((Inr c, NotCommitted e) # rest) = kept env rest"
| "kept env ((Inl e, d) # rest) = kept env rest"

lemma full_charge_fields [simp]:
  "charged_tx (full_charge c) = c" "awaited (full_charge c)" "units (full_charge c) = unat (cost_sum c)"
  by (simp_all add: full_charge_def)

text \<open>The costs of a batch are in the order of admission, so the next one to settle is the oldest of those left.\<close>

abbreviation pending :: "'k transaction_cost list \<Rightarrow> 'k ledger" where
  "pending cs \<equiv> rev (map full_charge cs)"

lemma settle_costs_ok:
  assumes "tracker_reach t (pending (oks (map fst ps)) @ M)" "\<forall>p \<in> set ps. covered env p"
  shows "\<exists>t'. fold (settle_cost env) ps (t, n) = (t', n + length (oks (map fst ps))) \<and>
    tracker_reach t' (rev (kept env ps) @ M) \<and> same_frame t t'"
  using assms
proof (induction env ps arbitrary: t n M rule: kept.induct)
  case (2 env c x b rest)
  let ?t = "update_execution_cost c x (calculate_loaded_accounts_data_size_cost env b) t"
  have "actual_cost env x b \<le> unat (programs_execution_cost c) + unat (loaded_accounts_data_size_cost c)"
    using "2.prems"(2) by (simp add: covered_def)
  then have "tracker_reach ?t (pending (oks (map fst rest)) @ settled (full_charge c) (actual_cost env x b) # M)"
    using tracker_reach.settle [of t "pending (oks (map fst rest))" "full_charge c" M x "calculate_loaded_accounts_data_size_cost env b"]
      "2.prems"(1) by (simp add: actual_cost_def)
  from "2.IH" [OF this, of "n + 1"] "2.prems"(2) show ?case by (simp add: settle_cost_def)
next
  case (3 env c e rest)
  have "tracker_reach (tracker_remove c t) (pending (oks (map fst rest)) @ M)"
    using tracker_reach.removal [of t "pending (oks (map fst rest))" "full_charge c" M] "3.prems"(1) by simp
  from "3.IH" [OF this, of "n + 1"] "3.prems"(2) show ?case by (simp add: settle_cost_def)
qed (simp_all add: settle_cost_def)

lemma drop_costs_ok:
  assumes "tracker_reach t (pending (oks rs) @ M)"
  shows "\<exists>t'. fold drop_cost rs (t, n) = (t', n + length (oks rs)) \<and>
    tracker_reach t' M \<and> same_frame t t'"
  using assms
proof (induction rs arbitrary: t n rule: oks.induct)
  case (3 c rs)
  have "tracker_reach (tracker_remove c t) (pending (oks rs) @ M)"
    using tracker_reach.removal [of t "pending (oks rs)" "full_charge c" M] "3.prems" by simp
  from "3.IH" [OF this, of "n + 1"] show ?case by (simp add: drop_cost_def)
qed (simp_all add: drop_cost_def)

section \<open>A whole batch\<close>

text \<open>Two trackers with the same limits, costs and counters; accounts without cost may or may not be listed.\<close>

definition same_tracker :: "'k::linorder cost_tracker \<Rightarrow> 'k cost_tracker \<Rightarrow> bool" where
  "same_tracker t t' \<longleftrightarrow> same_frame t t' \<and> block_cost t' = block_cost t \<and> vote_cost t' = vote_cost t \<and>
     account_cost (cost_by_writable_accounts t') = account_cost (cost_by_writable_accounts t) \<and>
     ct_allocated_accounts_data_size t' = ct_allocated_accounts_data_size t \<and>
     transaction_count t' = transaction_count t \<and> transaction_signature_count t' = transaction_signature_count t \<and>
     secp256k1_instruction_signature_count t' = secp256k1_instruction_signature_count t \<and>
     ed25519_instruction_signature_count t' = ed25519_instruction_signature_count t \<and>
     secp256r1_instruction_signature_count t' = secp256r1_instruction_signature_count t"

lemma tracks_unique:
  assumes "tracks t L" "tracks t' L" "same_frame t t'"
  shows "same_tracker t t'"
  using assms by (auto simp: same_tracker_def same_frame_def tracks_def costs_track_def stats_track_def word_unat_eq_iff)

lemma in_flight_returns:
  assumes "unat (in_flight_transaction_count t) + n < 2 ^ 64" "same_frame (add_transactions_in_flight (of_nat n) t) t'"
  shows "same_frame t (sub_transactions_in_flight (of_nat n) t')"
proof -
  have "unat (of_nat n :: u64) = n" using assms(1) by (simp add: unsigned_of_nat take_bit_nat_eq_self)
  with assms show ?thesis
    by (simp add: same_frame_def same_limits_def add_transactions_in_flight_def sub_transactions_in_flight_def
        word_unat_eq_iff unat_saturating_sub unat_saturating_add)
qed

lemma transaction_costs_length: "transaction_costs env active ps = Some costs \<Longrightarrow> length costs = length ps"
  by (induction ps arbitrary: costs) (auto split: bind_splits)

lemma oks_le: "length (oks rs) \<le> length rs"
  by (induction rs rule: oks.induct) auto

text \<open>The state between selection and settlement of a batch.\<close>

lemma selected_batch:
  assumes reach: "tracker_reach t L" and costs: "transaction_costs env active (zip transactions pre_results) = Some costs"
    and batch: "batch_ok costs L"
    and select: "select_and_accumulate_transaction_costs env active transactions pre_results (t, m) = Some ((rs, throttled), t1, m1)"
  shows "tracker_reach t1 (pending (oks rs) @ L)" "length rs = length (zip transactions pre_results)"
    "throttled = of_nat (length transactions - length (oks rs))"
    "\<exists>t'. same_frame t t' \<and> t1 = add_transactions_in_flight (of_nat (length (oks rs))) t'"
proof -
  have len: "length costs = length (zip transactions pre_results)" by (rule transaction_costs_length [OF costs])
  then have z: "map snd (zip transactions costs) = costs" by (simp add: map_snd_zip_take)
  obtain t' n where sel: "select_costs costs t 0 = (rs, t', n)" and t1: "t1 = add_transactions_in_flight (of_nat n) t'"
    and k: "throttled = of_nat (length transactions - n)"
    using select by (auto simp: select_and_accumulate_transaction_costs_def compute_transaction_costs_def costs
        select_transactions_per_cost_def z Let_def split: prod.splits)
  note s = select_costs_ok [OF reach batch sel]
  show "tracker_reach t1 (pending (oks rs) @ L)" using s t1 by (simp add: tracker_reach.begin_flight)
  show "length rs = length (zip transactions pre_results)" using s len by simp
  show "throttled = of_nat (length transactions - length (oks rs))" using s k by simp
  show "\<exists>t'. same_frame t t' \<and> t1 = add_transactions_in_flight (of_nat (length (oks rs))) t'" using s t1 by auto
qed

lemma frame_through:
  assumes "unat (in_flight_transaction_count t) + n < 2 ^ 64"
    and "\<exists>t'. same_frame t t' \<and> t1 = add_transactions_in_flight (of_nat n) t'" and "same_frame t1 t2"
  shows "same_frame t (sub_transactions_in_flight (of_nat n) t2)"
  using in_flight_returns [OF assms(1), of t2] assms(2,3)
  by (auto simp: same_frame_def same_limits_def add_transactions_in_flight_def)

lemma batch_restored:
  assumes "tracker_reach t L" "transaction_costs env active (zip transactions pre_results) = Some costs" "batch_ok costs L"
    "unat (in_flight_transaction_count t) + length transactions < 2 ^ 64"
    "select_and_accumulate_transaction_costs env active transactions pre_results (t, m) = Some ((rs, throttled), t1, m1)"
  shows "same_tracker t (remove_or_update_costs env rs None t1)"
proof -
  note s = selected_batch [OF assms(1,2,3,5)]
  obtain t2 where t2: "fold drop_cost rs (t1, 0) = (t2, length (oks rs))" "tracker_reach t2 L" "same_frame t1 t2"
    using drop_costs_ok [OF s(1), of 0] by auto
  let ?t = "sub_transactions_in_flight (of_nat (length (oks rs))) t2"
  have "unat (in_flight_transaction_count t) + length (oks rs) < 2 ^ 64" using assms(4) oks_le [of rs] s(2) by simp
  then have "same_frame t ?t" by (rule frame_through [OF _ s(4) t2(3)])
  moreover have "tracks t L" "tracks ?t L"
    using tracker_reach_ok [OF assms(1)] tracker_reach_ok [OF tracker_reach.end_flight [OF t2(2)]] by blast+
  ultimately have "same_tracker t ?t" by (intro tracks_unique)
  then show ?thesis by (simp add: remove_or_update_costs_def remove_unrecorded_transaction_costs_def t2(1))
qed

lemma batch_settled:
  assumes "tracker_reach t L" "transaction_costs env active (zip transactions pre_results) = Some costs" "batch_ok costs L"
    "unat (in_flight_transaction_count t) + length transactions < 2 ^ 64"
    "select_and_accumulate_transaction_costs env active transactions pre_results (t, m) = Some ((rs, throttled), t1, m1)"
    "length committed = length rs" "\<forall>p \<in> set (zip rs committed). covered env p"
  shows "tracker_reach (remove_or_update_costs env rs (Some committed) t1) (rev (kept env (zip rs committed)) @ L)"
    "same_frame t (remove_or_update_costs env rs (Some committed) t1)"
proof -
  note s = selected_batch [OF assms(1,2,3,5)]
  have z: "map fst (zip rs committed) = rs" using assms(6) by simp
  obtain t2 where t2: "fold (settle_cost env) (zip rs committed) (t1, 0) = (t2, length (oks rs))"
      "tracker_reach t2 (rev (kept env (zip rs committed)) @ L)" "same_frame t1 t2"
    using settle_costs_ok [of t1 "zip rs committed" L env 0] s(1) assms(7) unfolding z by auto
  have "unat (in_flight_transaction_count t) + length (oks rs) < 2 ^ 64" using assms(4) oks_le [of rs] s(2) by simp
  then show "same_frame t (remove_or_update_costs env rs (Some committed) t1)"
    using frame_through [OF _ s(4) t2(3)]
    by (simp add: remove_or_update_costs_def remove_or_update_recorded_transaction_costs_def t2(1))
  show "tracker_reach (remove_or_update_costs env rs (Some committed) t1) (rev (kept env (zip rs committed)) @ L)"
    using t2(2) by (simp add: remove_or_update_costs_def remove_or_update_recorded_transaction_costs_def t2(1)
        tracker_reach.end_flight)
qed

text \<open>The requested limits that execution enforces are what the estimate has to cover.\<close>

lemma covered_by_limits:
  assumes "sanitize_and_convert_to_compute_budget_limits (budget env) active (compute_budget_instruction_details tx) =
      Some (Inr limits)"
    and "\<not> is_simple_vote_transaction tx" "unat used \<le> unat (compute_unit_limit limits)" "bytes \<le> loaded_accounts_bytes limits"
    and "\<And>a b. a \<le> b \<Longrightarrow> memory_usage_cost env a DEFAULT_HEAP_COST \<le> memory_usage_cost env b DEFAULT_HEAP_COST"
    and "calculate_cost env active tx = Some c"
  shows "covered env (Inr c, Committed used bytes)"
  using assms(1-4,6) assms(5) [OF assms(4)]
  by (auto simp: covered_def actual_cost_def calculate_cost_def get_estimated_execution_cost_def
      calculate_non_vote_transaction_cost_def calculate_loaded_accounts_data_size_cost_def unat_ucast_up word_le_nat_alt)

lemma charged_rev [simp]: "charged P (rev L) = charged P L"
  by (induction L) simp_all

end
