(* ===== verification/Cost_Props.thy ===== *)
theory Cost_Props
  imports Qos_Service
begin

text \<open>
  The properties of the cost of transactions and of its tracking, with witnesses on a block that admits
  transactions over three accounts.
\<close>

section \<open>An example\<close>

definition demo_ids :: "nat sdk_ids" where
  "demo_ids =
     \<lparr>vote_id = 1, system_program_id = 2, compute_budget_id = 3, bpf_loader_upgradeable_id = 4, bpf_loader_deprecated_id = 5,
      bpf_loader_id = 6, loader_v4_id = 7, secp256k1_program_id = 8, ed25519_program_id = 9, secp256r1_program_id = 10\<rparr>"

text \<open>An instruction to set the unit limit (first byte 2, in thousands) or the price (first byte 3).\<close>

definition demo_decode :: "u8 list \<Rightarrow> compute_budget_instruction option" where
  "demo_decode d = (case d of
     [a, b] \<Rightarrow> if a = 2 then Some (SetComputeUnitLimit (1000 * ucast b))
               else if a = 3 then Some (SetComputeUnitPrice (ucast b)) else None
   | _ \<Rightarrow> None)"

definition demo_budget :: "nat budget_env" where
  "demo_budget =
     \<lparr>ids = demo_ids, first_byte = of_nat, packet_data_size = 1232, heap_length = 32768, decode_budget_instruction = demo_decode\<rparr>"

text \<open>Memory is charged by pages of 32K.\<close>

definition demo_memory :: "u32 \<Rightarrow> u64 \<Rightarrow> u64" where
  "demo_memory n heap_cost = (ucast n + 32767) div 32768 * heap_cost"

definition demo_cost_env :: "nat cost_env" where
  "demo_cost_env =
     \<lparr>budget = demo_budget, ed25519_precompile_verify_strict = 20, enable_secp256r1_precompile = 21,
      create_account_allow_prefund = 22,
      decode_system_instruction = (\<lambda>d. if d = [0] then Some (CreateAccount 100) else None),
      memory_usage_cost = demo_memory, max_permitted_data_length = 10485760, max_permitted_allocations = 20971520\<rparr>"

definition demo_instructions :: "(nat \<times> svm_instruction) list" where
  "demo_instructions =
     [(3, \<lparr>program_id_index = 2, instruction_data = [2, 5]\<rparr>), (2, \<lparr>program_id_index = 3, instruction_data = [0]\<rparr>)]"

definition demo_keys :: "nat \<Rightarrow> nat" where
  "demo_keys i = (if i = 2 then 3 else 2)"

definition demo_details :: budget_details where
  "demo_details = budget_details_default\<lparr>requested_compute_unit_limit := Some (0, 5000)\<rparr>"

definition demo_cost_tx :: "(nat \<times> bool) list \<Rightarrow> nat cost_tx" where
  "demo_cost_tx keys =
     \<lparr>is_simple_vote_transaction = False,
      signature_details = \<lparr>tsd_transaction_signatures = 1, tsd_secp256k1_instruction_signatures = 0,
        tsd_ed25519_instruction_signatures = 0, tsd_secp256r1_instruction_signatures = 0\<rparr>,
      compute_budget_instruction_details = demo_details, instruction_data_len = 3,
      program_instructions = demo_instructions, num_write_locks = 2, account_keys = keys\<rparr>"

definition demo_vote_tx :: "nat cost_tx" where
  "demo_vote_tx = (demo_cost_tx [(40, True), (41, True)])\<lparr>is_simple_vote_transaction := True\<rparr>"

text \<open>Limits under which account 40 can be written by one of the transactions and the vote, but not by two.\<close>

definition demo_tracker :: "nat cost_tracker" where
  "demo_tracker = set_limits 27000 60000 30000 tracker_default"

definition demo_txs :: "nat cost_tx list" where
  "demo_txs = [demo_cost_tx [(40, True), (41, False)], demo_cost_tx [(40, True)], demo_cost_tx [(41, True)], demo_vote_tx]"

definition demo_pre_results :: "(transaction_error + unit) list" where
  "demo_pre_results = [Inr (), Inr (), Inl (OtherTransactionError 0), Inr ()]"

definition demo_costs :: "nat cost_result list" where
  "demo_costs = (case transaction_costs demo_cost_env (\<lambda>_. False) (zip demo_txs demo_pre_results) of Some cs \<Rightarrow> cs | None \<Rightarrow> [])"

definition metrics_zero :: qos_service_metrics where
  "metrics_zero =
     \<lparr>compute_cost_count = 0, selected_txs_count = 0, estimated_signature_cu = 0, estimated_write_lock_cu = 0,
      estimated_data_bytes_cu = 0, estimated_loaded_accounts_data_size_cu = 0, estimated_programs_execute_cu = 0,
      actual_programs_execute_cu = 0, actual_execute_time_us = 0, retried_txs_per_block_limit_count = 0,
      retried_txs_per_vote_limit_count = 0, retried_txs_per_account_limit_count = 0,
      retried_txs_per_account_data_block_limit_count = 0, dropped_txs_per_account_data_total_limit_count = 0\<rparr>"

definition demo_cost :: "nat transaction_cost" where
  "demo_cost = projr (demo_costs ! 0)"

definition demo_tracker1 :: "nat cost_tracker" where
  "demo_tracker1 = snd (projr (try_add demo_cost demo_tracker))"

definition demo_ledger1 :: "nat ledger" where
  "demo_ledger1 = [full_charge demo_cost]"

definition demo_selected :: "(nat cost_result list \<times> u64) \<times> nat cost_tracker \<times> qos_service_metrics" where
  "demo_selected = the (select_and_accumulate_transaction_costs demo_cost_env (\<lambda>_. False) demo_txs demo_pre_results
     (demo_tracker, metrics_zero))"


lemma demo_block_start: "tracker_reach demo_tracker []"
proof (rule tracker_reach.start)
  show "demo_tracker = set_limits 27000 60000 30000 tracker_default" by (rule demo_tracker_def)
  show "limits_ok demo_tracker" by (simp add: demo_tracker_def set_limits_def limits_ok_def)
qed

lemma demo_block_added: "tracker_reach demo_tracker1 demo_ledger1"
proof -
  have "distinct (writable_accounts demo_cost)" by code_simp
  moreover have "counters_fit demo_cost []"
  proof -
    have "num_transaction_signatures demo_cost = 1" "cost_secp256k1_signatures demo_cost = 0"
      "cost_ed25519_signatures demo_cost = 0" "cost_secp256r1_signatures demo_cost = 0" by code_simp+
    then show ?thesis by (simp add: counters_fit_def)
  qed
  moreover have "\<not> isl (try_add demo_cost demo_tracker)" by code_simp
  then have "try_add demo_cost demo_tracker = Inr (fst (projr (try_add demo_cost demo_tracker)), demo_tracker1)"
    by (auto simp: demo_tracker1_def isl_def)
  ultimately show ?thesis unfolding demo_ledger1_def full_charge_def by (rule tracker_reach.add [OF demo_block_start])
qed

lemma demo_cost_sum: "cost_sum demo_cost = 22704"
  by code_simp

lemma demo_transaction_costs: "transaction_costs demo_cost_env (\<lambda>_. False) (zip demo_txs demo_pre_results) = Some demo_costs"
proof -
  have "transaction_costs demo_cost_env (\<lambda>_. False) (zip demo_txs demo_pre_results) \<noteq> None" by code_simp
  then show ?thesis by (auto simp: demo_costs_def)
qed

lemma demo_batch_ok: "batch_ok demo_costs []"
proof -
  have "list_all (\<lambda>c. distinct (writable_accounts c)) (oks demo_costs)" by code_simp
  moreover have "map num_transaction_signatures (oks demo_costs) = [1, 1, 1]" "map cost_secp256k1_signatures (oks demo_costs) = [0, 0, 0]"
    "map cost_ed25519_signatures (oks demo_costs) = [0, 0, 0]" "map cost_secp256r1_signatures (oks demo_costs) = [0, 0, 0]"
    by code_simp+
  ultimately show ?thesis by (auto simp: batch_ok_def counters_within_def list_all_iff)
qed

lemma demo_select:
  "select_and_accumulate_transaction_costs demo_cost_env (\<lambda>_. False) demo_txs demo_pre_results (demo_tracker, metrics_zero) =
     Some ((fst (fst demo_selected), snd (fst demo_selected)), fst (snd demo_selected), snd (snd demo_selected))"
proof -
  have "select_and_accumulate_transaction_costs demo_cost_env (\<lambda>_. False) demo_txs demo_pre_results (demo_tracker, metrics_zero) \<noteq> None"
    by code_simp
  then show ?thesis by (simp add: demo_selected_def)
qed


section \<open>Properties\<close>

text \<open>
  C35. In every history of a block (admissions, removals, settlements within the estimate, and changes
  of the number of transactions in flight, in any order) the cost tracker holds exactly the sums of the
  charges of the admitted transactions: for the block, for votes, for every writable account, and for
  the counters. No limit is ever exceeded.
\<close>

theorem cost_tracker_invariant:
  assumes "tracker_reach t L"
  shows "tracks t L \<and> within_limits t"
  using tracker_reach_ok [OF assms] by blast

theorem cost_tracker_invariant_witness:
  "within_limits demo_tracker1 \<and> unat (block_cost demo_tracker1) = 22704"
  using cost_tracker_invariant [OF demo_block_added] demo_cost_sum by (simp add: tracks_def costs_track_def demo_ledger1_def)

text \<open>
  C36. Admission is exact: a transaction is turned away, with the error of the first limit concerned, when
  and only when the true sum of the charges with its own would exceed the vote limit, the block limit,
  the account limit, the limit on allocated data, or the limit of an account it writes.
\<close>

theorem try_add_verdict:
  assumes "tracker_reach t L"
  shows "map_sum id (\<lambda>_. ()) (try_add c t) =
    (let n = unat (cost_sum c) in
     if is_simple_vote c \<and> charged is_simple_vote L + n > unat (vote_cost_limit t) then Inl WouldExceedVoteMaxLimit
     else if charged (\<lambda>_. True) L + n > unat (block_cost_limit t) then Inl WouldExceedBlockMaxLimit
     else if n > unat (account_cost_limit t) then Inl WouldExceedAccountMaxLimit
     else if total_of allocated_accounts_data_size L + unat (allocated_accounts_data_size c) > 100000000
     then Inl WouldExceedAccountDataBlockLimit_CT
     else if \<exists>k. writes k c \<and> charged (writes k) L + n > unat (account_cost_limit t) then Inl WouldExceedAccountMaxLimit
     else Inr ())"
proof -
  have "map_sum id (\<lambda>_. ()) (try_add c t) = would_fit c t"
    by (auto simp: try_add_def split: sum.splits prod.splits)
  with tracker_reach_ok [OF assms] would_fit_ok [of t L c] show ?thesis by metis
qed

theorem try_add_verdict_witness:
  "map_sum id (\<lambda>_. ()) (try_add demo_cost demo_tracker1) = Inl WouldExceedAccountMaxLimit"
proof -
  have w: "writes 40 demo_cost" by code_simp
  have d: "is_simple_vote demo_cost = False" "allocated_accounts_data_size demo_cost = 100" by code_simp+
  have l: "block_cost_limit demo_tracker1 = 60000" "account_cost_limit demo_tracker1 = 27000" by code_simp+
  have "\<exists>k. writes k demo_cost \<and> charged (writes k) demo_ledger1 + unat (cost_sum demo_cost) > unat (account_cost_limit demo_tracker1)"
    using w by (intro exI [of _ 40]) (simp add: demo_ledger1_def demo_cost_sum l)
  then show ?thesis
    using try_add_verdict [OF demo_block_added, of demo_cost] d l by (simp add: demo_cost_sum demo_ledger1_def Let_def)
qed

text \<open>
  C37. A batch that was selected but not recorded leaves no trace: after its costs are removed, every
  cost, counter and limit of the tracker, and the number of transactions in flight, is what it was
  before the selection.
\<close>

theorem qos_batch_restored:
  assumes "tracker_reach t L" "transaction_costs env active (zip transactions pre_results) = Some costs" "batch_ok costs L"
    "unat (in_flight_transaction_count t) + length transactions < 2 ^ 64"
    "select_and_accumulate_transaction_costs env active transactions pre_results (t, m) = Some ((rs, throttled), t1, m1)"
  shows "same_tracker t (remove_or_update_costs env rs None t1)"
  using assms by (rule batch_restored)

theorem qos_batch_restored_witness:
  "block_cost (fst (snd demo_selected)) = 26132 \<and>
   same_tracker demo_tracker (remove_or_update_costs demo_cost_env (fst (fst demo_selected)) None (fst (snd demo_selected)))"
proof
  show "block_cost (fst (snd demo_selected)) = 26132" by code_simp
  have "in_flight_transaction_count demo_tracker = 0" "length demo_txs = 4" by code_simp+
  then have "unat (in_flight_transaction_count demo_tracker) + length demo_txs < 2 ^ 64" by simp
  then show "same_tracker demo_tracker (remove_or_update_costs demo_cost_env (fst (fst demo_selected)) None (fst (snd demo_selected)))"
    by (rule qos_batch_restored [OF demo_block_start demo_transaction_costs demo_batch_ok _ demo_select])
qed



text \<open>
  C39. The requests of a transaction with sanitized program indices are accepted exactly when every
  compute budget instruction decodes, none is repeated, the heap size is in range and a multiple of
  1024, and the loaded data limit is not zero. The limits that follow are the requested ones cut to the
  maximum, with the defaults per instruction where there is no request; the caches of the filters do
  not change the answer and no step panics.
\<close>

theorem budget_limits_exact:
  assumes "sanitized env keys instructions" "heap_length env \<le> MAX_HEAP_FRAME_BYTES"
  shows "if budget_valid env instructions
    then \<exists>limits. process_compute_budget_instructions env active instructions = Some (Inr limits) \<and>
      unat (compute_unit_limit limits) = min 1400000 (requested_units env instructions) \<and>
      updated_heap_bytes limits =
        (case first_request (picks env heap_request 0 instructions) of None \<Rightarrow> heap_length env | Some v \<Rightarrow> v) \<and>
      heap_length env \<le> updated_heap_bytes limits \<and> updated_heap_bytes limits \<le> 256 * 1024 \<and>
      compute_unit_price limits =
        (case first_request (picks env price_request 0 instructions) of None \<Rightarrow> 0 | Some v \<Rightarrow> v) \<and>
      loaded_accounts_bytes limits =
        (case first_request (picks env loaded_request 0 instructions) of
           None \<Rightarrow> 64 * 1024 * 1024 | Some v \<Rightarrow> min v (64 * 1024 * 1024)) \<and>
      0 < loaded_accounts_bytes limits
    else \<exists>e. process_compute_budget_instructions env active instructions = Some (Inl e)"
  using assms by (rule budget_limits_ok)

theorem budget_limits_exact_witness:
  "\<exists>limits. process_compute_budget_instructions demo_budget (\<lambda>_. False) demo_instructions = Some (Inr limits) \<and>
     unat (compute_unit_limit limits) = 5000"
proof -
  have "FILTER_SIZE demo_budget = 38" by code_simp
  then have s: "sanitized demo_budget demo_keys demo_instructions" by (simp add: sanitized_def demo_instructions_def demo_keys_def)
  have h: "heap_length demo_budget \<le> MAX_HEAP_FRAME_BYTES" by code_simp
  have p: "picks demo_budget limit_request 0 demo_instructions = [(0, 5000)]" "picks demo_budget heap_request 0 demo_instructions = []"
    "picks demo_budget price_request 0 demo_instructions = []" "picks demo_budget loaded_request 0 demo_instructions = []"
    by code_simp+
  have "all_decode demo_budget demo_instructions" by code_simp
  then have "budget_valid demo_budget demo_instructions" by (simp add: budget_valid_def p first_request_def)
  moreover have "requested_units demo_budget demo_instructions = 5000" by (simp add: requested_units_def p first_request_def)
  ultimately show ?thesis using budget_limits_exact [OF s h, of "\<lambda>_. False"] by auto
qed



end
