(* ===== verification/Spec2Isabelle.thy ===== *)
theory Spec2Isabelle
  imports Scheduler_Props Account_Locks Thread_Aware_Locks Task_Creation Rolling_Bit_Field
    Fork_Props Cost_Props
begin

text \<open>
  A verification library for the validator in \<^verbatim>\<open>src/\<close>.

  \<^bold>\<open>Conventions.\<close> Fixed-width integers are words of their width; checked, wrapping and saturating
  operations are those of \<^verbatim>\<open>Prelude\<close>. A panic (a failed \<open>unwrap\<close>, \<open>assert!\<close> or
  checked operation) is \<^const>\<open>None\<close> of an option type; an error value that the code returns is a
  constructor of a datatype. Cells shared through \<open>Arc\<close> are addresses of an explicit store. A
  \<open>BTreeMap\<close> is a list of pairs with strictly ascending keys. Functions of crates that are not
  under \<^verbatim>\<open>src/\<close> are parameters of the definitions that use them.
\<close>

end
